(* ===== verification/Prelude.thy ===== *)
theory Prelude
  imports Main "HOL-Library.Sublist"
begin

text \<open>
  Shared vocabulary of the development.

  A byte is a \<^typ>\<open>char\<close> (HOL's 8-bit characters), a byte string is a list of them, and a
  Rust \<open>String\<close> is the byte string of its UTF-8 encoding, so that \<open>len()\<close> is \<^const>\<open>length\<close>.
  A Rust panic is the left value of a sum (\<open>outcome\<close>).  Sizes (\<open>usize\<close>, \<open>u64\<close>) are natural
  numbers: subtraction and multiplication are checked against the 64-bit range and panic, as
  they do with overflow checks on, and \<open>saturating_\<close> operations are written out.  Additions
  that count bytes or elements held in memory, and the \<open>u64\<close> sequence and subscriber counters,
  are plain additions: they would need \<open>2 ^ 64\<close> live bytes or events to overflow.
\<close>

section \<open>Types\<close>

type_synonym byte = char
type_synonym bytes = "byte list"
type_synonym usize = nat
type_synonym u64 = nat

text \<open>\<open>std::time::Duration\<close>, in nanoseconds (its resolution).\<close>
type_synonym duration = nat

text \<open>The panics of the modelled code; the string is the panic message's fixed part.  \<open>Diverges\<close> stands
  for a loop that goes round without changing its state, so that a result \<open>Inr\<close> of such a loop also
  says that it ends.\<close>
datatype panic =
    ArithmeticOverflow
  | AssertFailed string
  | ExpectFailed string
  | UnreachableCode string
  | ExplicitPanic string
  | Diverges

type_synonym 'a outcome = "panic + 'a"

text \<open>What polling a future gives.\<close>
datatype 'a poll_result = Ready 'a | Pending

definition newline :: byte where
  "newline = CHR 0x0A"

section \<open>Machine arithmetic\<close>

definition usize_max :: nat where
  "usize_max = 2 ^ 64 - 1"

definition usize_sub :: "nat \<Rightarrow> nat \<Rightarrow> nat outcome" where
  "usize_sub a b = (if b \<le> a then Inr (a - b) else Inl ArithmeticOverflow)"

definition usize_mul :: "nat \<Rightarrow> nat \<Rightarrow> nat outcome" where
  "usize_mul a b = (if a * b \<le> usize_max then Inr (a * b) else Inl ArithmeticOverflow)"

text \<open>\<open>saturating_sub\<close> is exactly subtraction on the naturals; \<open>saturating_add\<close> stops at the top.\<close>

definition saturating_sub :: "nat \<Rightarrow> nat \<Rightarrow> nat" where
  "saturating_sub a b = a - b"

definition saturating_add :: "nat \<Rightarrow> nat \<Rightarrow> nat" where
  "saturating_add a b = min (a + b) usize_max"

definition div_ceil :: "nat \<Rightarrow> nat \<Rightarrow> nat" where
  "div_ceil a b = (if a mod b = 0 then a div b else a div b + 1)"

lemma usize_sub_ok [simp]: "b \<le> a \<Longrightarrow> usize_sub a b = Inr (a - b)"
  by (simp add: usize_sub_def)

lemma saturating_sub_simp [simp]: "saturating_sub a b = a - b"
  by (simp add: saturating_sub_def)

section \<open>Collections of facts\<close>

named_theorems parser_simps
  \<open>unfolding rules of the line parser\<close>

named_theorems sink_simps
  \<open>unfolding rules of the collecting sinks\<close>

named_theorems replay_simps
  \<open>unfolding rules of the replay windows\<close>

named_theorems handle_simps
  \<open>unfolding rules of the process handle\<close>

section \<open>Lists\<close>

text \<open>Splitting at the first occurrence of a byte.\<close>

lemma split_at_first:
  assumes "i < length xs" and "xs ! i = b" and "\<forall>j<i. xs ! j \<noteq> b"
  shows "xs = take i xs @ b # drop (Suc i) xs" and "b \<notin> set (take i xs)"
proof -
  show "xs = take i xs @ b # drop (Suc i) xs"
    using assms(1,2) id_take_nth_drop [of i xs] by simp
  show "b \<notin> set (take i xs)"
    using assms(1,3) by (auto simp: in_set_conv_nth)
qed

lemma take_suffix_length:
  "length xs \<le> n \<Longrightarrow> drop (length (ys @ xs) - n) (ys @ xs) = drop (length ys - (n - length xs)) ys @ xs"
  by simp

lemma sum_list_drop_le: "sum_list (map f (drop n xs)) \<le> sum_list (map (f :: 'a \<Rightarrow> nat) xs)"
proof -
  have "sum_list (map f xs) = sum_list (map f (take n xs)) + sum_list (map f (drop n xs))"
    by (metis append_take_drop_id map_append sum_list_append)
  then show ?thesis by simp
qed

text \<open>The last \<open>n\<close> elements of a list.\<close>

definition last_n :: "nat \<Rightarrow> 'a list \<Rightarrow> 'a list" where
  "last_n n xs = drop (length xs - n) xs"

lemma length_last_n [simp]: "length (last_n n xs) = min n (length xs)"
  by (simp add: last_n_def min_def)

lemma last_n_all [simp]: "length xs \<le> n \<Longrightarrow> last_n n xs = xs"
  by (simp add: last_n_def)

lemma last_n_0 [simp]: "last_n 0 xs = []"
  by (simp add: last_n_def)

lemma last_n_append:
  "last_n n (xs @ ys) = last_n (n - length ys) xs @ last_n n ys"
proof (cases "n \<le> length ys")
  case True
  then have "length xs \<le> length xs + length ys - n" by linarith
  with True show ?thesis by (simp add: last_n_def)
next
  case False
  then have "length xs + length ys - n = length xs - (n - length ys)" by linarith
  with False show ?thesis by (simp add: last_n_def)
qed

lemma last_n_last_n: "last_n n (last_n m xs) = last_n (min n m) xs"
proof (cases "n \<le> m")
  case True
  then have "length xs - m + (length xs - (length xs - m) - n) = length xs - n"
    by linarith
  then show ?thesis using True by (simp add: last_n_def add.commute)
next
  case False
  then show ?thesis by simp
qed

lemma last_n_append_last_n: "last_n n (last_n n xs @ ys) = last_n n (xs @ ys)"
  by (simp add: last_n_append last_n_last_n)

section \<open>Iterating fallible operations\<close>

fun push_all :: "('c \<Rightarrow> 'a \<Rightarrow> 'c outcome) \<Rightarrow> 'c \<Rightarrow> 'a list \<Rightarrow> 'c outcome" where
  "push_all push c [] = Inr c"
| "push_all push c (a # as) = (case push c a of Inl e \<Rightarrow> Inl e | Inr c' \<Rightarrow> push_all push c' as)"

lemma push_all_append:
  "push_all push c (xs @ ys) = (case push_all push c xs of Inl e \<Rightarrow> Inl e | Inr c' \<Rightarrow> push_all push c' ys)"
  by (induction xs arbitrary: c) (simp_all split: sum.split)

end
