(* ===== verification/Utf8.thy ===== *)
theory Utf8
  imports Prelude
begin

text \<open>
  \<open>String::from_utf8_lossy\<close>, the standard library conversion behind \<open>decode_line_lossy\<close> in
  \<open>src/output_stream/line/parser.rs\<close>.  It copies well-formed UTF-8 sequences and replaces each
  maximal ill-formed prefix by U+FFFD (the bytes EF BF BD).  The model works on byte strings in
  both directions.  The lemmas show that the output is well-formed UTF-8, that decoding is the
  identity on well-formed input (hence idempotent), that it never introduces a newline byte, and
  that it grows a byte string at most threefold.
\<close>

section \<open>Definitions\<close>

definition replacement :: bytes where
  "replacement = [CHR 0xEF, CHR 0xBF, CHR 0xBD]"

abbreviation code :: "byte \<Rightarrow> nat" where
  "code b \<equiv> of_char b"

definition in_range :: "nat \<Rightarrow> nat \<Rightarrow> byte \<Rightarrow> bool" where
  "in_range lo hi b \<longleftrightarrow> lo \<le> code b \<and> code b \<le> hi"

definition is_cont :: "byte \<Rightarrow> bool" where
  "is_cont b \<longleftrightarrow> in_range 0x80 0xBF b"

text \<open>Number of bytes announced by a lead byte; 0 for a byte that starts no sequence.\<close>

definition lead_width :: "byte \<Rightarrow> nat" where
  "lead_width b =
     (let c = code b in
      if c < 0x80 then 1
      else if 0xC2 \<le> c \<and> c \<le> 0xDF then 2
      else if 0xE0 \<le> c \<and> c \<le> 0xEF then 3
      else if 0xF0 \<le> c \<and> c \<le> 0xF4 then 4
      else 0)"

text \<open>The second byte's range depends on the lead byte (no overlong forms, no surrogates, nothing
  above U+10FFFF).\<close>

definition second_ok :: "byte \<Rightarrow> byte \<Rightarrow> bool" where
  "second_ok a b =
     (let c = code a in
      if c = 0xE0 then in_range 0xA0 0xBF b
      else if c = 0xED then in_range 0x80 0x9F b
      else if c = 0xF0 then in_range 0x90 0xBF b
      else if c = 0xF4 then in_range 0x80 0x8F b
      else is_cont b)"

text \<open>Scanning one item at the head of a non-empty byte string: \<open>(n, True)\<close> is a well-formed
  sequence of \<open>n\<close> bytes, \<open>(n, False)\<close> an ill-formed prefix of \<open>n\<close> bytes.\<close>

fun scan_item :: "bytes \<Rightarrow> nat \<times> bool" where
  "scan_item [] = (0, True)"
| "scan_item (a # xs) =
     (let w = lead_width a in
      if w = 1 then (1, True)
      else if w = 0 then (1, False)
      else case xs of
        [] \<Rightarrow> (1, False)
      | b # ys \<Rightarrow>
          if \<not> second_ok a b then (1, False)
          else if w = 2 then (2, True)
          else case ys of
            [] \<Rightarrow> (2, False)
          | c # zs \<Rightarrow>
              if \<not> is_cont c then (2, False)
              else if w = 3 then (3, True)
              else case zs of
                [] \<Rightarrow> (3, False)
              | e # _ \<Rightarrow> if is_cont e then (4, True) else (3, False))"

lemma scan_item_pos: "xs \<noteq> [] \<Longrightarrow> 0 < fst (scan_item xs)"
  by (cases xs) (auto simp: Let_def split: list.splits)

lemma scan_item_le: "fst (scan_item xs) \<le> length xs"
  by (cases xs) (auto simp: Let_def split: list.splits)

function from_utf8_lossy :: "bytes \<Rightarrow> bytes" where
  "from_utf8_lossy xs =
     (if xs = [] then []
      else (let (n, ok) = scan_item xs in
            (if ok then take n xs else replacement) @ from_utf8_lossy (drop n xs)))"
  by pat_completeness auto
termination
proof (relation "measure length")
  fix xs :: bytes and p n ok
  assume "xs \<noteq> []" and "p = scan_item xs" and "(n, ok) = p"
  then have "0 < n" using scan_item_pos[of xs] by (metis fst_conv)
  then show "(drop n xs, xs) \<in> measure length" using \<open>xs \<noteq> []\<close> by simp
qed simp

declare from_utf8_lossy.simps [simp del]

text \<open>Well-formed UTF-8: the byte string is a concatenation of well-formed sequences.\<close>

inductive utf8_valid :: "bytes \<Rightarrow> bool" where
  utf8_nil: "utf8_valid []"
| utf8_item: "xs \<noteq> [] \<Longrightarrow> scan_item xs = (n, True) \<Longrightarrow> utf8_valid (drop n xs) \<Longrightarrow> utf8_valid xs"

section \<open>Properties\<close>

lemma from_utf8_lossy_Nil [simp]: "from_utf8_lossy [] = []"
  by (simp add: from_utf8_lossy.simps)

lemma from_utf8_lossy_step:
  "xs \<noteq> [] \<Longrightarrow> scan_item xs = (n, ok) \<Longrightarrow>
   from_utf8_lossy xs = (if ok then take n xs else replacement) @ from_utf8_lossy (drop n xs)"
  by (simp add: from_utf8_lossy.simps [of xs])

text \<open>A well-formed item only looks at its own bytes.\<close>

lemma scan_item_take:
  "scan_item xs = (n, True) \<Longrightarrow> xs \<noteq> [] \<Longrightarrow> scan_item (take n xs @ ys) = (n, True)"
proof -
  assume s: "scan_item xs = (n, True)" and "xs \<noteq> []"
  then obtain a as where xs: "xs = a # as" by (cases xs) auto
  consider "lead_width a = 1" | "lead_width a = 0" | "1 < lead_width a" by linarith
  then show ?thesis
  proof cases
    case 1
    with s xs have "n = 1" by simp
    with 1 xs show ?thesis by simp
  next
    case 3
    with s xs obtain b bs where as: "as = b # bs" and b: "second_ok a b"
      by (auto simp: Let_def split: list.splits if_splits)
    show ?thesis
    proof (cases "lead_width a = 2")
      case True
      with s xs as b show ?thesis by (auto simp: Let_def)
    next
      case False
      with 3 s xs as b obtain c cs where bs: "bs = c # cs" and c: "is_cont c"
        by (auto simp: Let_def split: list.splits if_splits)
      show ?thesis
      proof (cases "lead_width a = 3")
        case True
        with s xs as b bs c show ?thesis by (auto simp: Let_def)
      next
        case F3: False
        with False 3 s xs as b bs c obtain e es where "cs = e # es" and "is_cont e" and "n = 4"
          by (auto simp: Let_def split: list.splits if_splits)
        with False F3 3 xs as b bs c show ?thesis by (auto simp: Let_def)
      qed
    qed
  qed (use s xs in \<open>auto simp: Let_def\<close>)
qed

lemma scan_replacement: "scan_item (replacement @ ys) = (3, True)"
  by (simp add: replacement_def lead_width_def second_ok_def is_cont_def in_range_def Let_def)

lemma utf8_valid_append_item:
  assumes "scan_item (us @ ys) = (length us, True)" and "us \<noteq> []" and "utf8_valid ys"
  shows "utf8_valid (us @ ys)"
  using assms by (intro utf8_item [of "us @ ys" "length us"]) auto

lemma from_utf8_lossy_induct [case_names Nil Step]:
  assumes "P []"
    and "\<And>xs n ok. xs \<noteq> [] \<Longrightarrow> scan_item xs = (n, ok) \<Longrightarrow> 0 < n \<Longrightarrow> n \<le> length xs \<Longrightarrow>
           P (drop n xs) \<Longrightarrow> P xs"
  shows "P xs"
proof (induction xs rule: length_induct)
  case (1 xs)
  obtain n ok where s: "scan_item xs = (n, ok)" by fastforce
  show ?case
  proof (cases "xs = []")
    case False
    have "0 < n" "n \<le> length xs"
      using scan_item_pos[OF False] scan_item_le[of xs] s by auto
    then show ?thesis using False s assms(2) 1 by auto
  qed (simp add: assms(1))
qed

lemma from_utf8_lossy_valid: "utf8_valid (from_utf8_lossy xs)"
proof (induction xs rule: from_utf8_lossy_induct)
  case Nil
  then show ?case by (simp add: utf8_nil)
next
  case (Step xs n ok)
  show ?case
  proof (cases ok)
    case True
    then have "scan_item (take n xs @ from_utf8_lossy (drop n xs)) = (n, True)"
      using Step scan_item_take by auto
    then show ?thesis
      using Step True utf8_valid_append_item[of "take n xs"]
      by (simp add: from_utf8_lossy_step)
  next
    case False
    then show ?thesis
      using Step utf8_valid_append_item[of replacement] scan_replacement
      by (simp add: from_utf8_lossy_step) (simp add: replacement_def)
  qed
qed

lemma from_utf8_lossy_id: "utf8_valid xs \<Longrightarrow> from_utf8_lossy xs = xs"
  by (induction rule: utf8_valid.induct) (auto simp: from_utf8_lossy_step)

lemma from_utf8_lossy_idem: "from_utf8_lossy (from_utf8_lossy xs) = from_utf8_lossy xs"
  by (simp add: from_utf8_lossy_id from_utf8_lossy_valid)

lemma from_utf8_lossy_subset: "set (from_utf8_lossy xs) \<subseteq> set xs \<union> set replacement"
proof (induction xs rule: from_utf8_lossy_induct)
  case (Step xs n ok)
  then show ?case
    using set_take_subset[of n xs] set_drop_subset[of n xs]
    by (auto simp: from_utf8_lossy_step)
qed simp

lemma from_utf8_lossy_no_newline: "newline \<notin> set xs \<Longrightarrow> newline \<notin> set (from_utf8_lossy xs)"
  using from_utf8_lossy_subset[of xs] by (auto simp: newline_def replacement_def)

lemma from_utf8_lossy_length: "length (from_utf8_lossy xs) \<le> 3 * length xs"
proof (induction xs rule: from_utf8_lossy_induct)
  case (Step xs n ok)
  then show ?case
    by (auto simp: from_utf8_lossy_step replacement_def)
qed simp

lemma from_utf8_lossy_eq_Nil [simp]: "from_utf8_lossy xs = [] \<longleftrightarrow> xs = []"
proof
  assume e: "from_utf8_lossy xs = []"
  obtain n ok where s: "scan_item xs = (n, ok)" by fastforce
  show "xs = []"
  proof (rule ccontr)
    assume "xs \<noteq> []"
    with s e have "0 < n" and "(if ok then take n xs else replacement) = []"
      using scan_item_pos [of xs] by (auto simp: from_utf8_lossy_step)
    with \<open>xs \<noteq> []\<close> show False by (auto simp: replacement_def split: if_splits)
  qed
qed simp

text \<open>ASCII text is well-formed.\<close>

lemma ascii_valid: "\<forall>b\<in>set xs. code b < 0x80 \<Longrightarrow> utf8_valid xs"
proof (induction xs)
  case Nil
  then show ?case by (simp add: utf8_nil)
next
  case (Cons a xs)
  then have "scan_item (a # xs) = (1, True)" and "utf8_valid (drop 1 (a # xs))"
    by (simp_all add: lead_width_def)
  then show ?case using utf8_item by blast
qed

lemma from_utf8_lossy_ascii: "\<forall>b\<in>set xs. code b < 0x80 \<Longrightarrow> from_utf8_lossy xs = xs"
  by (simp add: ascii_valid from_utf8_lossy_id)

end
