(* ===== verification/Stream_Types.thy ===== *)
theory Stream_Types
  imports Prelude
begin

text \<open>
  The data the output pipeline is built from: byte counts (\<open>num_bytes.rs\<close>), line parsing options
  (\<open>line/options.rs\<close>), delivery and replay policies (\<open>policy.rs\<close>), the staged stream configuration
  (\<open>config.rs\<close>), stream events (\<open>event.rs\<close>) and the errors they carry (\<open>error.rs\<close>).  The marker
  types of the Rust code (\<open>LossyWithoutBackpressure\<close>, \<open>NoReplay\<close>, \<dots>) are values here, and the trait
  methods on them are functions.  The lemmas show that the staged builder produces exactly the
  configurations that \<open>assert_valid\<close> accepts, so a stream constructor never panics on one.
\<close>

section \<open>Byte counts\<close>

datatype num_bytes = NumBytes (bytes: usize)

definition num_bytes_MAX :: num_bytes where
  "num_bytes_MAX = NumBytes usize_max"

definition num_bytes_zero :: num_bytes where
  "num_bytes_zero = NumBytes 0"

definition num_bytes_assert_non_zero :: "num_bytes \<Rightarrow> string \<Rightarrow> unit outcome" where
  "num_bytes_assert_non_zero n parameter_name =
     (if 0 < bytes n then Inr ()
      else Inl (AssertFailed (parameter_name @ '' must be greater than zero bytes'')))"

definition to_bytes :: "usize \<Rightarrow> num_bytes" where
  "to_bytes n = NumBytes n"

definition kilobytes :: "usize \<Rightarrow> num_bytes outcome" where
  "kilobytes n = (case usize_mul n 1024 of Inl e \<Rightarrow> Inl e | Inr k \<Rightarrow> Inr (NumBytes k))"

definition megabytes :: "usize \<Rightarrow> num_bytes outcome" where
  "megabytes n =
     (case usize_mul n 1024 of
        Inl e \<Rightarrow> Inl e
      | Inr k \<Rightarrow> (case usize_mul k 1024 of Inl e \<Rightarrow> Inl e | Inr m \<Rightarrow> Inr (NumBytes m)))"

text \<open>Byte counts are ordered like the numbers they wrap.\<close>

instantiation num_bytes :: linorder
begin
definition "m \<le> n \<longleftrightarrow> bytes m \<le> bytes n" for m n :: num_bytes
definition "m < n \<longleftrightarrow> bytes m < bytes n" for m n :: num_bytes
instance
  by standard (auto simp: less_eq_num_bytes_def less_num_bytes_def num_bytes.expand)
end

lemma kilobytes_bytes:
  "kilobytes n = (if n * 1024 \<le> usize_max then Inr (NumBytes (n * 1024)) else Inl ArithmeticOverflow)"
  by (simp add: kilobytes_def usize_mul_def)

lemma megabytes_bytes:
  "megabytes n =
     (if n * 1024 * 1024 \<le> usize_max then Inr (NumBytes (n * 1024 * 1024)) else Inl ArithmeticOverflow)"
  by (auto simp: megabytes_def usize_mul_def)

section \<open>Line parsing options\<close>

datatype line_overflow_behavior = DropAdditionalData | EmitAdditionalAsNewLines

record line_parsing_options =
  max_line_length :: num_bytes
  overflow_behavior :: line_overflow_behavior
  buffer_compaction_threshold :: "num_bytes option"

definition DEFAULT_MAX_LINE_LENGTH :: num_bytes where
  "DEFAULT_MAX_LINE_LENGTH = NumBytes (16 * 1024)"

definition line_parsing_options_default :: line_parsing_options where
  "line_parsing_options_default =
     \<lparr>max_line_length = DEFAULT_MAX_LINE_LENGTH,
      overflow_behavior = DropAdditionalData,
      buffer_compaction_threshold = None\<rparr>"

definition assert_max_line_length_non_zero :: "line_parsing_options \<Rightarrow> unit outcome" where
  "assert_max_line_length_non_zero options =
     (if 0 < bytes (max_line_length options) then Inr ()
      else Inl (AssertFailed ''LineParsingOptions::max_line_length must be greater than zero.''))"

lemma assert_max_line_length_non_zero_iff:
  "assert_max_line_length_non_zero options = Inr () \<longleftrightarrow> 0 < bytes (max_line_length options)"
  by (simp add: assert_max_line_length_non_zero_def)

section \<open>Delivery and replay policies\<close>

datatype delivery_guarantee = LossyWithoutBackpressure | ReliableWithBackpressure

text \<open>The two delivery marker types, as values.\<close>
datatype delivery = LossyMarker | ReliableMarker

fun guarantee :: "delivery \<Rightarrow> delivery_guarantee" where
  "guarantee LossyMarker = LossyWithoutBackpressure"
| "guarantee ReliableMarker = ReliableWithBackpressure"

datatype replay_retention = LastChunks usize | LastBytes num_bytes | RetainAll

text \<open>The two replay marker types, as values.\<close>
datatype replay = NoReplay | ReplayEnabled replay_retention

fun marker_replay_retention :: "replay \<Rightarrow> replay_retention option" where
  "marker_replay_retention NoReplay = None"
| "marker_replay_retention (ReplayEnabled r) = Some r"

fun marker_replay_enabled :: "replay \<Rightarrow> bool" where
  "marker_replay_enabled NoReplay = False"
| "marker_replay_enabled (ReplayEnabled r) = True"

fun retention_assert_non_zero :: "replay_retention \<Rightarrow> string \<Rightarrow> unit outcome" where
  "retention_assert_non_zero (LastChunks n) parameter_name =
     (if n = 0 then Inl (ExplicitPanic (parameter_name @ '' must retain at least one chunk''))
      else Inr ())"
| "retention_assert_non_zero (LastBytes b) parameter_name =
     (if bytes b = 0 then Inl (ExplicitPanic (parameter_name @ '' must retain at least one byte''))
      else Inr ())"
| "retention_assert_non_zero RetainAll parameter_name = Inr ()"

definition replay_enabled_new :: "replay_retention \<Rightarrow> replay outcome" where
  "replay_enabled_new r =
     (case retention_assert_non_zero r ''replay_retention'' of
        Inl e \<Rightarrow> Inl e | Inr _ \<Rightarrow> Inr (ReplayEnabled r))"

section \<open>Stream configuration\<close>

definition DEFAULT_READ_CHUNK_SIZE :: num_bytes where
  "DEFAULT_READ_CHUNK_SIZE = NumBytes (16 * 1024)"

definition DEFAULT_MAX_BUFFERED_CHUNKS :: usize where
  "DEFAULT_MAX_BUFFERED_CHUNKS = 128"

definition assert_max_buffered_chunks_non_zero :: "usize \<Rightarrow> string \<Rightarrow> unit outcome" where
  "assert_max_buffered_chunks_non_zero chunks parameter_name =
     (if 0 < chunks then Inr ()
      else Inl (AssertFailed (parameter_name @ '' must be greater than zero'')))"

record stream_config =
  read_chunk_size :: num_bytes
  max_buffered_chunks :: usize
  config_delivery :: delivery
  config_replay :: replay

text \<open>The builder stages; each stage holds what the previous ones selected.\<close>

datatype stream_config_replay_builder = StreamConfigReplayBuilder delivery
datatype stream_config_read_chunk_size_builder = StreamConfigReadChunkSizeBuilder delivery replay
datatype stream_config_max_buffered_chunks_builder =
  StreamConfigMaxBufferedChunksBuilder delivery replay num_bytes
datatype stream_config_ready_builder = StreamConfigReadyBuilder stream_config

definition lossy_without_backpressure :: stream_config_replay_builder where
  "lossy_without_backpressure = StreamConfigReplayBuilder LossyMarker"

definition reliable_with_backpressure :: stream_config_replay_builder where
  "reliable_with_backpressure = StreamConfigReplayBuilder ReliableMarker"

fun no_replay :: "stream_config_replay_builder \<Rightarrow> stream_config_read_chunk_size_builder" where
  "no_replay (StreamConfigReplayBuilder d) = StreamConfigReadChunkSizeBuilder d NoReplay"

fun replay_last_chunks ::
  "stream_config_replay_builder \<Rightarrow> usize \<Rightarrow> stream_config_read_chunk_size_builder outcome" where
  "replay_last_chunks (StreamConfigReplayBuilder d) chunks =
     (case retention_assert_non_zero (LastChunks chunks) ''chunks'' of
        Inl e \<Rightarrow> Inl e
      | Inr _ \<Rightarrow> (case replay_enabled_new (LastChunks chunks) of
                    Inl e \<Rightarrow> Inl e
                  | Inr r \<Rightarrow> Inr (StreamConfigReadChunkSizeBuilder d r)))"

fun replay_last_bytes ::
  "stream_config_replay_builder \<Rightarrow> num_bytes \<Rightarrow> stream_config_read_chunk_size_builder outcome" where
  "replay_last_bytes (StreamConfigReplayBuilder d) b =
     (case retention_assert_non_zero (LastBytes b) ''bytes'' of
        Inl e \<Rightarrow> Inl e
      | Inr _ \<Rightarrow> (case replay_enabled_new (LastBytes b) of
                    Inl e \<Rightarrow> Inl e
                  | Inr r \<Rightarrow> Inr (StreamConfigReadChunkSizeBuilder d r)))"

fun replay_all :: "stream_config_replay_builder \<Rightarrow> stream_config_read_chunk_size_builder outcome" where
  "replay_all (StreamConfigReplayBuilder d) =
     (case replay_enabled_new RetainAll of
        Inl e \<Rightarrow> Inl e
      | Inr r \<Rightarrow> Inr (StreamConfigReadChunkSizeBuilder d r))"

fun builder_read_chunk_size ::
  "stream_config_read_chunk_size_builder \<Rightarrow> num_bytes
     \<Rightarrow> stream_config_max_buffered_chunks_builder outcome" where
  "builder_read_chunk_size (StreamConfigReadChunkSizeBuilder d r) sz =
     (case num_bytes_assert_non_zero sz ''read_chunk_size'' of
        Inl e \<Rightarrow> Inl e
      | Inr _ \<Rightarrow> Inr (StreamConfigMaxBufferedChunksBuilder d r sz))"

fun builder_max_buffered_chunks ::
  "stream_config_max_buffered_chunks_builder \<Rightarrow> usize \<Rightarrow> stream_config_ready_builder outcome" where
  "builder_max_buffered_chunks (StreamConfigMaxBufferedChunksBuilder d r sz) chunks =
     (case assert_max_buffered_chunks_non_zero chunks ''max_buffered_chunks'' of
        Inl e \<Rightarrow> Inl e
      | Inr _ \<Rightarrow> Inr (StreamConfigReadyBuilder
                   \<lparr>read_chunk_size = sz, max_buffered_chunks = chunks,
                    config_delivery = d, config_replay = r\<rparr>))"

fun config_build :: "stream_config_ready_builder \<Rightarrow> stream_config" where
  "config_build (StreamConfigReadyBuilder config) = config"

definition config_delivery_guarantee :: "stream_config \<Rightarrow> delivery_guarantee" where
  "config_delivery_guarantee c = guarantee (config_delivery c)"

definition config_replay_retention :: "stream_config \<Rightarrow> replay_retention option" where
  "config_replay_retention c = marker_replay_retention (config_replay c)"

definition config_replay_enabled :: "stream_config \<Rightarrow> bool" where
  "config_replay_enabled c = marker_replay_enabled (config_replay c)"

definition assert_valid :: "stream_config \<Rightarrow> string \<Rightarrow> unit outcome" where
  "assert_valid c parameter_name =
     (case num_bytes_assert_non_zero (read_chunk_size c) (parameter_name @ ''.read_chunk_size'') of
        Inl e \<Rightarrow> Inl e
      | Inr _ \<Rightarrow>
          (case assert_max_buffered_chunks_non_zero (max_buffered_chunks c)
                  (parameter_name @ ''.max_buffered_chunks'') of
             Inl e \<Rightarrow> Inl e
           | Inr _ \<Rightarrow>
               (case config_replay_retention c of
                  None \<Rightarrow> Inr ()
                | Some r \<Rightarrow> retention_assert_non_zero r (parameter_name @ ''.replay_retention''))))"

definition with_replay_retention :: "stream_config \<Rightarrow> replay_retention \<Rightarrow> stream_config outcome" where
  "with_replay_retention c r =
     (case retention_assert_non_zero r ''replay_retention'' of
        Inl e \<Rightarrow> Inl e
      | Inr _ \<Rightarrow> Inr (c\<lparr>config_replay := ReplayEnabled r\<rparr>))"

subsection \<open>What a valid configuration is\<close>

definition retention_ok :: "replay_retention option \<Rightarrow> bool" where
  "retention_ok r \<longleftrightarrow> r \<noteq> Some (LastChunks 0) \<and> (\<forall>b. r = Some (LastBytes b) \<longrightarrow> bytes b \<noteq> 0)"

definition config_ok :: "stream_config \<Rightarrow> bool" where
  "config_ok c \<longleftrightarrow>
     0 < bytes (read_chunk_size c) \<and> 0 < max_buffered_chunks c \<and> retention_ok (config_replay_retention c)"

lemma retention_assert_non_zero_ok:
  "retention_assert_non_zero r pn = Inr u \<longleftrightarrow> retention_ok (Some r)"
  by (cases r) (auto simp: retention_ok_def)

lemma assert_valid_iff: "assert_valid c pn = Inr () \<longleftrightarrow> config_ok c"
  by (auto simp: assert_valid_def config_ok_def num_bytes_assert_non_zero_def
      assert_max_buffered_chunks_non_zero_def retention_assert_non_zero_ok
      split: option.splits) (simp add: retention_ok_def)

lemma with_replay_retention_ok:
  "config_ok c \<Longrightarrow> with_replay_retention c r = Inr c' \<Longrightarrow> config_ok c'"
  by (auto simp: with_replay_retention_def retention_assert_non_zero_ok config_ok_def
      config_replay_retention_def split: sum.splits)

text \<open>Every way through the builder: the replay stage is one of the four selectors.\<close>

datatype replay_choice = ChooseNoReplay | ChooseLastChunks usize | ChooseLastBytes num_bytes | ChooseAll

fun choose_replay ::
  "replay_choice \<Rightarrow> stream_config_replay_builder \<Rightarrow> stream_config_read_chunk_size_builder outcome" where
  "choose_replay ChooseNoReplay b = Inr (no_replay b)"
| "choose_replay (ChooseLastChunks n) b = replay_last_chunks b n"
| "choose_replay (ChooseLastBytes n) b = replay_last_bytes b n"
| "choose_replay ChooseAll b = replay_all b"

definition build_config ::
  "stream_config_replay_builder \<Rightarrow> replay_choice \<Rightarrow> num_bytes \<Rightarrow> usize \<Rightarrow> stream_config outcome" where
  "build_config b rc sz chunks =
     (case choose_replay rc b of Inl e \<Rightarrow> Inl e | Inr b1 \<Rightarrow>
       (case builder_read_chunk_size b1 sz of Inl e \<Rightarrow> Inl e | Inr b2 \<Rightarrow>
         (case builder_max_buffered_chunks b2 chunks of Inl e \<Rightarrow> Inl e | Inr b3 \<Rightarrow>
           Inr (config_build b3))))"

lemma choose_replay_ok:
  assumes "choose_replay rc (StreamConfigReplayBuilder d) = Inr b1"
  shows "\<exists>r. b1 = StreamConfigReadChunkSizeBuilder d r \<and> retention_ok (marker_replay_retention r)"
proof (cases rc)
  case ChooseNoReplay
  with assms show ?thesis by (intro exI [of _ NoReplay]) (simp add: retention_ok_def)
qed (use assms in \<open>auto simp: replay_enabled_new_def retention_ok_def split: sum.splits if_splits\<close>)

lemma build_config_ok:
  "build_config (StreamConfigReplayBuilder d) rc sz chunks = Inr c \<Longrightarrow>
   config_ok c \<and> config_delivery c = d \<and> read_chunk_size c = sz \<and> max_buffered_chunks c = chunks"
  by (auto simp: build_config_def config_ok_def config_replay_retention_def
      num_bytes_assert_non_zero_def assert_max_buffered_chunks_non_zero_def
      dest!: choose_replay_ok split: sum.splits if_splits)

section \<open>Events and read errors\<close>

text \<open>The kinds the library itself creates, and the others by number.\<close>

datatype io_error_kind = TimedOut | OtherError | OtherKind nat

datatype io_error = IoError (io_kind: io_error_kind) (io_message: string)

datatype stream_read_error =
  StreamReadError (read_error_stream_name: string) (source_io_error: io_error)

definition read_error_kind :: "stream_read_error \<Rightarrow> io_error_kind" where
  "read_error_kind e = io_kind (source_io_error e)"

text \<open>Rust's \<open>PartialEq\<close> for the error compares the stream name and the kind only.\<close>

definition read_error_eq :: "stream_read_error \<Rightarrow> stream_read_error \<Rightarrow> bool" where
  "read_error_eq a b \<longleftrightarrow>
     read_error_stream_name a = read_error_stream_name b \<and> read_error_kind a = read_error_kind b"

lemma read_error_eq_equiv: "equivp read_error_eq"
  by (auto intro!: equivpI reflpI sympI transpI simp: read_error_eq_def)

datatype stream_event = Chunk bytes | Gap | Eof | ReadError stream_read_error

text \<open>The pattern \<open>Eof | ReadError(_)\<close> the code matches on in many places.\<close>

fun is_terminal :: "stream_event \<Rightarrow> bool" where
  "is_terminal Eof = True"
| "is_terminal (ReadError _) = True"
| "is_terminal _ = False"

fun is_chunk :: "stream_event \<Rightarrow> bool" where
  "is_chunk (Chunk _) = True"
| "is_chunk _ = False"

fun chunk_len :: "stream_event \<Rightarrow> nat" where
  "chunk_len (Chunk c) = length c"
| "chunk_len _ = 0"

datatype next_t = Continue | Break

end
