(* ===== verification/Line_Parser.thy ===== *)
theory Line_Parser
  imports Utf8 Stream_Types
begin

text \<open>
  The line parser of \<open>src/output_stream/line/parser.rs\<close>.  \<open>next_line\<close> is translated with its loop,
  its scan window, its two buffers and its compaction.  What it takes from other crates is the
  argument \<open>byte_deps\<close>: \<open>memchr\<close> (the first position of a byte) and the capacity a \<open>BytesMut\<close> chooses
  when it grows; \<open>byte_deps_ok\<close> names the documented behaviour relied on.

  A byte-at-a-time automaton (\<open>feed\<close>, \<open>run\<close>) is the reference semantics.  The lemmas show that
  \<open>next_line\<close> simulates it, never panics and keeps the parser well-formed, and that the automaton
  cuts a byte stream into the lines given by \<open>spec_lines\<close>.
\<close>

section \<open>Buffers\<close>

record byte_deps =
  memchr :: "byte \<Rightarrow> bytes \<Rightarrow> nat option"
  grow :: "nat \<Rightarrow> nat \<Rightarrow> nat"

definition byte_deps_ok :: "byte_deps \<Rightarrow> bool" where
  "byte_deps_ok d \<longleftrightarrow>
     (\<forall>b xs i. memchr d b xs = Some i \<longleftrightarrow> i < length xs \<and> xs ! i = b \<and> (\<forall>j<i. xs ! j \<noteq> b)) \<and>
     (\<forall>c n. n \<le> grow d c n)"

record bytes_mut =
  bm_bytes :: bytes
  bm_capacity :: nat

definition bm_new :: bytes_mut where
  "bm_new = \<lparr>bm_bytes = [], bm_capacity = 0\<rparr>"

definition bm_clear :: "bytes_mut \<Rightarrow> bytes_mut" where
  "bm_clear b = b\<lparr>bm_bytes := []\<rparr>"

definition bm_extend_from_slice :: "byte_deps \<Rightarrow> bytes_mut \<Rightarrow> bytes \<Rightarrow> bytes_mut" where
  "bm_extend_from_slice d b xs =
     (let n = length (bm_bytes b) + length xs in
      \<lparr>bm_bytes = bm_bytes b @ xs,
       bm_capacity = (if n \<le> bm_capacity b then bm_capacity b else grow d (bm_capacity b) n)\<rparr>)"

section \<open>The parser\<close>

datatype line_parser_mode = ReadingLine | DiscardUntilNewline | PendingLimitDelimiter

record line_parser =
  line_buffer :: bytes_mut
  emitted :: bytes_mut
  mode :: line_parser_mode

definition decode_line_lossy :: "bytes \<Rightarrow> bytes" where
  "decode_line_lossy bs = from_utf8_lossy bs"

definition line_parser_new :: line_parser where
  "line_parser_new = \<lparr>line_buffer = bm_new, emitted = bm_new, mode = ReadingLine\<rparr>"

definition parser_on_gap :: "line_parser \<Rightarrow> line_parser" where
  "parser_on_gap p = p\<lparr>line_buffer := bm_clear (line_buffer p), mode := DiscardUntilNewline\<rparr>"

definition emit_buffered_line :: "line_parser \<Rightarrow> bytes \<times> line_parser" where
  "emit_buffered_line p =
     (let p' = p\<lparr>line_buffer := bm_clear (emitted p), emitted := line_buffer p\<rparr>
      in (decode_line_lossy (bm_bytes (emitted p')), p'))"

definition compact_if_needed :: "line_parser \<Rightarrow> num_bytes option \<Rightarrow> line_parser" where
  "compact_if_needed p threshold =
     (case threshold of
        None \<Rightarrow> p
      | Some t \<Rightarrow>
          let p1 = (if bm_bytes (line_buffer p) = [] \<and> bytes t < bm_capacity (line_buffer p)
                    then p\<lparr>line_buffer := bm_new\<rparr> else p)
          in if bytes t < bm_capacity (emitted p1) then p1\<lparr>emitted := bm_new\<rparr> else p1)"

text \<open>The body of the loop once the mode allows reading: it either emits a line, leaving the rest of
  the chunk, or buffers bytes and goes round the loop again.\<close>

datatype segment = Emit bytes bytes line_parser | More bytes line_parser

definition read_segment ::
  "byte_deps \<Rightarrow> line_parsing_options \<Rightarrow> line_parser \<Rightarrow> bytes \<Rightarrow> segment outcome" where
  "read_segment d options p chunk =
     (let max_len = bytes (max_line_length options);
          buffered = length (bm_bytes (line_buffer p))
      in
      if max_len \<noteq> 0 \<and> buffered = max_len then
        (let p1 = p\<lparr>mode := (case overflow_behavior options of
                       DropAdditionalData \<Rightarrow> DiscardUntilNewline
                     | EmitAdditionalAsNewLines \<Rightarrow> PendingLimitDelimiter)\<rparr>;
             (line, p2) = emit_buffered_line p1
         in Inr (Emit line chunk p2))
      else
        (case (if max_len = 0 then Inr (length chunk) else usize_sub max_len buffered) of
           Inl e \<Rightarrow> Inl e
         | Inr remaining_line_length \<Rightarrow>
             (let scan_len = min remaining_line_length (length chunk);
                  scan = take scan_len chunk
              in case memchr d newline scan of
                   Some pos \<Rightarrow>
                     if bm_bytes (line_buffer p) = [] then
                       Inr (Emit (decode_line_lossy (take pos scan)) (drop (pos + 1) chunk) p)
                     else
                       (let p1 = p\<lparr>line_buffer := bm_extend_from_slice d (line_buffer p) (take pos scan)\<rparr>;
                            (line, p2) = emit_buffered_line p1
                        in Inr (Emit line (drop (pos + 1) chunk) p2))
                 | None \<Rightarrow>
                     (let p1 = p\<lparr>line_buffer := bm_extend_from_slice d (line_buffer p) scan\<rparr>;
                          rest = drop scan_len chunk
                      in if max_len \<noteq> 0 \<and> length (bm_bytes (line_buffer p1)) = max_len
                            \<and> overflow_behavior options = EmitAdditionalAsNewLines
                         then (let (line, p2) = emit_buffered_line (p1\<lparr>mode := PendingLimitDelimiter\<rparr>)
                               in Inr (Emit line rest p2))
                         else Inr (More rest p1)))))"

lemma read_segment_shrinks:
  "read_segment d options p chunk = Inr (More rest p') \<Longrightarrow> chunk \<noteq> [] \<Longrightarrow> length rest < length chunk"
  by (auto simp: read_segment_def Let_def usize_sub_def split: if_splits option.splits prod.splits)

function next_line_loop ::
  "byte_deps \<Rightarrow> line_parsing_options \<Rightarrow> line_parser \<Rightarrow> bytes
     \<Rightarrow> (bytes option \<times> bytes \<times> line_parser) outcome" where
  "next_line_loop d options p chunk =
     (if chunk = [] then Inr (None, [], p)
      else
        (case mode p of
           DiscardUntilNewline \<Rightarrow>
             (case memchr d newline chunk of
                Some pos \<Rightarrow> next_line_loop d options (p\<lparr>mode := ReadingLine\<rparr>) (drop (pos + 1) chunk)
              | None \<Rightarrow> Inr (None, [], p))
         | PendingLimitDelimiter \<Rightarrow>
             if hd chunk = newline
             then next_line_loop d options (p\<lparr>mode := ReadingLine\<rparr>) (drop 1 chunk)
             else (case read_segment d options (p\<lparr>mode := ReadingLine\<rparr>) chunk of
                     Inl e \<Rightarrow> Inl e
                   | Inr (Emit line rest p') \<Rightarrow> Inr (Some line, rest, p')
                   | Inr (More rest p') \<Rightarrow> next_line_loop d options p' rest)
         | ReadingLine \<Rightarrow>
             (case read_segment d options p chunk of
                Inl e \<Rightarrow> Inl e
              | Inr (Emit line rest p') \<Rightarrow> Inr (Some line, rest, p')
              | Inr (More rest p') \<Rightarrow> next_line_loop d options p' rest)))"
  by pat_completeness auto
termination
  by (relation "measure (\<lambda>(d, options, p, chunk). length chunk)")
    (auto dest: read_segment_shrinks)

declare next_line_loop.simps [simp del]

definition next_line ::
  "byte_deps \<Rightarrow> line_parsing_options \<Rightarrow> line_parser \<Rightarrow> bytes
     \<Rightarrow> (bytes option \<times> bytes \<times> line_parser) outcome" where
  "next_line d options p chunk =
     next_line_loop d options (compact_if_needed p (buffer_compaction_threshold options)) chunk"

definition finish :: "line_parser \<Rightarrow> bytes option \<times> line_parser" where
  "finish p =
     (if mode p = DiscardUntilNewline \<or> bm_bytes (line_buffer p) = [] then (None, p)
      else (let (line, p') = emit_buffered_line p in (Some line, p')))"

section \<open>The reference automaton\<close>

type_synonym lstate = "line_parser_mode \<times> bytes"

abbreviation limit :: "line_parsing_options \<Rightarrow> nat" where
  "limit options \<equiv> bytes (max_line_length options)"

definition after_limit :: "line_parsing_options \<Rightarrow> line_parser_mode" where
  "after_limit options =
     (case overflow_behavior options of
        DropAdditionalData \<Rightarrow> DiscardUntilNewline
      | EmitAdditionalAsNewLines \<Rightarrow> PendingLimitDelimiter)"

text \<open>Appending one byte to the current line, emitting it when it is complete.\<close>

definition push_byte :: "line_parsing_options \<Rightarrow> bytes \<Rightarrow> byte \<Rightarrow> bytes list \<times> lstate" where
  "push_byte options buf x =
     (if x = newline then ([buf], (ReadingLine, []))
      else if limit options \<noteq> 0 \<and> Suc (length buf) = limit options
              \<and> overflow_behavior options = EmitAdditionalAsNewLines
           then ([buf @ [x]], (PendingLimitDelimiter, []))
      else ([], (ReadingLine, buf @ [x])))"

fun feed_resync :: "line_parsing_options \<Rightarrow> lstate \<Rightarrow> byte \<Rightarrow> bytes list \<times> lstate" where
  "feed_resync options (DiscardUntilNewline, buf) x =
     ([], (if x = newline then ReadingLine else DiscardUntilNewline, buf))"
| "feed_resync options (m, buf) x =
     (if x = newline then ([], (ReadingLine, buf)) else push_byte options buf x)"

definition feed :: "line_parsing_options \<Rightarrow> lstate \<Rightarrow> byte \<Rightarrow> bytes list \<times> lstate" where
  "feed options s x =
     (case s of (m, buf) \<Rightarrow>
        if m \<noteq> ReadingLine then feed_resync options s x
        else if limit options \<noteq> 0 \<and> length buf = limit options
        then (case feed_resync options (after_limit options, []) x of (ls, s') \<Rightarrow> (buf # ls, s'))
        else push_byte options buf x)"

fun run :: "line_parsing_options \<Rightarrow> lstate \<Rightarrow> bytes \<Rightarrow> bytes list \<times> lstate" where
  "run options s [] = ([], s)"
| "run options s (x # xs) =
     (case feed options s x of (ls, s1) \<Rightarrow>
        (case run options s1 xs of (ls', s2) \<Rightarrow> (ls @ ls', s2)))"

definition flush :: "lstate \<Rightarrow> bytes list" where
  "flush s = (if fst s = DiscardUntilNewline \<or> snd s = [] then [] else [snd s])"

text \<open>All lines of a complete byte stream, before decoding.\<close>

definition run_lines :: "line_parsing_options \<Rightarrow> bytes \<Rightarrow> bytes list" where
  "run_lines options xs =
     (case run options (ReadingLine, []) xs of (ls, s) \<Rightarrow> ls @ flush s)"

definition prepend :: "bytes list \<Rightarrow> bytes list \<times> lstate \<Rightarrow> bytes list \<times> lstate" where
  "prepend ls r = (ls @ fst r, snd r)"

lemma prepend_simps [simp]:
  "prepend [] r = r" "prepend ls (prepend ls' r) = prepend (ls @ ls') r"
  "fst (prepend ls r) = ls @ fst r" "snd (prepend ls r) = snd r"
  by (simp_all add: prepend_def)

lemma run_Cons: "run options s (x # xs) = prepend (fst (feed options s x)) (run options (snd (feed options s x)) xs)"
  by (simp add: prepend_def split: prod.split)

declare run.simps(2) [simp del]

lemma run_append: "run options s (xs @ ys) = prepend (fst (run options s xs)) (run options (snd (run options s xs)) ys)"
  by (induction xs arbitrary: s) (simp_all add: run_Cons)

subsection \<open>Well-formed states\<close>

definition lstate_ok :: "line_parsing_options \<Rightarrow> lstate \<Rightarrow> bool" where
  "lstate_ok options s \<longleftrightarrow>
     newline \<notin> set (snd s) \<and>
     (fst s \<noteq> ReadingLine \<longrightarrow> snd s = []) \<and>
     (limit options \<noteq> 0 \<longrightarrow> length (snd s) \<le> limit options \<and>
        (overflow_behavior options = EmitAdditionalAsNewLines \<longrightarrow> length (snd s) < limit options))"

text \<open>What every emitted line satisfies before decoding.\<close>

definition line_ok :: "line_parsing_options \<Rightarrow> bytes \<Rightarrow> bool" where
  "line_ok options l \<longleftrightarrow>
     newline \<notin> set l \<and> (limit options \<noteq> 0 \<longrightarrow> length l \<le> limit options)"

text \<open>A number of bytes that can stay buffered without completing a line.\<close>

definition fits :: "line_parsing_options \<Rightarrow> nat \<Rightarrow> bool" where
  "fits options n \<longleftrightarrow> limit options = 0 \<or> n < limit options \<or>
     (n \<le> limit options \<and> overflow_behavior options = DropAdditionalData)"

lemma lstate_ok_Nil [simp]: "lstate_ok options (m, [])"
  by (simp add: lstate_ok_def)

lemma lstate_ok_Reading:
  "lstate_ok options (ReadingLine, b) \<longleftrightarrow> newline \<notin> set b \<and> fits options (length b)"
  by (cases "overflow_behavior options") (auto simp: lstate_ok_def fits_def)

lemma feed_lines:
  assumes "lstate_ok options s"
  shows "lstate_ok options (snd (feed options s x))"
    and "l \<in> set (fst (feed options s x)) \<Longrightarrow> line_ok options l"
proof -
  obtain m b where s: "s = (m, b)" by (cases s)
  show "lstate_ok options (snd (feed options s x))"
    using assms unfolding s
    by (cases m; cases "overflow_behavior options")
      (auto simp: feed_def push_byte_def lstate_ok_def after_limit_def)
  show "l \<in> set (fst (feed options s x)) \<Longrightarrow> line_ok options l"
    using assms unfolding s
    by (cases m; cases "overflow_behavior options")
      (auto simp: feed_def push_byte_def lstate_ok_def line_ok_def after_limit_def split: if_splits)
qed

lemma run_lstate_ok:
  "lstate_ok options s \<Longrightarrow> lstate_ok options (snd (run options s xs))"
  by (induction xs arbitrary: s) (simp_all add: run_Cons feed_lines(1))

lemma run_line_ok:
  "lstate_ok options s \<Longrightarrow> l \<in> set (fst (run options s xs)) \<Longrightarrow> line_ok options l"
proof (induction xs arbitrary: s)
  case (Cons x xs)
  then show ?case
    using Cons.IH [of "snd (feed options s x)"] feed_lines [of options s] by (auto simp: run_Cons)
qed simp

subsection \<open>Runs over segments\<close>

lemma run_clean:
  assumes "newline \<notin> set xs" and "fits options (length b + length xs)"
  shows "run options (ReadingLine, b) xs = ([], (ReadingLine, b @ xs))"
  using assms
proof (induction xs arbitrary: b)
  case (Cons x xs)
  then have "feed options (ReadingLine, b) x = ([], (ReadingLine, b @ [x]))"
    by (auto simp: feed_def push_byte_def fits_def)
  moreover have "run options (ReadingLine, b @ [x]) xs = ([], (ReadingLine, b @ x # xs))"
    using Cons.IH [of "b @ [x]"] Cons.prems by simp
  ultimately show ?case by (simp add: run_Cons)
qed simp

lemma run_line:
  assumes "newline \<notin> set xs" and "fits options (length b + length xs)"
    and "limit options \<noteq> 0 \<Longrightarrow> length b + length xs < limit options"
  shows "run options (ReadingLine, b) (xs @ newline # ys) = prepend [b @ xs] (run options (ReadingLine, []) ys)"
  using assms by (auto simp: run_append run_clean run_Cons feed_def push_byte_def)

lemma run_fill:
  assumes "newline \<notin> set xs" and "xs \<noteq> []" and "limit options \<noteq> 0" and "length b + length xs = limit options"
    and "overflow_behavior options = EmitAdditionalAsNewLines"
  shows "run options (ReadingLine, b) (xs @ ys) = prepend [b @ xs] (run options (PendingLimitDelimiter, []) ys)"
proof -
  obtain zs z where xs: "xs = zs @ [z]" using assms(2) by (cases xs rule: rev_cases) auto
  have "run options (ReadingLine, b) zs = ([], (ReadingLine, b @ zs))"
    using assms by (intro run_clean) (auto simp: xs fits_def)
  moreover have "feed options (ReadingLine, b @ zs) z = ([b @ xs], (PendingLimitDelimiter, []))"
    using assms by (auto simp: xs feed_def push_byte_def)
  ultimately show ?thesis by (simp add: xs run_append run_Cons)
qed

lemma run_full:
  assumes "limit options \<noteq> 0" and "length b = limit options" and "ys \<noteq> []"
  shows "run options (ReadingLine, b) ys = prepend [b] (run options (after_limit options, []) ys)"
proof -
  have "after_limit options \<noteq> ReadingLine"
    by (simp add: after_limit_def split: line_overflow_behavior.split)
  then show ?thesis
    using assms by (cases ys) (auto simp: run_Cons feed_def prepend_def split: prod.split)
qed

lemma run_discard:
  "newline \<notin> set xs \<Longrightarrow> run options (DiscardUntilNewline, b) xs = ([], (DiscardUntilNewline, b))"
  by (induction xs) (auto simp: run_Cons feed_def)

lemma run_discard_line:
  "newline \<notin> set xs \<Longrightarrow>
   run options (DiscardUntilNewline, b) (xs @ newline # ys) = run options (ReadingLine, b) ys"
  by (simp add: run_append run_discard run_Cons feed_def)

lemma run_pending:
  "run options (PendingLimitDelimiter, []) (newline # ys) = run options (ReadingLine, []) ys"
  "x \<noteq> newline \<Longrightarrow>
     run options (PendingLimitDelimiter, []) (x # ys) = run options (ReadingLine, []) (x # ys)"
  by (auto simp: run_Cons feed_def)

section \<open>The parser simulates the automaton\<close>

abbreviation lstate :: "line_parser \<Rightarrow> lstate" where
  "lstate p \<equiv> (mode p, bm_bytes (line_buffer p))"

abbreviation parser_ok :: "line_parsing_options \<Rightarrow> line_parser \<Rightarrow> bool" where
  "parser_ok options p \<equiv> lstate_ok options (lstate p)"

lemma bm_simps [simp]:
  "bm_bytes (bm_clear b) = []" "bm_bytes bm_new = []"
  "bm_bytes (bm_extend_from_slice d b xs) = bm_bytes b @ xs"
  by (simp_all add: bm_clear_def bm_new_def bm_extend_from_slice_def Let_def)

lemma emit_buffered_line_simps [simp]:
  "fst (emit_buffered_line p) = decode_line_lossy (bm_bytes (line_buffer p))"
  "mode (snd (emit_buffered_line p)) = mode p"
  "bm_bytes (line_buffer (snd (emit_buffered_line p))) = []"
  by (simp_all add: emit_buffered_line_def Let_def)

lemma compact_if_needed_lstate [simp]: "lstate (compact_if_needed p t) = lstate p"
  by (auto simp: compact_if_needed_def Let_def split: option.split)

lemma take_min: "take (min n (length xs)) xs = take n xs"
  by (simp add: min_def)

lemma memchr_Some:
  assumes "byte_deps_ok d" and "memchr d b xs = Some i"
  shows "i < length xs" and "xs = take i xs @ b # drop (Suc i) xs" and "b \<notin> set (take i xs)"
proof -
  from assms have "i < length xs \<and> xs ! i = b \<and> (\<forall>j<i. xs ! j \<noteq> b)"
    by (simp add: byte_deps_ok_def)
  then show "i < length xs" "xs = take i xs @ b # drop (Suc i) xs" "b \<notin> set (take i xs)"
    using split_at_first [of i xs b] by auto
qed

lemma memchr_None:
  assumes "byte_deps_ok d" and "memchr d b xs = None"
  shows "b \<notin> set xs"
proof
  assume "b \<in> set xs"
  then obtain ys zs where xs: "xs = ys @ b # zs" and ys: "b \<notin> set ys"
    by (meson split_list_first)
  have "memchr d b xs = Some (length ys)"
    using assms(1) xs ys by (auto simp: byte_deps_ok_def nth_append in_set_conv_nth)
  with assms(2) show False by simp
qed

text \<open>What one round of the loop does, stated on the automaton's state.\<close>

definition segment_sim :: "line_parsing_options \<Rightarrow> line_parser \<Rightarrow> bytes \<Rightarrow> segment \<Rightarrow> bool" where
  "segment_sim options p chunk seg =
     (case seg of
        Emit l rest p' \<Rightarrow>
          parser_ok options p' \<and> bm_bytes (line_buffer p') = [] \<and>
          (\<exists>raw. l = decode_line_lossy raw \<and>
             run options (lstate p) chunk = prepend [raw] (run options (lstate p') rest))
      | More rest p' \<Rightarrow>
          parser_ok options p' \<and> mode p' = ReadingLine \<and>
          run options (lstate p) chunk = run options (lstate p') rest)"

lemma read_segment_full:
  assumes "mode p = ReadingLine" and "chunk \<noteq> []"
    and "limit options \<noteq> 0" and "length (bm_bytes (line_buffer p)) = limit options"
  shows "\<exists>seg. read_segment d options p chunk = Inr seg \<and> segment_sim options p chunk seg"
proof -
  let ?p1 = "p\<lparr>mode := after_limit options\<rparr>"
  have "read_segment d options p chunk =
        Inr (Emit (fst (emit_buffered_line ?p1)) chunk (snd (emit_buffered_line ?p1)))"
    using assms by (simp add: read_segment_def after_limit_def Let_def case_prod_beta)
  moreover have "segment_sim options p chunk
        (Emit (fst (emit_buffered_line ?p1)) chunk (snd (emit_buffered_line ?p1)))"
    using assms run_full [of options "bm_bytes (line_buffer p)" chunk]
    by (auto simp: segment_sim_def)
  ultimately show ?thesis by blast
qed

lemma read_segment_newline:
  assumes d: "byte_deps_ok d" and p: "parser_ok options p" "mode p = ReadingLine"
    and nf: "\<not> (limit options \<noteq> 0 \<and> length (bm_bytes (line_buffer p)) = limit options)"
    and scan: "scan = take (if limit options = 0 then length chunk
                            else limit options - length (bm_bytes (line_buffer p))) chunk"
    and pos: "memchr d newline scan = Some pos"
  shows "\<exists>seg. read_segment d options p chunk = Inr seg \<and> segment_sim options p chunk seg"
proof -
  let ?b = "bm_bytes (line_buffer p)" and ?xs = "take pos scan"
  have "scan = ?xs @ newline # drop (Suc pos) scan" "newline \<notin> set ?xs" "pos < length scan"
    using memchr_Some [OF d pos] by auto
  then have chunk: "chunk = ?xs @ newline # drop (Suc pos) chunk"
  proof -
    have "pos < length chunk" "chunk ! pos = newline" "?xs = take pos chunk"
      using \<open>pos < length scan\<close> d pos by (auto simp: scan byte_deps_ok_def)
    then show ?thesis using id_take_nth_drop [of pos chunk] by simp
  qed
  have bound: "limit options \<noteq> 0 \<Longrightarrow> length ?b + length ?xs < limit options"
    using \<open>pos < length scan\<close> p(1) nf by (auto simp: scan lstate_ok_def)
  then have fits: "fits options (length ?b + length ?xs)"
    by (auto simp: fits_def)
  have run: "run options (lstate p) chunk = prepend [?b @ ?xs] (run options (ReadingLine, []) (drop (Suc pos) chunk))"
    using run_line [OF \<open>newline \<notin> set ?xs\<close> fits bound, of "drop (Suc pos) chunk"] chunk p(2) by simp
  have rem: "(if limit options = 0 then Inr (length chunk) else usize_sub (limit options) (length ?b)) =
     (Inr (if limit options = 0 then length chunk else limit options - length ?b) :: nat outcome)"
    using p(1) by (auto simp: lstate_ok_def)
  let ?p1 = "p\<lparr>line_buffer := bm_extend_from_slice d (line_buffer p) ?xs\<rparr>"
  have "read_segment d options p chunk = Inr
     (if ?b = [] then Emit (decode_line_lossy ?xs) (drop (Suc pos) chunk) p
      else Emit (fst (emit_buffered_line ?p1)) (drop (Suc pos) chunk) (snd (emit_buffered_line ?p1)))"
    using nf pos unfolding read_segment_def Let_def rem scan by (auto simp: case_prod_beta take_min)
  then show ?thesis
    using run p by (auto simp: segment_sim_def)
qed

lemma read_segment_no_newline:
  assumes d: "byte_deps_ok d" and p: "parser_ok options p" "mode p = ReadingLine" "chunk \<noteq> []"
    and nf: "\<not> (limit options \<noteq> 0 \<and> length (bm_bytes (line_buffer p)) = limit options)"
    and n: "n = min (if limit options = 0 then length chunk
                     else limit options - length (bm_bytes (line_buffer p))) (length chunk)"
    and none: "memchr d newline (take n chunk) = None"
  shows "\<exists>seg. read_segment d options p chunk = Inr seg \<and> segment_sim options p chunk seg"
proof -
  let ?b = "bm_bytes (line_buffer p)" and ?xs = "take n chunk"
  let ?p1 = "p\<lparr>line_buffer := bm_extend_from_slice d (line_buffer p) ?xs\<rparr>"
  let ?p2 = "emit_buffered_line (?p1\<lparr>mode := PendingLimitDelimiter\<rparr>)"
  let ?fill = "limit options \<noteq> 0 \<and> length (?b @ ?xs) = limit options
                 \<and> overflow_behavior options = EmitAdditionalAsNewLines"
  have nl: "newline \<notin> set ?xs" using memchr_None [OF d none] .
  have rem: "(if limit options = 0 then Inr (length chunk) else usize_sub (limit options) (length ?b)) =
     (Inr (if limit options = 0 then length chunk else limit options - length ?b) :: nat outcome)"
    using p(1) by (auto simp: lstate_ok_def)
  have "?xs \<noteq> []" using p nf by (auto simp: n lstate_ok_def)
  have le: "limit options \<noteq> 0 \<Longrightarrow> length (?b @ ?xs) \<le> limit options"
    using p(1) by (auto simp: n lstate_ok_def)
  have eq: "read_segment d options p chunk = Inr
     (if ?fill then Emit (fst ?p2) (drop n chunk) (snd ?p2) else More (drop n chunk) ?p1)"
    by (simp only: read_segment_def Let_def nf rem if_False sum.case n [symmetric] none option.case)
      (simp add: case_prod_beta)
  show ?thesis
  proof (cases ?fill)
    case True
    then have "run options (lstate p) chunk = prepend [?b @ ?xs] (run options (PendingLimitDelimiter, []) (drop n chunk))"
      using run_fill [OF nl \<open>?xs \<noteq> []\<close>, of options ?b "drop n chunk"] p(2) by simp
    then show ?thesis using True eq by (auto simp: segment_sim_def)
  next
    case False
    then have "fits options (length (?b @ ?xs))"
      using le by (cases "overflow_behavior options"; cases "limit options = 0") (auto simp: fits_def)
    moreover from this have "run options (lstate p) (?xs @ drop n chunk) = run options (ReadingLine, ?b @ ?xs) (drop n chunk)"
      using p(2) nl run_clean [OF nl, of options ?b] by (simp only: run_append) simp
    ultimately show ?thesis
      using False eq nl p by (auto simp: segment_sim_def lstate_ok_Reading)
  qed
qed

lemma read_segment_sim:
  assumes "byte_deps_ok d" and "parser_ok options p" and "mode p = ReadingLine" and "chunk \<noteq> []"
  shows "\<exists>seg. read_segment d options p chunk = Inr seg \<and> segment_sim options p chunk seg"
proof -
  let ?n = "min (if limit options = 0 then length chunk
                 else limit options - length (bm_bytes (line_buffer p))) (length chunk)"
  consider (full) "limit options \<noteq> 0 \<and> length (bm_bytes (line_buffer p)) = limit options"
    | (none) "\<not> (limit options \<noteq> 0 \<and> length (bm_bytes (line_buffer p)) = limit options)"
        "memchr d newline (take ?n chunk) = None"
    | (some) pos where "\<not> (limit options \<noteq> 0 \<and> length (bm_bytes (line_buffer p)) = limit options)"
        "memchr d newline (take ?n chunk) = Some pos"
    by fastforce
  then show ?thesis
  proof cases
    case full
    then show ?thesis using read_segment_full assms by blast
  next
    case none
    then show ?thesis using read_segment_no_newline [OF assms _ refl] by blast
  next
    case some
    have "take ?n chunk = take (if limit options = 0 then length chunk
                            else limit options - length (bm_bytes (line_buffer p))) chunk"
      by (simp only: take_min)
    then show ?thesis using read_segment_newline [OF assms(1,2,3) some(1) refl] some(2) by metis
  qed
qed

text \<open>What a call of \<open>next_line\<close> does: it is total, keeps the parser well-formed, and consumes
  exactly the bytes up to the first line the automaton emits.\<close>

definition next_line_sim ::
  "line_parsing_options \<Rightarrow> line_parser \<Rightarrow> bytes \<Rightarrow> bytes option \<times> bytes \<times> line_parser \<Rightarrow> bool" where
  "next_line_sim options p chunk r =
     (case r of (l, rest, p') \<Rightarrow>
        parser_ok options p' \<and>
        (case l of
           None \<Rightarrow> rest = [] \<and> run options (lstate p) chunk = ([], lstate p')
         | Some line \<Rightarrow> bm_bytes (line_buffer p') = [] \<and>
             (\<exists>raw. line = decode_line_lossy raw \<and>
                run options (lstate p) chunk = prepend [raw] (run options (lstate p') rest))))"

lemma next_line_sim_cong:
  "next_line_sim options p' rest r \<Longrightarrow>
   run options (lstate p) chunk = run options (lstate p') rest \<Longrightarrow> next_line_sim options p chunk r"
  unfolding next_line_sim_def by (simp only:)

lemma parser_ok_reading:
  "parser_ok options p \<Longrightarrow> parser_ok options (p\<lparr>mode := ReadingLine\<rparr>)"
  by (auto simp: lstate_ok_def)

lemma read_step_sim:
  assumes "byte_deps_ok d" and "parser_ok options p" and "mode p = ReadingLine" and "chunk \<noteq> []"
    and IH: "\<And>rest p'. read_segment d options p chunk = Inr (More rest p') \<Longrightarrow> parser_ok options p' \<Longrightarrow>
               \<exists>r. next_line_loop d options p' rest = Inr r \<and> next_line_sim options p' rest r"
  shows "\<exists>r. (case read_segment d options p chunk of
                Inl e \<Rightarrow> Inl e
              | Inr (Emit line rest p') \<Rightarrow> Inr (Some line, rest, p')
              | Inr (More rest p') \<Rightarrow> next_line_loop d options p' rest) = Inr r
             \<and> next_line_sim options p chunk r"
proof -
  obtain seg where seg: "read_segment d options p chunk = Inr seg" "segment_sim options p chunk seg"
    using read_segment_sim [OF assms(1-4)] by blast
  show ?thesis
  proof (cases seg)
    case (Emit l rest p')
    then show ?thesis using seg by (auto simp: segment_sim_def next_line_sim_def)
  next
    case (More rest p')
    then obtain r where "next_line_loop d options p' rest = Inr r" "next_line_sim options p' rest r"
      using IH [of rest p'] seg by (auto simp: segment_sim_def)
    then show ?thesis
      using More seg next_line_sim_cong [of options p' rest r p chunk] by (simp add: segment_sim_def)
  qed
qed

text \<open>Leaving a skipping mode is a step of the specification that emits nothing.\<close>

lemma run_leave_discard:
  assumes "byte_deps_ok d" and "mode p = DiscardUntilNewline" and "memchr d newline chunk = Some pos"
  shows "run options (lstate p) chunk = run options (lstate (p\<lparr>mode := ReadingLine\<rparr>)) (drop (pos + 1) chunk)"
  using run_discard_line [OF memchr_Some(3) [OF assms(1,3)]] memchr_Some(2) [OF assms(1,3)]
  by (simp add: assms(2)) metis

lemma run_leave_pending:
  assumes "parser_ok options p" and "mode p = PendingLimitDelimiter" and "chunk \<noteq> []"
  shows "run options (lstate p) chunk
    = run options (lstate (p\<lparr>mode := ReadingLine\<rparr>)) (if hd chunk = newline then drop 1 chunk else chunk)"
proof -
  have "bm_bytes (line_buffer p) = []" using assms(1,2) by (simp add: lstate_ok_def)
  moreover obtain x xs where "chunk = x # xs" using assms(3) by (cases chunk) auto
  ultimately show ?thesis using assms(2) by (simp add: run_pending)
qed

lemma next_line_loop_sim:
  assumes "byte_deps_ok d" and "parser_ok options p"
  shows "\<exists>r. next_line_loop d options p chunk = Inr r \<and> next_line_sim options p chunk r"
  using assms
proof (induction d options p chunk rule: next_line_loop.induct)
  case (1 d options p chunk)
  note d = "1.prems"(1) and ok = "1.prems"(2)
  let ?p = "p\<lparr>mode := ReadingLine\<rparr>"
  note ok' = parser_ok_reading [OF ok] and cong = next_line_sim_cong [of options ?p _ _ p chunk]
  show ?case
  proof (cases "chunk = []")
    case True
    then show ?thesis using ok by (simp add: next_line_loop.simps next_line_sim_def)
  next
    case ne: False
    show ?thesis
    proof (cases "mode p")
      case ReadingLine
      from read_step_sim [OF d ok ReadingLine ne "1.IH"(1) [OF ne ReadingLine _ refl d]] show ?thesis
        using ne ReadingLine by (subst next_line_loop.simps) simp
    next
      case DiscardUntilNewline
      show ?thesis
      proof (cases "memchr d newline chunk")
        case None
        with d have "newline \<notin> set chunk" by (rule memchr_None)
        with None ne DiscardUntilNewline ok show ?thesis
          by (subst next_line_loop.simps) (simp add: next_line_sim_def run_discard)
      next
        case (Some pos)
        then show ?thesis
          using "1.IH"(2) [OF ne DiscardUntilNewline Some d ok'] run_leave_discard [OF d DiscardUntilNewline Some]
            cong ne DiscardUntilNewline
          by (subst next_line_loop.simps) fastforce
      qed
    next
      case PendingLimitDelimiter
      note leave = run_leave_pending [OF ok PendingLimitDelimiter ne]
      show ?thesis
      proof (cases "hd chunk = newline")
        case True
        then show ?thesis
          using "1.IH"(3) [OF ne PendingLimitDelimiter True d ok'] leave cong ne PendingLimitDelimiter
          by (subst next_line_loop.simps) fastforce
      next
        case False
        note step = read_step_sim [OF d ok' _ ne "1.IH"(4) [OF ne PendingLimitDelimiter False _ refl d]]
        show ?thesis
          using step leave ne PendingLimitDelimiter False cong by (subst next_line_loop.simps) fastforce
      qed
    qed
  qed
qed

lemma next_line_sim:
  assumes "byte_deps_ok d" and "parser_ok options p"
  shows "\<exists>r. next_line d options p chunk = Inr r \<and> next_line_sim options p chunk r"
proof -
  let ?p = "compact_if_needed p (buffer_compaction_threshold options)"
  have "parser_ok options ?p"
    using assms(2) by (simp only: compact_if_needed_lstate)
  with assms(1) obtain r where "next_line_loop d options ?p chunk = Inr r" "next_line_sim options ?p chunk r"
    using next_line_loop_sim by blast
  then show ?thesis
    unfolding next_line_def using next_line_sim_cong [of options ?p chunk r p chunk]
    by (simp only: compact_if_needed_lstate) blast
qed

section \<open>Driving the parser\<close>

text \<open>The loop every client runs on a chunk: \<open>while let Some(line) = parser.next_line(..)\<close>.  A line
  either consumes bytes or empties the buffer, so the loop ends whatever \<open>memchr\<close> does.\<close>

definition drain_measure :: "line_parser \<Rightarrow> bytes \<Rightarrow> nat" where
  "drain_measure p chunk = 2 * length chunk + (if bm_bytes (line_buffer p) = [] then 0 else 1)"

lemma read_segment_measure:
  assumes "read_segment d options p chunk = Inr (Emit l rest p')" and "chunk \<noteq> []"
  shows "drain_measure p' rest < drain_measure p chunk"
proof -
  have "(rest = chunk \<and> bm_bytes (line_buffer p) \<noteq> [] \<and> bm_bytes (line_buffer p') = []) \<or> length rest < length chunk"
    using assms
    by (auto simp: read_segment_def Let_def usize_sub_def case_prod_beta
        split: if_splits option.splits)
  then show ?thesis by (auto simp: drain_measure_def)
qed

lemma drain_measure_shorter: "length ys < length chunk \<Longrightarrow> drain_measure q ys \<le> drain_measure p chunk"
  by (auto simp: drain_measure_def)

lemma drain_measure_mode [simp]: "drain_measure (p\<lparr>mode := m\<rparr>) ys = drain_measure p ys"
  by (simp add: drain_measure_def)

lemma read_step_measure:
  assumes "(case read_segment d options p chunk of Inl e \<Rightarrow> Inl e
            | Inr (Emit line rest p') \<Rightarrow> Inr (Some line, rest, p')
            | Inr (More rest p') \<Rightarrow> next_line_loop d options p' rest) = Inr (Some l, rest, p')"
    and "chunk \<noteq> []"
    and IH: "\<And>ys q. read_segment d options p chunk = Inr (More ys q) \<Longrightarrow>
           next_line_loop d options q ys = Inr (Some l, rest, p') \<Longrightarrow> drain_measure p' rest < drain_measure q ys"
  shows "drain_measure p' rest < drain_measure p chunk"
proof -
  from assms(1) consider "read_segment d options p chunk = Inr (Emit l rest p')"
    | ys q where "read_segment d options p chunk = Inr (More ys q)" "next_line_loop d options q ys = Inr (Some l, rest, p')"
    by (auto split: sum.splits segment.splits)
  then show ?thesis
  proof cases
    case 1
    then show ?thesis using assms(2) by (rule read_segment_measure)
  next
    case 2
    then show ?thesis
      using IH [OF 2] drain_measure_shorter [OF read_segment_shrinks [OF 2(1) assms(2)]] by (meson less_le_trans)
  qed
qed

lemma next_line_loop_measure:
  "next_line_loop d options p chunk = Inr (Some l, rest, p') \<Longrightarrow> drain_measure p' rest < drain_measure p chunk"
proof (induction d options p chunk rule: next_line_loop.induct)
  case (1 d options p chunk)
  have chunk: "chunk \<noteq> []" using "1.prems" by (auto simp: next_line_loop.simps)
  note unfolded = next_line_loop.simps [of d options p chunk]
  have skip: "drain_measure p (drop (Suc k) chunk) \<le> drain_measure p chunk" for k
    using chunk by (intro drain_measure_shorter) simp
  show ?case
  proof (cases "mode p")
    case ReadingLine
    show ?thesis
      using "1.prems" chunk ReadingLine "1.IH"(1) [OF chunk ReadingLine _ refl]
      by (intro read_step_measure [OF _ chunk]) (simp_all add: unfolded)
  next
    case DiscardUntilNewline
    then obtain pos where pos: "memchr d newline chunk = Some pos"
      using "1.prems" chunk by (auto simp: unfolded split: option.splits)
    then show ?thesis
      using "1.IH"(2) [OF chunk DiscardUntilNewline pos] "1.prems" chunk DiscardUntilNewline skip [of pos]
      by (simp add: unfolded)
  next
    case PendingLimitDelimiter
    show ?thesis
    proof (cases "hd chunk = newline")
      case True
      then show ?thesis
        using "1.IH"(3) [OF chunk PendingLimitDelimiter True] "1.prems" chunk PendingLimitDelimiter skip [of 0]
        by (simp add: unfolded)
    next
      case False
      have "drain_measure p' rest < drain_measure (p\<lparr>mode := ReadingLine\<rparr>) chunk"
        using "1.prems" chunk PendingLimitDelimiter False "1.IH"(4) [OF chunk PendingLimitDelimiter False _ refl]
        by (intro read_step_measure [OF _ chunk]) (simp_all add: unfolded)
      then show ?thesis by simp
    qed
  qed
qed

lemma drain_measure_compact [simp]:
  "drain_measure (compact_if_needed p t) chunk = drain_measure p chunk"
  using compact_if_needed_lstate [of p t] by (simp only: drain_measure_def prod.inject)

lemma next_line_measure:
  "next_line d options p chunk = Inr (Some l, rest, p') \<Longrightarrow> drain_measure p' rest < drain_measure p chunk"
  unfolding next_line_def using next_line_loop_measure by fastforce

function drain_chunk ::
  "byte_deps \<Rightarrow> line_parsing_options \<Rightarrow> line_parser \<Rightarrow> bytes \<Rightarrow> (bytes list \<times> line_parser) outcome" where
  "drain_chunk d options p chunk =
     (case next_line d options p chunk of
        Inl e \<Rightarrow> Inl e
      | Inr (None, rest, p') \<Rightarrow> Inr ([], p')
      | Inr (Some l, rest, p') \<Rightarrow>
          (case drain_chunk d options p' rest of
             Inl e \<Rightarrow> Inl e
           | Inr (ls, p'') \<Rightarrow> Inr (l # ls, p'')))"
  by pat_completeness auto
termination
  by (relation "measure (\<lambda>(d, options, p, chunk). drain_measure p chunk)")
    (auto dest: next_line_measure)

declare drain_chunk.simps [simp del]

text \<open>What reaches a parser from a stream: chunks, and gaps where chunks were lost.\<close>

datatype input = InChunk bytes | InGap

fun parse_inputs ::
  "byte_deps \<Rightarrow> line_parsing_options \<Rightarrow> line_parser \<Rightarrow> input list \<Rightarrow> (bytes list \<times> line_parser) outcome" where
  "parse_inputs d options p [] = Inr ([], p)"
| "parse_inputs d options p (InGap # is) = parse_inputs d options (parser_on_gap p) is"
| "parse_inputs d options p (InChunk c # is) =
     (case drain_chunk d options p c of
        Inl e \<Rightarrow> Inl e
      | Inr (ls, p') \<Rightarrow>
          (case parse_inputs d options p' is of Inl e \<Rightarrow> Inl e | Inr (ls', p'') \<Rightarrow> Inr (ls @ ls', p'')))"

text \<open>A complete stream, from a new parser to \<open>finish\<close>.\<close>

definition parse_stream :: "byte_deps \<Rightarrow> line_parsing_options \<Rightarrow> input list \<Rightarrow> bytes list outcome" where
  "parse_stream d options is =
     (case parse_inputs d options line_parser_new is of
        Inl e \<Rightarrow> Inl e
      | Inr (ls, p) \<Rightarrow> Inr (ls @ (case fst (finish p) of None \<Rightarrow> [] | Some l \<Rightarrow> [l])))"

section \<open>Lines of a stream\<close>

subsection \<open>Driving the parser is running the automaton\<close>

lemma drain_chunk_sim:
  assumes "byte_deps_ok d" and "parser_ok options p"
  shows "\<exists>p'. drain_chunk d options p chunk
                = Inr (map decode_line_lossy (fst (run options (lstate p) chunk)), p')
             \<and> lstate p' = snd (run options (lstate p) chunk)"
  using assms
proof (induction d options p chunk rule: drain_chunk.induct)
  case (1 d options p chunk)
  then obtain l rest p' where r: "next_line d options p chunk = Inr (l, rest, p')"
      "next_line_sim options p chunk (l, rest, p')"
    using next_line_sim [of d options p chunk] by auto
  show ?case
  proof (cases l)
    case None
    with r show ?thesis by (simp add: drain_chunk.simps [of d options p] next_line_sim_def)
  next
    case (Some line)
    then obtain raw where raw: "line = decode_line_lossy raw" "parser_ok options p'"
        "run options (lstate p) chunk = prepend [raw] (run options (lstate p') rest)"
      using r(2) unfolding next_line_sim_def by auto
    obtain p'' where "drain_chunk d options p' rest
         = Inr (map decode_line_lossy (fst (run options (lstate p') rest)), p'')"
        "lstate p'' = snd (run options (lstate p') rest)"
      using "1.IH" [OF r(1) refl Some refl "1.prems"(1) raw(2)] by blast
    then show ?thesis
      using r(1) Some raw(1) unfolding raw(3)
      by (intro exI [of _ p'']) (simp add: drain_chunk.simps [of d options p])
  qed
qed

fun run_inputs :: "line_parsing_options \<Rightarrow> lstate \<Rightarrow> input list \<Rightarrow> bytes list \<times> lstate" where
  "run_inputs options s [] = ([], s)"
| "run_inputs options s (InGap # is) = run_inputs options (DiscardUntilNewline, []) is"
| "run_inputs options s (InChunk c # is) =
     prepend (fst (run options s c)) (run_inputs options (snd (run options s c)) is)"

lemma lstate_on_gap [simp]:
  "mode (parser_on_gap p) = DiscardUntilNewline" "bm_bytes (line_buffer (parser_on_gap p)) = []"
  by (simp_all add: parser_on_gap_def)

lemma parse_inputs_sim:
  assumes "byte_deps_ok d" and "parser_ok options p"
  shows "\<exists>p'. parse_inputs d options p is
                = Inr (map decode_line_lossy (fst (run_inputs options (lstate p) is)), p')
             \<and> lstate p' = snd (run_inputs options (lstate p) is)"
  using assms(2)
proof (induction "is" arbitrary: p)
  case (Cons i "is")
  show ?case
  proof (cases i)
    case InGap
    then show ?thesis using Cons.IH [of "parser_on_gap p"] by simp
  next
    case (InChunk c)
    obtain p1 where p1: "drain_chunk d options p c
          = Inr (map decode_line_lossy (fst (run options (lstate p) c)), p1)"
        "lstate p1 = snd (run options (lstate p) c)"
      using drain_chunk_sim [OF assms(1) Cons.prems] by blast
    have "parser_ok options p1"
      unfolding p1(2) using Cons.prems by (rule run_lstate_ok)
    then obtain p2 where "parse_inputs d options p1 is
          = Inr (map decode_line_lossy (fst (run_inputs options (lstate p1) is)), p2)"
        "lstate p2 = snd (run_inputs options (lstate p1) is)"
      using Cons.IH by blast
    then show ?thesis
      using p1 InChunk by (intro exI [of _ p2]) simp
  qed
qed simp

lemma finish_flush:
  "(case fst (finish p) of None \<Rightarrow> [] | Some l \<Rightarrow> [l]) = map decode_line_lossy (flush (lstate p))"
  by (simp add: finish_def flush_def case_prod_beta)

lemma parse_stream_run:
  assumes "byte_deps_ok d"
  shows "parse_stream d options is =
     Inr (map decode_line_lossy
       (case run_inputs options (ReadingLine, []) is of (ls, s) \<Rightarrow> ls @ flush s))"
proof -
  have l: "lstate line_parser_new = (ReadingLine, [])" by (simp add: line_parser_new_def)
  then have "parser_ok options line_parser_new" by (simp only: lstate_ok_Nil)
  from parse_inputs_sim [OF assms this] obtain p where
    "parse_inputs d options line_parser_new is
       = Inr (map decode_line_lossy (fst (run_inputs options (ReadingLine, []) is)), p)"
    "lstate p = snd (run_inputs options (ReadingLine, []) is)"
    unfolding l by blast
  then show ?thesis by (simp add: parse_stream_def finish_flush case_prod_beta)
qed

lemma run_inputs_chunks:
  "run_inputs options s (map InChunk cs) = run options s (concat cs)"
  by (induction cs arbitrary: s) (simp_all add: run_append)

lemma run_inputs_append:
  "run_inputs options s (is @ js)
     = prepend (fst (run_inputs options s is)) (run_inputs options (snd (run_inputs options s is)) js)"
  by (induction options s "is" rule: run_inputs.induct) simp_all

subsection \<open>Which lines the automaton emits\<close>

text \<open>The lines of a byte string: the segments between newlines, and what follows the last newline
  unless it is empty.\<close>

function split_lines :: "bytes \<Rightarrow> bytes list" where
  "split_lines xs =
     (if xs = [] then []
      else takeWhile (\<lambda>x. x \<noteq> newline) xs # split_lines (drop 1 (dropWhile (\<lambda>x. x \<noteq> newline) xs)))"
  by pat_completeness auto
termination
  by (relation "measure length") (auto simp: le_imp_less_Suc length_dropWhile_le less_Suc_eq_le Suc_diff_le
      intro!: diff_less_Suc le_less_trans [OF diff_le_mono [OF length_dropWhile_le]])

declare split_lines.simps [simp del]

function pieces :: "nat \<Rightarrow> bytes \<Rightarrow> bytes list" where
  "pieces n l = (if n = 0 \<or> length l \<le> n then [l] else take n l # pieces n (drop n l))"
  by pat_completeness auto
termination by (relation "measure (\<lambda>(n, l). length l)") auto

declare pieces.simps [simp del]

text \<open>What becomes of one line under the length limit.\<close>

definition cut_line :: "line_parsing_options \<Rightarrow> bytes \<Rightarrow> bytes list" where
  "cut_line options l =
     (if limit options = 0 then [l]
      else case overflow_behavior options of
             DropAdditionalData \<Rightarrow> [take (limit options) l]
           | EmitAdditionalAsNewLines \<Rightarrow> pieces (limit options) l)"

definition spec_lines :: "line_parsing_options \<Rightarrow> bytes \<Rightarrow> bytes list" where
  "spec_lines options xs = concat (map (cut_line options) (split_lines xs))"

lemma run_pieces:
  assumes "newline \<notin> set l" and "limit options \<noteq> 0"
    and "overflow_behavior options = EmitAdditionalAsNewLines"
  shows "run options (ReadingLine, []) (l @ newline # ys)
           = prepend (pieces (limit options) l) (run options (ReadingLine, []) ys)"
  using assms(1)
proof (induction "limit options" l rule: pieces.induct)
  case (1 l)
  let ?n = "limit options"
  consider "length l < ?n" | "length l = ?n" | "?n < length l" by linarith
  then show ?case
  proof cases
    case 1
    then show ?thesis
      using run_line [of l options "[]" ys] \<open>newline \<notin> set l\<close> by (simp add: pieces.simps [of ?n] fits_def)
  next
    case 2
    then show ?thesis
      using run_fill [of l options "[]" "newline # ys"] assms(2,3) \<open>newline \<notin> set l\<close>
      by (cases l) (simp_all add: pieces.simps [of ?n] run_pending)
  next
    case 3
    then obtain x xs where x: "drop ?n l = x # xs" by (cases "drop ?n l") auto
    have t: "newline \<notin> set (take ?n l)" "newline \<notin> set (drop ?n l)"
      using "1.prems" by (auto dest: in_set_takeD in_set_dropD)
    have "run options (ReadingLine, []) (take ?n l @ drop ?n l @ newline # ys)
            = prepend [take ?n l] (run options (PendingLimitDelimiter, []) (drop ?n l @ newline # ys))"
      using run_fill [OF t(1), of options "[]" "drop ?n l @ newline # ys"] 3 assms(2,3)
      by (cases l) simp_all
    also have "run options (PendingLimitDelimiter, []) (drop ?n l @ newline # ys)
            = run options (ReadingLine, []) (drop ?n l @ newline # ys)"
      using t(2) by (auto simp: x run_pending)
    also have "\<dots> = prepend (pieces ?n (drop ?n l)) (run options (ReadingLine, []) ys)"
      using "1.hyps" 3 assms(2) t(2) by simp
    finally show ?thesis
      using 3 assms(2) by (simp add: pieces.simps [of ?n l]) (simp add: append_assoc [symmetric] del: append_assoc)
  qed
qed

lemma run_dropped:
  assumes "newline \<notin> set l" and "limit options \<noteq> 0" and "overflow_behavior options = DropAdditionalData"
  shows "run options (ReadingLine, []) (l @ newline # ys)
           = prepend [take (limit options) l] (run options (ReadingLine, []) ys)"
proof (cases "length l < limit options")
  case True
  then show ?thesis using run_line [of l options "[]" ys] assms by (simp add: fits_def)
next
  case False
  let ?t = "take (limit options) l" and ?r = "drop (limit options) l"
  have "newline \<notin> set ?t" "newline \<notin> set ?r"
    using assms(1) by (auto dest: in_set_takeD in_set_dropD)
  then have "run options (ReadingLine, []) (?t @ ?r @ newline # ys)
      = prepend [?t] (run options (ReadingLine, []) ys)"
    using False assms(2,3) run_clean [of ?t options "[]"]
    by (simp add: run_append [of _ _ ?t] fits_def run_full run_discard_line after_limit_def)
  then show ?thesis by (simp add: append_assoc [symmetric] del: append_assoc)
qed

lemma run_cut_line:
  assumes "newline \<notin> set l"
  shows "run options (ReadingLine, []) (l @ newline # ys)
           = prepend (cut_line options l) (run options (ReadingLine, []) ys)"
proof (cases "limit options = 0")
  case True
  then show ?thesis
    using run_line [of l options "[]" ys] assms by (simp add: cut_line_def fits_def)
next
  case False
  then show ?thesis
    using run_pieces [OF assms False] run_dropped [OF assms False]
    by (cases "overflow_behavior options") (simp_all add: cut_line_def)
qed

text \<open>Ending the stream after a byte other than a newline emits what a newline would.\<close>

lemma flush_newline:
  "s \<noteq> (ReadingLine, []) \<Longrightarrow> lstate_ok options s \<Longrightarrow> flush s = fst (feed options s newline)"
  by (cases s; cases "fst s"; cases "overflow_behavior options")
    (auto simp: flush_def feed_def push_byte_def lstate_ok_def after_limit_def)

lemma run_not_initial:
  "newline \<notin> set l \<Longrightarrow> l \<noteq> [] \<Longrightarrow> snd (run options s l) \<noteq> (ReadingLine, [])"
proof (induction l rule: rev_induct)
  case (snoc x xs)
  obtain m b where s: "snd (run options s xs) = (m, b)" by (cases "snd (run options s xs)")
  show ?case
    using snoc.prems by (cases m; cases "overflow_behavior options")
      (auto simp: run_append s run_Cons feed_def push_byte_def after_limit_def)
qed simp

lemma run_last_line:
  assumes "newline \<notin> set l" and "l \<noteq> []"
  shows "run_lines options l = cut_line options l"
proof -
  let ?s = "snd (run options (ReadingLine, []) l)"
  have "flush ?s = fst (feed options ?s newline)"
    using assms by (intro flush_newline run_not_initial run_lstate_ok) auto
  then have "run_lines options l = fst (run options (ReadingLine, []) (l @ [newline]))"
    by (simp add: run_lines_def run_append run_Cons case_prod_beta)
  then show ?thesis using run_cut_line [OF assms(1), of options "[]"] by simp
qed

lemma run_lines_cut:
  "newline \<notin> set l \<Longrightarrow> run_lines options (l @ newline # ys) = cut_line options l @ run_lines options ys"
  by (simp add: run_lines_def run_cut_line case_prod_beta)

lemma run_lines_spec: "run_lines options xs = spec_lines options xs"
proof (induction xs rule: split_lines.induct)
  case (1 xs)
  let ?l = "takeWhile (\<lambda>x. x \<noteq> newline) xs" and ?r = "dropWhile (\<lambda>x. x \<noteq> newline) xs"
  have l: "newline \<notin> set ?l" by (auto dest: set_takeWhileD)
  show ?case
  proof (cases "xs = []")
    case True
    then show ?thesis by (simp add: run_lines_def flush_def spec_lines_def split_lines.simps)
  next
    case ne: False
    show ?thesis
    proof (cases ?r)
      case Nil
      then have "?l = xs" by (metis append_Nil2 takeWhile_dropWhile_id)
      then have "split_lines xs = [xs]"
        using ne by (subst split_lines.simps) (simp only: Nil drop_Nil split_lines.simps [of "[]"], simp)
      then show ?thesis
        using run_last_line [of xs options] ne l \<open>?l = xs\<close> by (simp only: spec_lines_def) simp
    next
      case (Cons x r)
      then have x: "x = newline" using hd_dropWhile [of "\<lambda>x. x \<noteq> newline" xs] by auto
      have "run_lines options (?l @ ?r) = cut_line options ?l @ run_lines options r"
        unfolding Cons x by (rule run_lines_cut [OF l])
      moreover have "run_lines options r = spec_lines options r"
        using "1.IH" ne Cons by simp
      moreover have "spec_lines options xs = cut_line options ?l @ spec_lines options r"
        using ne Cons by (simp add: spec_lines_def split_lines.simps [of xs])
      ultimately show ?thesis by simp
    qed
  qed
qed

subsection \<open>What is lost and what is kept\<close>

lemma spec_lines_Nil [simp]: "spec_lines options [] = []"
  by (simp add: spec_lines_def split_lines.simps)

lemma concat_pieces: "concat (pieces n l) = l"
  by (induction n l rule: pieces.induct) (simp add: pieces.simps)

lemma filter_line:
  "filter (\<lambda>x. x \<noteq> newline) (takeWhile (\<lambda>x. x \<noteq> newline) xs) = takeWhile (\<lambda>x. x \<noteq> newline) xs"
  by (auto simp: filter_id_conv dest: set_takeWhileD)

lemma concat_split_lines: "concat (split_lines xs) = filter (\<lambda>x. x \<noteq> newline) xs"
proof (induction xs rule: split_lines.induct)
  case (1 xs)
  let ?l = "takeWhile (\<lambda>x. x \<noteq> newline) xs" and ?r = "dropWhile (\<lambda>x. x \<noteq> newline) xs"
  have "filter (\<lambda>x. x \<noteq> newline) xs = ?l @ filter (\<lambda>x. x \<noteq> newline) (drop 1 ?r)"
  proof -
    have "filter (\<lambda>x. x \<noteq> newline) ?r = filter (\<lambda>x. x \<noteq> newline) (drop 1 ?r)"
    proof (cases ?r)
      case Nil
      then show ?thesis by (simp only: drop_Nil)
    next
      case (Cons x r)
      then show ?thesis using hd_dropWhile [of "\<lambda>x. x \<noteq> newline" xs] by auto
    qed
    then show ?thesis
      using filter_append [of "\<lambda>x. x \<noteq> newline" ?l ?r] filter_line [of xs]
      by (simp only: takeWhile_dropWhile_id)
  qed
  with 1 show ?case by (simp add: split_lines.simps [of xs])
qed

definition keeps_everything :: "line_parsing_options \<Rightarrow> bool" where
  "keeps_everything options \<longleftrightarrow>
     limit options = 0 \<or> overflow_behavior options = EmitAdditionalAsNewLines"

lemma concat_spec_lines:
  assumes "keeps_everything options"
  shows "concat (spec_lines options xs) = filter (\<lambda>x. x \<noteq> newline) xs"
proof -
  have "concat (cut_line options l) = l" for l
    using assms by (auto simp: keeps_everything_def cut_line_def concat_pieces)
  then have "concat (concat (map (cut_line options) ls)) = concat ls" for ls
    by (induction ls) simp_all
  then show ?thesis by (simp add: spec_lines_def concat_split_lines)
qed

lemma run_inputs_lines_ok:
  assumes "lstate_ok options s"
  shows "lstate_ok options (snd (run_inputs options s is)) \<and>
         (\<forall>l \<in> set (fst (run_inputs options s is)). line_ok options l)"
  using assms
proof (induction options s "is" rule: run_inputs.induct)
  case (3 options s c "is")
  then have "lstate_ok options (snd (run options s c))" by (simp add: run_lstate_ok)
  with 3 show ?case by (auto dest: run_line_ok)
qed simp_all

lemma flush_ok: "lstate_ok options s \<Longrightarrow> l \<in> set (flush s) \<Longrightarrow> line_ok options l"
  by (auto simp: flush_def lstate_ok_def line_ok_def split: if_splits)

text \<open>Bytes after a gap count from the first newline; before it, from the start to the last newline
  every line is complete.\<close>

definition after_newline :: "bytes \<Rightarrow> bytes" where
  "after_newline xs = drop 1 (dropWhile (\<lambda>x. x \<noteq> newline) xs)"

lemma run_after_gap:
  "(case run options (DiscardUntilNewline, []) xs of (ls, s) \<Rightarrow> ls @ flush s)
     = spec_lines options (after_newline xs)"
proof -
  let ?l = "takeWhile (\<lambda>x. x \<noteq> newline) xs" and ?r = "dropWhile (\<lambda>x. x \<noteq> newline) xs"
  have l: "newline \<notin> set ?l" by (auto dest: set_takeWhileD)
  show ?thesis
  proof (cases ?r)
    case Nil
    then have "newline \<notin> set xs" by auto
    then show ?thesis
      using Nil by (simp only: after_newline_def) (simp add: run_discard flush_def)
  next
    case (Cons x r)
    then have x: "x = newline" using hd_dropWhile [of "\<lambda>x. x \<noteq> newline" xs] by auto
    have "run options (DiscardUntilNewline, []) (?l @ ?r) = run options (ReadingLine, []) r"
      unfolding Cons x by (rule run_discard_line [OF l])
    moreover have "after_newline xs = r" using Cons by (simp add: after_newline_def)
    ultimately show ?thesis
      using run_lines_spec [of options r] by (simp add: run_lines_def)
  qed
qed

lemma run_threshold_irrelevant:
  "run (options\<lparr>buffer_compaction_threshold := t\<rparr>) s xs = run options s xs"
proof (induction xs arbitrary: s)
  case (Cons x xs)
  have "feed (options\<lparr>buffer_compaction_threshold := t\<rparr>) s x = feed options s x"
    by (cases s; cases "fst s"; cases "overflow_behavior options")
      (simp_all add: feed_def push_byte_def after_limit_def)
  with Cons show ?case by (simp add: run_Cons)
qed simp

lemma run_inputs_threshold_irrelevant:
  "run_inputs (options\<lparr>buffer_compaction_threshold := t\<rparr>) s is = run_inputs options s is"
  by (induction options s "is" rule: run_inputs.induct) (simp_all add: run_threshold_irrelevant)

text \<open>A concrete instance of the byte routines, on which the hypothesis holds.\<close>

definition example_deps :: byte_deps where
  "example_deps =
     \<lparr>memchr = (\<lambda>b xs. let i = length (takeWhile (\<lambda>x. x \<noteq> b) xs) in if i < length xs then Some i else None),
      grow = (\<lambda>c n. max (2 * c) n)\<rparr>"

lemma first_index_iff:
  "(i < length xs \<and> xs ! i = b \<and> (\<forall>j<i. xs ! j \<noteq> b)) \<longleftrightarrow>
   i = length (takeWhile (\<lambda>x. x \<noteq> b) xs) \<and> i < length xs"
proof
  assume i: "i < length xs \<and> xs ! i = b \<and> (\<forall>j<i. xs ! j \<noteq> b)"
  then show "i = length (takeWhile (\<lambda>x. x \<noteq> b) xs) \<and> i < length xs"
    using takeWhile_eq_take_P_nth [of i xs "\<lambda>x. x \<noteq> b"] by simp
next
  assume i: "i = length (takeWhile (\<lambda>x. x \<noteq> b) xs) \<and> i < length xs"
  then show "i < length xs \<and> xs ! i = b \<and> (\<forall>j<i. xs ! j \<noteq> b)"
    using nth_length_takeWhile [of "\<lambda>x. x \<noteq> b" xs]
    by (auto simp: takeWhile_nth [symmetric] dest: nth_mem set_takeWhileD)
qed

lemma example_deps_ok: "byte_deps_ok example_deps"
  unfolding byte_deps_ok_def by (auto simp: example_deps_def first_index_iff Let_def)

lemma feed_newline: "lstate_ok options s \<Longrightarrow> snd (feed options s newline) = (ReadingLine, [])"
  by (cases s; cases "fst s"; cases "overflow_behavior options")
    (auto simp: feed_def push_byte_def lstate_ok_def after_limit_def)

lemma run_up_to_newline:
  "run options (ReadingLine, []) (v @ [newline]) = (spec_lines options (v @ [newline]), (ReadingLine, []))"
proof -
  have "snd (run options (ReadingLine, []) (v @ [newline])) = (ReadingLine, [])"
    by (simp add: run_append run_Cons feed_newline run_lstate_ok)
  then show ?thesis
    using run_lines_spec [of options "v @ [newline]"]
    by (simp add: run_lines_def flush_def case_prod_beta prod_eq_iff)
qed

section \<open>Properties\<close>

text \<open>C1: whatever way a byte stream is cut into chunks, driving the parser over the chunks and
  finishing it never panics, ends, and yields exactly the lossily decoded lines of the whole stream:
  the segments between newlines (a trailing unterminated one included), each cut by the length limit
  as the overflow behaviour says.\<close>

theorem parse_stream_spec_lines:
  assumes "byte_deps_ok d"
  shows "parse_stream d options (map InChunk chunks)
           = Inr (map decode_line_lossy (spec_lines options (concat chunks)))"
  using parse_stream_run [OF assms, of options "map InChunk chunks"]
    run_lines_spec [of options "concat chunks"]
  by (simp add: run_inputs_chunks run_lines_def)

theorem parse_stream_spec_lines_witness:
  "parse_stream example_deps
     \<lparr>max_line_length = NumBytes 2, overflow_behavior = EmitAdditionalAsNewLines,
      buffer_compaction_threshold = None\<rparr>
     (map InChunk [''ab'', ''c'', [newline, CHR ''d'']]) = Inr [''ab'', ''c'', ''d'']"
proof -
  have "map decode_line_lossy (spec_lines
     \<lparr>max_line_length = NumBytes 2, overflow_behavior = EmitAdditionalAsNewLines,
      buffer_compaction_threshold = None\<rparr>
     (concat [''ab'', ''c'', [newline, CHR ''d'']])) = [''ab'', ''c'', ''d'']"
    by code_simp
  then show ?thesis
    by (simp only: parse_stream_spec_lines [OF example_deps_ok])
qed

text \<open>C20: a call of \<open>next_line\<close> on a well-formed parser never panics, leaves the parser well-formed,
  returns \<open>None\<close> only when the whole chunk is consumed, and otherwise consumes exactly the bytes up to
  the first line of the reference automaton and returns that line.\<close>

theorem next_line_simulates:
  assumes "byte_deps_ok d" and "lstate_ok options (lstate p)"
  shows "\<exists>l rest p'. next_line d options p chunk = Inr (l, rest, p') \<and> lstate_ok options (lstate p') \<and>
     (l = None \<longrightarrow> rest = [] \<and> run options (lstate p) chunk = ([], lstate p')) \<and>
     (\<forall>line. l = Some line \<longrightarrow> (\<exists>raw. line = decode_line_lossy raw \<and> line_ok options raw \<and>
        run options (lstate p) chunk = prepend [raw] (run options (lstate p') rest)))"
proof -
  obtain l rest p' where r: "next_line d options p chunk = Inr (l, rest, p')"
      "next_line_sim options p chunk (l, rest, p')"
    using next_line_sim [OF assms, of chunk] by auto
  have ok: "line_ok options raw" if "run options (lstate p) chunk = prepend [raw] q" for raw q
    using run_line_ok [OF assms(2), of raw chunk] that by simp
  show ?thesis
  proof (intro exI conjI)
    show "next_line d options p chunk = Inr (l, rest, p')" by (rule r)
    show "lstate_ok options (lstate p')"
      "l = None \<longrightarrow> rest = [] \<and> run options (lstate p) chunk = ([], lstate p')"
      using r(2) by (auto simp: next_line_sim_def)
    show "\<forall>line. l = Some line \<longrightarrow> (\<exists>raw. line = decode_line_lossy raw \<and> line_ok options raw \<and>
        run options (lstate p) chunk = prepend [raw] (run options (lstate p') rest))"
    proof (intro allI impI)
      fix line
      assume "l = Some line"
      then obtain raw where "line = decode_line_lossy raw"
          "run options (lstate p) chunk = prepend [raw] (run options (lstate p') rest)"
        using r(2) unfolding next_line_sim_def by auto
      with ok show "\<exists>raw. line = decode_line_lossy raw \<and> line_ok options raw \<and>
          run options (lstate p) chunk = prepend [raw] (run options (lstate p') rest)"
        by blast
    qed
  qed
qed

theorem next_line_simulates_witness:
  "\<exists>l rest p'. next_line example_deps line_parsing_options_default line_parser_new [newline] = Inr (l, rest, p')
     \<and> lstate_ok line_parsing_options_default (lstate p')"
  using next_line_simulates [OF example_deps_ok, of line_parsing_options_default line_parser_new "[newline]"]
  by (auto simp: line_parser_new_def)

text \<open>C35: every line a parser yields, gaps and overflow included, is newline-free valid UTF-8, and
  with a length limit it is the decoding of at most that many bytes, so at most three times as long
  (an undecodable byte becomes a three-byte replacement character).\<close>

theorem parsed_lines_bounded:
  assumes "byte_deps_ok d"
  shows "\<exists>raws. parse_stream d options is = Inr (map decode_line_lossy raws) \<and>
     (\<forall>raw. raw \<in> set raws \<longrightarrow>
        newline \<notin> set (decode_line_lossy raw) \<and> utf8_valid (decode_line_lossy raw) \<and>
        (0 < limit options \<longrightarrow> length raw \<le> limit options \<and> length (decode_line_lossy raw) \<le> 3 * limit options))"
proof -
  let ?r = "run_inputs options (ReadingLine, []) is"
  have "line_ok options raw" if "raw \<in> set (fst ?r @ flush (snd ?r))" for raw
    using that run_inputs_lines_ok [of options "(ReadingLine, [])" "is"] flush_ok [of options "snd ?r" raw]
    by auto
  then have "newline \<notin> set (decode_line_lossy raw) \<and> utf8_valid (decode_line_lossy raw) \<and>
        (0 < limit options \<longrightarrow> length raw \<le> limit options \<and> length (decode_line_lossy raw) \<le> 3 * limit options)"
    if "raw \<in> set (fst ?r @ flush (snd ?r))" for raw
    using that from_utf8_lossy_length [of raw]
    by (fastforce simp: line_ok_def decode_line_lossy_def from_utf8_lossy_no_newline from_utf8_lossy_valid)
  then show ?thesis
    using parse_stream_run [OF assms, of options "is"]
    by (intro exI [of _ "fst ?r @ flush (snd ?r)"]) (simp add: case_prod_beta)
qed

theorem parsed_lines_bounded_witness:
  "\<exists>raws. parse_stream example_deps line_parsing_options_default [InChunk ''ab'', InGap] = Inr (map decode_line_lossy raws) \<and>
     (\<forall>raw. raw \<in> set raws \<longrightarrow> length raw \<le> 16384)"
  using parsed_lines_bounded [OF example_deps_ok, of line_parsing_options_default "[InChunk ''ab'', InGap]"]
  by (auto simp: line_parsing_options_default_def DEFAULT_MAX_LINE_LENGTH_def)

text \<open>C36: with \<open>EmitAdditionalAsNewLines\<close>, or with no length limit, no data is dropped: the
  undecoded lines concatenated are the stream without its newlines.\<close>

theorem emit_additional_lossless:
  assumes "byte_deps_ok d" and "keeps_everything options"
  shows "\<exists>raws. parse_stream d options (map InChunk chunks) = Inr (map decode_line_lossy raws) \<and>
     concat raws = filter (\<lambda>x. x \<noteq> newline) (concat chunks)"
  using parse_stream_run [OF assms(1), of options "map InChunk chunks"]
    run_lines_spec [of options "concat chunks"] concat_spec_lines [OF assms(2), of "concat chunks"]
  by (intro exI [of _ "spec_lines options (concat chunks)"]) (simp add: run_inputs_chunks run_lines_def)

theorem emit_additional_lossless_witness:
  "\<exists>raws. parse_stream example_deps
     \<lparr>max_line_length = NumBytes 2, overflow_behavior = EmitAdditionalAsNewLines,
      buffer_compaction_threshold = None\<rparr> (map InChunk [''abc'', [newline]]) = Inr (map decode_line_lossy raws)
     \<and> concat raws = ''abc''"
  using emit_additional_lossless [OF example_deps_ok, of "\<lparr>max_line_length = NumBytes 2,
     overflow_behavior = EmitAdditionalAsNewLines, buffer_compaction_threshold = None\<rparr>" "[''abc'', [newline]]"]
  by (simp add: keeps_everything_def newline_def)

text \<open>What the length limit makes the parser emit of a line before its newline arrives: the pieces that reached
  the limit, or the one line that was cut off.\<close>

definition early_lines :: "line_parsing_options \<Rightarrow> bytes \<Rightarrow> bytes list" where
  "early_lines options part =
     (if limit options = 0 then []
      else case overflow_behavior options of
             DropAdditionalData \<Rightarrow> if limit options < length part then [take (limit options) part] else []
           | EmitAdditionalAsNewLines \<Rightarrow> filter (\<lambda>l. length l = limit options) (pieces (limit options) part))"

lemma run_early_pieces:
  assumes "newline \<notin> set l" and "limit options \<noteq> 0" and "overflow_behavior options = EmitAdditionalAsNewLines"
  shows "fst (run options (ReadingLine, []) l) = filter (\<lambda>l. length l = limit options) (pieces (limit options) l)"
  using assms(1)
proof (induction "limit options" l rule: pieces.induct)
  case (1 l)
  let ?n = "limit options"
  show ?case
  proof (cases "length l < ?n")
    case True
    then show ?thesis using run_clean [of l options "[]"] "1.prems" by (simp add: fits_def pieces.simps [of ?n l])
  next
    case False
    then have t: "newline \<notin> set (take ?n l)" "newline \<notin> set (drop ?n l)" "take ?n l \<noteq> []" "length (take ?n l) = ?n"
      using "1.prems" assms(2) by (auto dest: in_set_takeD in_set_dropD)
    have "run options (ReadingLine, []) (take ?n l @ drop ?n l) = prepend [take ?n l] (run options (PendingLimitDelimiter, []) (drop ?n l))"
      using run_fill [OF t(1,3) assms(2), of "[]" "drop ?n l"] t(4) assms(3) by simp
    moreover have "fst (run options (PendingLimitDelimiter, []) (drop ?n l)) = fst (run options (ReadingLine, []) (drop ?n l))"
      using t(2) by (cases "drop ?n l") (auto simp: run_pending)
    ultimately have r: "fst (run options (ReadingLine, []) l) = take ?n l # fst (run options (ReadingLine, []) (drop ?n l))" by simp
    show ?thesis
    proof (cases "length l = ?n")
      case True
      then show ?thesis using r by (simp add: pieces.simps [of ?n l])
    next
      case False
      then show ?thesis
        using r "1.hyps" t(2,4) assms(2) \<open>\<not> length l < ?n\<close> by (simp add: pieces.simps [of ?n l])
    qed
  qed
qed

lemma run_early: "newline \<notin> set part \<Longrightarrow> fst (run options (ReadingLine, []) part) = early_lines options part"
proof (cases "fits options (length part)")
  case True
  assume "newline \<notin> set part"
  with True show ?thesis
    using run_clean [of part options "[]"] run_early_pieces [of part options]
    by (cases "overflow_behavior options") (auto simp: early_lines_def fits_def)
next
  case False
  assume nl: "newline \<notin> set part"
  show ?thesis
  proof (cases "overflow_behavior options")
    case DropAdditionalData
    let ?n = "limit options"
    have n: "?n \<noteq> 0" "?n < length part" using False DropAdditionalData by (auto simp: fits_def)
    have t: "newline \<notin> set (take ?n part)" "newline \<notin> set (drop ?n part)" using nl by (auto dest: in_set_takeD in_set_dropD)
    have "run options (ReadingLine, []) (take ?n part @ drop ?n part) = ([take ?n part], (DiscardUntilNewline, []))"
      using n DropAdditionalData t run_clean [OF t(1), of options "[]"]
      by (simp add: run_append [of _ _ "take ?n part"] fits_def run_full run_discard after_limit_def prepend_def
          del: append_take_drop_id)
    then show ?thesis using n DropAdditionalData by (simp add: early_lines_def)
  next
    case EmitAdditionalAsNewLines
    then show ?thesis using run_early_pieces [OF nl] False by (auto simp: early_lines_def fits_def)
  qed
qed

text \<open>C25: a gap never joins bytes across it, and drops what it interrupts.  Let the bytes before the gap be
  complete lines followed by an unfinished one.  Then the parser yields exactly the complete lines, the
  pieces of the unfinished line that the length limit had already made it emit (none while that line
  is shorter than the limit, or without a limit), and the lines of the bytes behind the first newline
  after the gap; the rest of the unfinished line and everything up to that newline is discarded.\<close>

theorem gap_resynchronises:
  assumes "byte_deps_ok d" and "concat cs = complete @ part" and "complete = [] \<or> last complete = newline" and "newline \<notin> set part"
  shows "parse_stream d options (map InChunk cs @ InGap # map InChunk ds)
      = Inr (map decode_line_lossy
          (spec_lines options complete @ early_lines options part @ spec_lines options (after_newline (concat ds)))) \<and>
    (limit options = 0 \<or> length part < limit options \<longrightarrow> early_lines options part = [])"
proof -
  let ?r = "run options (ReadingLine, []) (concat cs)"
  have "run options (ReadingLine, []) complete = (spec_lines options complete, (ReadingLine, []))"
  proof (cases "complete = []")
    case False
    then have "complete = butlast complete @ [newline]" using assms(3) append_butlast_last_id by metis
    then show ?thesis using run_up_to_newline [of options "butlast complete"] by simp
  qed simp
  then have "fst ?r = spec_lines options complete @ early_lines options part"
    using run_early [OF assms(4), of options] assms(2) by (simp add: run_append)
  moreover have "parse_stream d options (map InChunk cs @ InGap # map InChunk ds)
      = Inr (map decode_line_lossy (fst ?r @ spec_lines options (after_newline (concat ds))))"
    using parse_stream_run [OF assms(1), of options "map InChunk cs @ InGap # map InChunk ds"]
      run_after_gap [of options "concat ds", symmetric]
    by (simp add: run_inputs_append run_inputs_chunks case_prod_beta)
  moreover have "early_lines options part = []" if "limit options = 0 \<or> length part < limit options"
    using that by (auto simp: early_lines_def pieces.simps [of "limit options" part] split: line_overflow_behavior.split)
  ultimately show ?thesis by simp
qed

theorem gap_resynchronises_witness:
  "parse_stream example_deps line_parsing_options_default
       (map InChunk [''a'', [newline, CHR ''b'']] @ InGap # map InChunk [[CHR ''c'', newline, CHR ''d'']]) = Inr [''a'', ''d'']"
proof -
  have s: "spec_lines line_parsing_options_default (after_newline (concat [[CHR ''c'', newline, CHR ''d'']])) = [''d'']"
    "spec_lines line_parsing_options_default (''a'' @ [newline]) = [''a'']"
    "early_lines line_parsing_options_default ''b'' = []" "map decode_line_lossy [''a'', ''d''] = [''a'', ''d'']"
    by code_simp+
  have c: "concat [''a'', [newline, CHR ''b'']] = (''a'' @ [newline]) @ ''b''" "newline \<notin> set ''b''"
    by (simp_all add: newline_def)
  show ?thesis
    using gap_resynchronises [OF example_deps_ok c(1) _ c(2), of line_parsing_options_default "[[CHR ''c'', newline, CHR ''d'']]"] s
    by simp
qed

text \<open>Buffer compaction only frees memory: whatever the threshold, and whatever gaps occur, the
  lines are the same as without compaction.\<close>

theorem compaction_preserves_lines:
  assumes "byte_deps_ok d"
  shows "parse_stream d (options\<lparr>buffer_compaction_threshold := t\<rparr>) is = parse_stream d options is"
  by (simp add: parse_stream_run [OF assms] run_inputs_threshold_irrelevant)

theorem compaction_preserves_lines_witness:
  "parse_stream example_deps (line_parsing_options_default\<lparr>buffer_compaction_threshold := Some (NumBytes 0)\<rparr>)
     [InChunk ''ab'', InGap] = parse_stream example_deps line_parsing_options_default [InChunk ''ab'', InGap]"
  using compaction_preserves_lines [OF example_deps_ok] .

end
