(* ===== verification/Visitors.thy ===== *)
theory Visitors
  imports Line_Parser
begin

text \<open>
  The visitor traits (\<open>visitor.rs\<close>, \<open>line/adapter.rs\<close>), the driver loop that steps a visitor over a
  subscription (\<open>consumer/driver.rs\<close>) and the adapter \<open>ParseLines\<close> that turns a line visitor into a
  stream visitor (\<open>line/adapter.rs\<close>).

  A trait is a record of its methods over the type of the implementing struct; a method that can
  panic returns an \<open>outcome\<close>.  The synchronous and the asynchronous twin of a trait have the same
  methods, awaited in the same order, so one record stands for both.  The driver's \<open>select!\<close> is a list
  of what its polls return: an event of the subscription, \<open>None\<close> from a closed subscription, or the
  cancellation signal; the list running out is a driver that is still waiting.

  The locale \<open>visitor_contract\<close> is what a driver relies on: methods that do not panic and keep the
  visitor's invariant.  \<open>line_contract\<close> is the same for line visitors, and every line visitor under
  the adapter meets \<open>visitor_contract\<close>.
\<close>

section \<open>Traits\<close>

record ('v, 'out) stream_visitor =
  on_chunk :: "'v \<Rightarrow> bytes \<Rightarrow> (next_t \<times> 'v) outcome"
  on_gap :: "'v \<Rightarrow> 'v"
  on_eof :: "'v \<Rightarrow> 'v outcome"
  into_output :: "'v \<Rightarrow> 'out"

record ('s, 'out) line_visitor =
  on_line :: "'s \<Rightarrow> bytes \<Rightarrow> (next_t \<times> 's) outcome"
  line_on_gap :: "'s \<Rightarrow> 's"
  line_on_eof :: "'s \<Rightarrow> 's outcome"
  line_into_output :: "'s \<Rightarrow> 'out"

section \<open>The driver\<close>

datatype poll = Event "stream_event option" | CancelSignal

datatype ('v, 'out) driver_state = Finished 'out | ReadFailed stream_read_error | Waiting 'v

fun consume_sync ::
  "('v, 'out) stream_visitor \<Rightarrow> 'v \<Rightarrow> poll list \<Rightarrow> ('v, 'out) driver_state outcome" where
  "consume_sync V v [] = Inr (Waiting v)"
| "consume_sync V v (Event (Some (Chunk c)) # ps) =
     (case on_chunk V v c of
        Inl e \<Rightarrow> Inl e
      | Inr (Break, v') \<Rightarrow> Inr (Finished (into_output V v'))
      | Inr (Continue, v') \<Rightarrow> consume_sync V v' ps)"
| "consume_sync V v (Event (Some Gap) # ps) = consume_sync V (on_gap V v) ps"
| "consume_sync V v (Event (Some Eof) # ps) =
     (case on_eof V v of Inl e \<Rightarrow> Inl e | Inr v' \<Rightarrow> Inr (Finished (into_output V v')))"
| "consume_sync V v (Event None # ps) =
     (case on_eof V v of Inl e \<Rightarrow> Inl e | Inr v' \<Rightarrow> Inr (Finished (into_output V v')))"
| "consume_sync V v (Event (Some (ReadError err)) # ps) = Inr (ReadFailed err)"
| "consume_sync V v (CancelSignal # ps) = Inr (Finished (into_output V v))"

text \<open>The asynchronous driver differs only in awaiting the visitor's methods: once a branch of the
  \<open>select!\<close> is taken, its handler runs to completion before the next poll.\<close>

fun consume_async ::
  "('v, 'out) stream_visitor \<Rightarrow> 'v \<Rightarrow> poll list \<Rightarrow> ('v, 'out) driver_state outcome" where
  "consume_async V v [] = Inr (Waiting v)"
| "consume_async V v (Event (Some (Chunk c)) # ps) =
     (case on_chunk V v c of
        Inl e \<Rightarrow> Inl e
      | Inr (Break, v') \<Rightarrow> Inr (Finished (into_output V v'))
      | Inr (Continue, v') \<Rightarrow> consume_async V v' ps)"
| "consume_async V v (Event (Some Gap) # ps) = consume_async V (on_gap V v) ps"
| "consume_async V v (Event (Some Eof) # ps) =
     (case on_eof V v of Inl e \<Rightarrow> Inl e | Inr v' \<Rightarrow> Inr (Finished (into_output V v')))"
| "consume_async V v (Event None # ps) =
     (case on_eof V v of Inl e \<Rightarrow> Inl e | Inr v' \<Rightarrow> Inr (Finished (into_output V v')))"
| "consume_async V v (Event (Some (ReadError err)) # ps) = Inr (ReadFailed err)"
| "consume_async V v (CancelSignal # ps) = Inr (Finished (into_output V v))"

lemma consume_async_sync: "consume_async V v ps = consume_sync V v ps"
  by (induction V v ps rule: consume_sync.induct)
    (auto split: sum.splits prod.splits next_t.splits)

text \<open>Polls after which a driver cannot still be waiting.\<close>

fun final_poll :: "poll \<Rightarrow> bool" where
  "final_poll CancelSignal = True"
| "final_poll (Event None) = True"
| "final_poll (Event (Some ev)) = is_terminal ev"

section \<open>Line parsing as a visitor\<close>

record 's parse_lines =
  pl_parser :: line_parser
  pl_options :: line_parsing_options
  pl_inner :: 's

definition parse_lines_new :: "line_parsing_options \<Rightarrow> 's \<Rightarrow> 's parse_lines outcome" where
  "parse_lines_new options inner =
     (case assert_max_line_length_non_zero options of
        Inl e \<Rightarrow> Inl e
      | Inr _ \<Rightarrow> Inr \<lparr>pl_parser = line_parser_new, pl_options = options, pl_inner = inner\<rparr>)"

function visit_chunk_loop ::
  "byte_deps \<Rightarrow> ('s, 'out) line_visitor \<Rightarrow> line_parsing_options \<Rightarrow> line_parser \<Rightarrow> 's \<Rightarrow> bytes
     \<Rightarrow> (next_t \<times> line_parser \<times> 's) outcome" where
  "visit_chunk_loop d L options parser inner bs =
     (case next_line d options parser bs of
        Inl e \<Rightarrow> Inl e
      | Inr (None, rest, parser') \<Rightarrow> Inr (Continue, parser', inner)
      | Inr (Some line, rest, parser') \<Rightarrow>
          (case on_line L inner line of
             Inl e \<Rightarrow> Inl e
           | Inr (Break, inner') \<Rightarrow> Inr (Break, parser', inner')
           | Inr (Continue, inner') \<Rightarrow> visit_chunk_loop d L options parser' inner' rest))"
  by pat_completeness auto
termination
  by (relation "measure (\<lambda>(d, L, options, p, inner, bs). drain_measure p bs)")
    (auto dest: next_line_measure)

declare visit_chunk_loop.simps [simp del]

definition parse_lines_on_chunk ::
  "byte_deps \<Rightarrow> ('s, 'out) line_visitor \<Rightarrow> 's parse_lines \<Rightarrow> bytes \<Rightarrow> (next_t \<times> 's parse_lines) outcome" where
  "parse_lines_on_chunk d L self chunk =
     (case visit_chunk_loop d L (pl_options self) (pl_parser self) (pl_inner self) chunk of
        Inl e \<Rightarrow> Inl e
      | Inr (nx, parser', inner') \<Rightarrow> Inr (nx, self\<lparr>pl_parser := parser', pl_inner := inner'\<rparr>))"

definition parse_lines_on_gap :: "('s, 'out) line_visitor \<Rightarrow> 's parse_lines \<Rightarrow> 's parse_lines" where
  "parse_lines_on_gap L self =
     self\<lparr>pl_parser := parser_on_gap (pl_parser self), pl_inner := line_on_gap L (pl_inner self)\<rparr>"

definition parse_lines_on_eof ::
  "('s, 'out) line_visitor \<Rightarrow> 's parse_lines \<Rightarrow> 's parse_lines outcome" where
  "parse_lines_on_eof L self =
     (case finish (pl_parser self) of (trailing, parser') \<Rightarrow>
        (case (case trailing of
                 None \<Rightarrow> Inr (pl_inner self)
               | Some line \<Rightarrow> (case on_line L (pl_inner self) line of
                                 Inl e \<Rightarrow> Inl e | Inr (_, inner') \<Rightarrow> Inr inner')) of
           Inl e \<Rightarrow> Inl e
         | Inr inner' \<Rightarrow>
             (case line_on_eof L inner' of
                Inl e \<Rightarrow> Inl e
              | Inr inner'' \<Rightarrow> Inr (self\<lparr>pl_parser := parser', pl_inner := inner''\<rparr>))))"

definition parse_lines_into_output :: "('s, 'out) line_visitor \<Rightarrow> 's parse_lines \<Rightarrow> 'out" where
  "parse_lines_into_output L self = line_into_output L (pl_inner self)"

definition parse_lines_visitor ::
  "byte_deps \<Rightarrow> ('s, 'out) line_visitor \<Rightarrow> ('s parse_lines, 'out) stream_visitor" where
  "parse_lines_visitor d L =
     \<lparr>on_chunk = parse_lines_on_chunk d L,
      on_gap = parse_lines_on_gap L,
      on_eof = parse_lines_on_eof L,
      into_output = parse_lines_into_output L\<rparr>"

lemma poll_cases [case_names Chunk Gap Eof Closed ReadError Cancel]:
  obtains c where "p = Event (Some (Chunk c))" | "p = Event (Some Gap)" | "p = Event (Some Eof)"
    | "p = Event None" | err where "p = Event (Some (ReadError err))" | "p = CancelSignal"
  by (metis poll.exhaust option.exhaust stream_event.exhaust)

section \<open>The contracts\<close>

locale visitor_contract =
  fixes V :: "('v, 'out) stream_visitor" and inv :: "'v \<Rightarrow> bool"
  assumes on_chunk_total: "inv v \<Longrightarrow> \<exists>nx v'. on_chunk V v c = Inr (nx, v') \<and> inv v'"
    and on_gap_inv: "inv v \<Longrightarrow> inv (on_gap V v)"
    and on_eof_total: "inv v \<Longrightarrow> \<exists>v'. on_eof V v = Inr v' \<and> inv v'"
begin

text \<open>A driver over such a visitor never panics; what it hands out comes from a visitor that
  satisfies the invariant; it fails only with a read error of the stream; and it is still waiting
  only while no terminal event, closed subscription or cancellation was polled.\<close>

lemma driver_total:
  "inv v \<Longrightarrow> \<exists>r. consume_sync V v ps = Inr r \<and>
     (case r of Finished out \<Rightarrow> \<exists>w. inv w \<and> out = into_output V w
      | ReadFailed err \<Rightarrow> Event (Some (ReadError err)) \<in> set ps
      | Waiting w \<Rightarrow> inv w \<and> (\<forall>p\<in>set ps. \<not> final_poll p))"
proof (induction ps arbitrary: v)
  case (Cons p ps)
  have lift: "\<exists>r. consume_sync V w ps = Inr r \<and>
     (case r of Finished out \<Rightarrow> \<exists>w. inv w \<and> out = into_output V w
      | ReadFailed err \<Rightarrow> Event (Some (ReadError err)) \<in> set (p # ps)
      | Waiting w \<Rightarrow> inv w \<and> (\<forall>p\<in>set (p # ps). \<not> final_poll p))"
    if "inv w" "\<not> final_poll p" for w
    using Cons.IH [OF that(1)] that(2) by (fastforce split: driver_state.splits)
  show ?case
  proof (cases p rule: poll_cases)
    case (Chunk c)
    obtain nx v' where v': "on_chunk V v c = Inr (nx, v')" "inv v'"
      using on_chunk_total [OF Cons.prems] by blast
    then show ?thesis using Chunk lift [of v'] by (cases nx) auto
  next
    case Gap
    then show ?thesis using lift [OF on_gap_inv [OF Cons.prems]] by simp
  qed (use on_eof_total [OF Cons.prems] Cons.prems in auto)
qed simp

lemma driver_finishes:
  assumes "inv v" and "p \<in> set ps" and "final_poll p"
  shows "(\<exists>w. inv w \<and> consume_sync V v ps = Inr (Finished (into_output V w))) \<or>
         (\<exists>err. consume_sync V v ps = Inr (ReadFailed err) \<and> Event (Some (ReadError err)) \<in> set ps)"
proof -
  obtain r where "consume_sync V v ps = Inr r" and r: "case r of Finished out \<Rightarrow> \<exists>w. inv w \<and> out = into_output V w
      | ReadFailed err \<Rightarrow> Event (Some (ReadError err)) \<in> set ps
      | Waiting w \<Rightarrow> inv w \<and> (\<forall>p\<in>set ps. \<not> final_poll p)"
    using driver_total [OF assms(1), of ps] by blast
  then show ?thesis using assms(2,3) by (cases r) auto
qed

end

locale line_contract =
  fixes L :: "('s, 'out) line_visitor" and linv :: "'s \<Rightarrow> bool"
  assumes on_line_total: "linv s \<Longrightarrow> \<exists>nx s'. on_line L s l = Inr (nx, s') \<and> linv s'"
    and line_on_gap_inv: "linv s \<Longrightarrow> linv (line_on_gap L s)"
    and line_on_eof_total: "linv s \<Longrightarrow> \<exists>s'. line_on_eof L s = Inr s' \<and> linv s'"
begin

lemma visit_chunk_loop_total:
  assumes "byte_deps_ok d"
  shows "parser_ok options p \<Longrightarrow> linv s \<Longrightarrow>
    \<exists>nx p' s'. visit_chunk_loop d L options p s bs = Inr (nx, p', s') \<and> parser_ok options p' \<and> linv s'"
proof (induction "drain_measure p bs" arbitrary: p s bs rule: less_induct)
  case less
  obtain r rest p' where r: "next_line d options p bs = Inr (r, rest, p')" "parser_ok options p'"
    using next_line_sim [OF assms less.prems(1), of bs] by (auto simp: next_line_sim_def)
  show ?case
  proof (cases r)
    case None
    then show ?thesis using r less.prems by (subst visit_chunk_loop.simps) simp
  next
    case (Some l)
    obtain nx s' where s': "on_line L s l = Inr (nx, s')" "linv s'"
      using on_line_total [OF less.prems(2)] by blast
    have "drain_measure p' rest < drain_measure p bs"
      using next_line_measure r(1) Some by blast
    from less.hyps [OF this r(2) s'(2)] show ?thesis
      using r Some s' by (subst visit_chunk_loop.simps) (cases nx, auto)
  qed
qed

end

text \<open>Under the adapter, a line visitor that meets its contract is a stream visitor that meets its
  own, with the byte routines behaving as documented and the parser well-formed.\<close>

definition parse_lines_inv :: "byte_deps \<Rightarrow> ('s \<Rightarrow> bool) \<Rightarrow> 's parse_lines \<Rightarrow> bool" where
  "parse_lines_inv d I v \<longleftrightarrow> byte_deps_ok d \<and> parser_ok (pl_options v) (pl_parser v) \<and> I (pl_inner v)"

sublocale line_contract \<subseteq> parsed: visitor_contract "parse_lines_visitor d L" "parse_lines_inv d linv"
  for d
proof
  fix v :: "'s parse_lines" and c
  assume "parse_lines_inv d linv v"
  then have deps: "byte_deps_ok d" and inv: "parser_ok (pl_options v) (pl_parser v) \<and> linv (pl_inner v)"
    by (simp_all add: parse_lines_inv_def)
  show "\<exists>nx v'. on_chunk (parse_lines_visitor d L) v c = Inr (nx, v') \<and> parse_lines_inv d linv v'"
    using visit_chunk_loop_total [OF deps, of "pl_options v" "pl_parser v" "pl_inner v" c] inv deps
    by (auto simp: parse_lines_visitor_def parse_lines_on_chunk_def parse_lines_inv_def)
  show "parse_lines_inv d linv (on_gap (parse_lines_visitor d L) v)"
    using deps inv line_on_gap_inv
    by (simp add: parse_lines_visitor_def parse_lines_on_gap_def parse_lines_inv_def)
  obtain t p' where fin: "finish (pl_parser v) = (t, p')" by (cases "finish (pl_parser v)")
  then have p': "parser_ok (pl_options v) p'"
    using inv by (auto simp: finish_def case_prod_beta split: if_splits)
  obtain s1 where s1: "(case t of None \<Rightarrow> Inr (pl_inner v)
               | Some line \<Rightarrow> (case on_line L (pl_inner v) line of
                                 Inl e \<Rightarrow> Inl e | Inr (_, inner') \<Rightarrow> Inr inner')) = Inr s1" "linv s1"
  proof (cases t)
    case None
    then show ?thesis using that inv by simp
  next
    case (Some l)
    then show ?thesis using that on_line_total [of "pl_inner v" l] inv by auto
  qed
  obtain s2 where "line_on_eof L s1 = Inr s2" "linv s2" using line_on_eof_total [OF s1(2)] by blast
  then show "\<exists>v'. on_eof (parse_lines_visitor d L) v = Inr v' \<and> parse_lines_inv d linv v'"
    using fin s1 p' deps by (simp add: parse_lines_visitor_def parse_lines_on_eof_def parse_lines_inv_def)
qed

section \<open>Lines seen by a visitor\<close>

text \<open>Handing lines to a line visitor one after the other, until it breaks.\<close>

fun visit_lines :: "('s, 'out) line_visitor \<Rightarrow> 's \<Rightarrow> bytes list \<Rightarrow> (next_t \<times> 's) outcome" where
  "visit_lines L s [] = Inr (Continue, s)"
| "visit_lines L s (l # ls) =
     (case on_line L s l of
        Inl e \<Rightarrow> Inl e
      | Inr (Break, s') \<Rightarrow> Inr (Break, s')
      | Inr (Continue, s') \<Rightarrow> visit_lines L s' ls)"

lemma visit_lines_append:
  "visit_lines L s (ls @ ls') =
     (case visit_lines L s ls of
        Inl e \<Rightarrow> Inl e
      | Inr (Break, s') \<Rightarrow> Inr (Break, s')
      | Inr (Continue, s') \<Rightarrow> visit_lines L s' ls')"
  by (induction L s ls rule: visit_lines.induct) (auto split: sum.splits prod.splits next_t.splits)

text \<open>The adapter's loop hands the inner visitor the lines of the chunk; when the visitor breaks the
  rest of the chunk is not looked at, so only the inner state is determined.\<close>

lemma visit_chunk_loop_lines:
  assumes "drain_chunk d options p bs = Inr (ls, p')"
  shows "case visit_lines L s ls of
           Inl e \<Rightarrow> visit_chunk_loop d L options p s bs = Inl e
         | Inr (Break, s') \<Rightarrow> \<exists>q. visit_chunk_loop d L options p s bs = Inr (Break, q, s')
         | Inr (Continue, s') \<Rightarrow> visit_chunk_loop d L options p s bs = Inr (Continue, p', s')"
  using assms
proof (induction d options p bs arbitrary: ls s rule: drain_chunk.induct)
  case (1 d options p bs)
  obtain r rest q where n: "next_line d options p bs = Inr (r, rest, q)"
    using "1.prems" by (auto simp: drain_chunk.simps [of d options p] split: sum.splits)
  show ?case
  proof (cases r)
    case None
    then show ?thesis
      using "1.prems" n by (simp add: drain_chunk.simps [of d options p] visit_chunk_loop.simps [of d L options p])
  next
    case (Some l)
    then obtain ls' where ls': "drain_chunk d options q rest = Inr (ls', p')" "ls = l # ls'"
      using "1.prems" n by (auto simp: drain_chunk.simps [of d options p] split: sum.splits)
    note IH = "1.IH" [OF n refl Some refl ls'(1)]
    show ?thesis
    proof (cases "on_line L s l")
      case (Inl e)
      then show ?thesis using n Some ls' by (simp add: visit_chunk_loop.simps [of d L options p])
    next
      case (Inr x)
      obtain nx b where x: "x = (nx, b)" by (cases x)
      have step: "visit_chunk_loop d L options p s bs =
          (case nx of Break \<Rightarrow> Inr (Break, q, b) | Continue \<Rightarrow> visit_chunk_loop d L options q b rest)"
        using n Some Inr x by (subst visit_chunk_loop.simps) (simp split: next_t.split)
      show ?thesis
      proof (cases nx)
        case Break
        then show ?thesis using step ls' Inr x by simp
      next
        case Continue
        then have eq: "visit_chunk_loop d L options p s bs = visit_chunk_loop d L options q b rest"
          using step by simp
        show ?thesis unfolding eq using ls' IH [of b] Inr x Continue by simp
      qed
    qed
  qed
qed

text \<open>What a parsing visitor has produced when the stream ends: the lines of all chunks are visited in
  order; unless the visitor broke off, the trailing unterminated line is visited too (what the
  visitor answers there no longer matters) and \<open>on_eof\<close> runs.\<close>

definition close_lines :: "('s, 'out) line_visitor \<Rightarrow> 's \<Rightarrow> bytes list \<Rightarrow> 's outcome" where
  "close_lines L s trailing =
     (case visit_lines L s trailing of Inl e \<Rightarrow> Inl e | Inr (_, s') \<Rightarrow> line_on_eof L s')"

definition visit_stream :: "('s, 'out) line_visitor \<Rightarrow> 's \<Rightarrow> bytes list \<Rightarrow> bytes list \<Rightarrow> 'out outcome" where
  "visit_stream L s complete trailing =
     (case visit_lines L s complete of
        Inl e \<Rightarrow> Inl e
      | Inr (Break, s') \<Rightarrow> Inr (line_into_output L s')
      | Inr (Continue, s') \<Rightarrow>
          (case close_lines L s' trailing of Inl e \<Rightarrow> Inl e | Inr s'' \<Rightarrow> Inr (line_into_output L s'')))"

fun input_event :: "input \<Rightarrow> stream_event" where
  "input_event (InChunk c) = Chunk c"
| "input_event InGap = Gap"

abbreviation finished :: "'out outcome \<Rightarrow> ('v, 'out) driver_state outcome" where
  "finished r \<equiv> (case r of Inl e \<Rightarrow> Inl e | Inr out \<Rightarrow> Inr (Finished out))"

lemma parse_lines_on_eof_close:
  "on_eof (parse_lines_visitor d L) v = Inr v' \<Longrightarrow>
   close_lines L (pl_inner v) (map decode_line_lossy (flush (lstate (pl_parser v)))) = Inr (pl_inner v')"
  "on_eof (parse_lines_visitor d L) v = Inl e \<Longrightarrow>
   close_lines L (pl_inner v) (map decode_line_lossy (flush (lstate (pl_parser v)))) = Inl e"
  by (auto simp: parse_lines_visitor_def parse_lines_on_eof_def close_lines_def finish_def flush_def
      case_prod_beta split: sum.splits if_splits next_t.splits)

text \<open>One chunk through the adapter: the inner visitor sees the lines the chunk completes, and the
  adapter keeps the parser for the bytes after them.\<close>

abbreviation chunk_lines :: "'s parse_lines \<Rightarrow> bytes \<Rightarrow> string list" where
  "chunk_lines v c \<equiv> map decode_line_lossy (fst (run (pl_options v) (lstate (pl_parser v)) c))"

lemma parse_lines_on_chunk_lines [consumes 2, case_names Err Stop More]:
  assumes "byte_deps_ok d" and "parser_ok (pl_options v) (pl_parser v)"
  obtains e where "visit_lines L (pl_inner v) (chunk_lines v c) = Inl e" "on_chunk (parse_lines_visitor d L) v c = Inl e"
  | s' v' where "visit_lines L (pl_inner v) (chunk_lines v c) = Inr (Break, s')"
      "on_chunk (parse_lines_visitor d L) v c = Inr (Break, v')" "pl_inner v' = s'"
  | s' p' where "visit_lines L (pl_inner v) (chunk_lines v c) = Inr (Continue, s')"
      "on_chunk (parse_lines_visitor d L) v c = Inr (Continue, v\<lparr>pl_parser := p', pl_inner := s'\<rparr>)"
      "lstate p' = snd (run (pl_options v) (lstate (pl_parser v)) c)" "parser_ok (pl_options v) p'"
proof -
  obtain p' where p': "drain_chunk d (pl_options v) (pl_parser v) c = Inr (chunk_lines v c, p')"
      "lstate p' = snd (run (pl_options v) (lstate (pl_parser v)) c)"
    using drain_chunk_sim [OF assms] by blast
  have ok: "parser_ok (pl_options v) p'"
    unfolding p'(2) using assms(2) by (rule run_lstate_ok)
  note loop = visit_chunk_loop_lines [OF p'(1), of L "pl_inner v"]
  consider e where "visit_lines L (pl_inner v) (chunk_lines v c) = Inl e"
    | s' where "visit_lines L (pl_inner v) (chunk_lines v c) = Inr (Break, s')"
    | s' where "visit_lines L (pl_inner v) (chunk_lines v c) = Inr (Continue, s')"
    by (cases "visit_lines L (pl_inner v) (chunk_lines v c)") (auto intro: next_t.exhaust)
  then show ?thesis
  proof cases
    case 1
    with loop show ?thesis by (intro that(1)) (simp_all add: parse_lines_visitor_def parse_lines_on_chunk_def)
  next
    case (2 s')
    with loop obtain q where "visit_chunk_loop d L (pl_options v) (pl_parser v) (pl_inner v) c = Inr (Break, q, s')" by auto
    with 2 show ?thesis
      by (intro that(2) [where v' = "v\<lparr>pl_parser := q, pl_inner := s'\<rparr>"])
        (simp_all add: parse_lines_visitor_def parse_lines_on_chunk_def)
  next
    case 3
    with loop show ?thesis
      by (intro that(3) [OF 3 _ p'(2) ok]) (simp_all add: parse_lines_visitor_def parse_lines_on_chunk_def)
  qed
qed

lemma consume_parsed_lines:
  assumes "byte_deps_ok d" and "\<And>s. line_on_gap L s = s" and "ev = Some Eof \<or> ev = None"
  shows "parser_ok (pl_options v) (pl_parser v) \<Longrightarrow>
    r = run_inputs (pl_options v) (lstate (pl_parser v)) is \<Longrightarrow>
    consume_sync (parse_lines_visitor d L) v (map (Event \<circ> Some \<circ> input_event) is @ Event ev # ps)
      = finished (visit_stream L (pl_inner v) (map decode_line_lossy (fst r)) (map decode_line_lossy (flush (snd r))))"
proof (induction "is" arbitrary: v r)
  case Nil
  then show ?case
    using assms(3) parse_lines_on_eof_close [of d L v]
    by (cases "on_eof (parse_lines_visitor d L) v")
      (auto simp: visit_stream_def, auto simp: parse_lines_visitor_def parse_lines_into_output_def)
next
  case (Cons i "is")
  show ?case
  proof (cases i)
    case InGap
    then show ?thesis
      using Cons.IH [of "v\<lparr>pl_parser := parser_on_gap (pl_parser v), pl_inner := pl_inner v\<rparr>" r] Cons.prems assms(2)
      by (simp add: parse_lines_visitor_def parse_lines_on_gap_def)
  next
    case (InChunk c)
    from assms(1) Cons.prems(1) show ?thesis
    proof (cases rule: parse_lines_on_chunk_lines [where L = L and c = c])
      case (Err e)
      then show ?thesis
        using Cons.prems(2) InChunk by (simp add: visit_stream_def visit_lines_append)
    next
      case (Stop s' v')
      then show ?thesis
        using Cons.prems(2) InChunk
        by (simp add: visit_stream_def visit_lines_append) (simp add: parse_lines_visitor_def parse_lines_into_output_def)
    next
      case (More s' p')
      then show ?thesis
        using Cons.IH [of "v\<lparr>pl_parser := p', pl_inner := s'\<rparr>" "run_inputs (pl_options v) (lstate p') is"]
          Cons.prems(2) InChunk
        by (simp add: visit_stream_def visit_lines_append)
    qed
  qed
qed

end
