(* ===== verification/Consumer.thy ===== *)
theory Consumer
  imports Visitors
begin

text \<open>
  The consumer handle of \<open>consumer/mod.rs\<close> and its creation in \<open>consumer/driver.rs\<close>.  A handle owns a
  task and the sender of its cancellation signal; \<open>wait\<close>, \<open>abort\<close> and \<open>cancel\<close> consume the handle through a
  guard whose destructor aborts what is still running.  Ownership is explicit: the handle and the
  guard hold the task or not, the sender or not, and every operation returns what it did to the task
  as a list of effects.  How an awaited task ended (\<open>join_result\<close>) is tokio's answer and an argument.
\<close>

text \<open>A join error is a panic or an abort of the task; its payload is not looked at by the code.\<close>

datatype join_error = TaskPanicked | TaskAborted

type_synonym 's join_result = "join_error + (stream_read_error + 's)"

datatype consumer_error = TaskJoin string join_error | StreamRead stream_read_error

datatype 's consumer_cancel_outcome = Cancelled 's | Aborted

definition into_cancelled :: "'s consumer_cancel_outcome \<Rightarrow> 's option" where
  "into_cancelled c = (case c of Cancelled sink \<Rightarrow> Some sink | Aborted \<Rightarrow> None)"

definition expect_cancelled :: "'s consumer_cancel_outcome \<Rightarrow> string \<Rightarrow> 's outcome" where
  "expect_cancelled c message = (case into_cancelled c of Some sink \<Rightarrow> Inr sink | None \<Rightarrow> Inl (ExpectFailed message))"

text \<open>What a handle does to its task.\<close>

datatype effect = SendTermination | AbortTask | AwaitTask

record consumer =
  c_stream_name :: string
  c_task :: bool
  c_termination_sender :: bool

text \<open>\<open>wg_joined\<close>: the guard's join handle has already answered; awaiting it again panics in tokio.\<close>

record wait_guard =
  wg_task :: bool
  wg_joined :: bool
  wg_termination_sender :: bool

text \<open>Spawning gives the handle and the task: the driver loop, waiting for what it will poll.\<close>

type_synonym ('v, 'out) driver_task = "poll list \<Rightarrow> ('v, 'out) driver_state outcome"

definition spawn_consumer_sync ::
  "string \<Rightarrow> ('v, 'out) stream_visitor \<Rightarrow> 'v \<Rightarrow> consumer \<times> ('v, 'out) driver_task" where
  "spawn_consumer_sync stream_name V visitor =
     (\<lparr>c_stream_name = stream_name, c_task = True, c_termination_sender = True\<rparr>, consume_sync V visitor)"

definition spawn_consumer_async ::
  "string \<Rightarrow> ('v, 'out) stream_visitor \<Rightarrow> 'v \<Rightarrow> consumer \<times> ('v, 'out) driver_task" where
  "spawn_consumer_async stream_name V visitor =
     (\<lparr>c_stream_name = stream_name, c_task = True, c_termination_sender = True\<rparr>, consume_async V visitor)"

text \<open>The default methods of \<open>Consumable\<close>: subscribe, or pass on the backend's refusal, and spawn.\<close>

definition consumable_consume ::
  "string \<Rightarrow> 'err + 'sub \<Rightarrow> ('v, 'out) stream_visitor \<Rightarrow> 'v \<Rightarrow> 'err + (consumer \<times> ('v, 'out) driver_task) \<times> 'sub" where
  "consumable_consume name try_subscribe V visitor =
     (case try_subscribe of Inl e \<Rightarrow> Inl e | Inr subscription \<Rightarrow> Inr (spawn_consumer_sync name V visitor, subscription))"

definition consumable_consume_async ::
  "string \<Rightarrow> 'err + 'sub \<Rightarrow> ('v, 'out) stream_visitor \<Rightarrow> 'v \<Rightarrow> 'err + (consumer \<times> ('v, 'out) driver_task) \<times> 'sub" where
  "consumable_consume_async name try_subscribe V visitor =
     (case try_subscribe of Inl e \<Rightarrow> Inl e | Inr subscription \<Rightarrow> Inr (spawn_consumer_async name V visitor, subscription))"

section \<open>The guard\<close>

definition guard_cancel :: "wait_guard \<Rightarrow> (wait_guard \<times> effect list) outcome" where
  "guard_cancel g =
     (if wg_termination_sender g then Inr (g\<lparr>wg_termination_sender := False\<rparr>, [SendTermination])
      else Inl (ExpectFailed ''`task_termination_sender` to be present.''))"

definition join_again :: panic where
  "join_again = ExplicitPanic ''JoinHandle polled after completion''"

text \<open>A join error returns before the guard is cleared, a read error only after.\<close>

definition guard_wait ::
  "wait_guard \<Rightarrow> string \<Rightarrow> 's join_result \<Rightarrow> ((consumer_error + 's) \<times> wait_guard \<times> effect list) outcome" where
  "guard_wait g stream_name joined =
     (if \<not> wg_task g then Inl (ExpectFailed ''`task` to be present.'')
      else if wg_joined g then Inl join_again
      else (case joined of
              Inl err \<Rightarrow> Inr (Inl (TaskJoin stream_name err), g\<lparr>wg_joined := True\<rparr>, [AwaitTask])
            | Inr result \<Rightarrow>
                Inr (case result of Inl source \<Rightarrow> Inl (StreamRead source) | Inr sink \<Rightarrow> Inr sink,
                     g\<lparr>wg_task := False, wg_termination_sender := False\<rparr>, [AwaitTask])))"

definition guard_abort :: "wait_guard \<Rightarrow> (wait_guard \<times> effect list) outcome" where
  "guard_abort g =
     (if wg_task g \<and> wg_joined g then Inl join_again
      else Inr (g\<lparr>wg_termination_sender := False, wg_task := False\<rparr>,
        (if wg_termination_sender g then [SendTermination] else [])
          @ (if wg_task g then [AbortTask] else []) @ (if wg_task g then [AwaitTask] else [])))"

definition guard_drop :: "wait_guard \<Rightarrow> effect list" where
  "guard_drop g =
     (if wg_termination_sender g then [SendTermination] else []) @ (if wg_task g then [AbortTask] else [])"

section \<open>The handle\<close>

definition into_wait :: "consumer \<Rightarrow> wait_guard \<times> consumer" where
  "into_wait c =
     (\<lparr>wg_task = c_task c, wg_joined = False, wg_termination_sender = c_termination_sender c\<rparr>,
      c\<lparr>c_task := False, c_termination_sender := False\<rparr>)"

definition is_finished :: "consumer \<Rightarrow> bool \<Rightarrow> bool" where
  "is_finished c task_is_finished = (if c_task c then task_is_finished else True)"

definition consumer_drop :: "consumer \<Rightarrow> effect list" where
  "consumer_drop c =
     (if c_termination_sender c then [SendTermination] else []) @ (if c_task c then [AbortTask] else [])"

text \<open>The emptied handle is dropped when \<open>into_wait\<close> returns, the guard at the end of the operation.\<close>

definition consumer_wait :: "consumer \<Rightarrow> 's join_result \<Rightarrow> ((consumer_error + 's) \<times> effect list) outcome" where
  "consumer_wait c joined =
     (case into_wait c of (g, c') \<Rightarrow>
        (case guard_wait g (c_stream_name c) joined of
           Inl e \<Rightarrow> Inl e
         | Inr (r, g', es) \<Rightarrow> Inr (r, consumer_drop c' @ es @ guard_drop g')))"

definition consumer_abort :: "consumer \<Rightarrow> effect list outcome" where
  "consumer_abort c =
     (case into_wait c of (g, c') \<Rightarrow>
        (case guard_abort g of
           Inl e \<Rightarrow> Inl e
         | Inr (g', es) \<Rightarrow> Inr (consumer_drop c' @ es @ guard_drop g')))"

text \<open>\<open>wait_until\<close> races the task against the deadline; \<open>None\<close> stands for the deadline passing first.\<close>

definition wait_until ::
  "wait_guard \<Rightarrow> string \<Rightarrow> 's join_result option \<Rightarrow> ((consumer_error + 's option) \<times> wait_guard \<times> effect list) outcome" where
  "wait_until g stream_name raced =
     (case raced of
        Some joined \<Rightarrow>
          (case guard_wait g stream_name joined of
             Inl e \<Rightarrow> Inl e
           | Inr (r, g', es) \<Rightarrow> Inr (case r of Inl err \<Rightarrow> Inl err | Inr sink \<Rightarrow> Inr (Some sink), g', es))
      | None \<Rightarrow> (case guard_abort g of Inl e \<Rightarrow> Inl e | Inr (g', es) \<Rightarrow> Inr (Inr None, g', es)))"

definition consumer_cancel ::
  "consumer \<Rightarrow> 's join_result option \<Rightarrow> ((consumer_error + 's consumer_cancel_outcome) \<times> effect list) outcome" where
  "consumer_cancel c raced =
     (case into_wait c of (g, c') \<Rightarrow>
        (case guard_cancel g of
           Inl e \<Rightarrow> Inl e
         | Inr (g1, es1) \<Rightarrow>
             (case wait_until g1 (c_stream_name c) raced of
                Inl e \<Rightarrow> Inl e
              | Inr (r, g2, es2) \<Rightarrow>
                  Inr (case r of
                         Inl err \<Rightarrow> Inl err
                       | Inr (Some sink) \<Rightarrow> Inr (Cancelled sink)
                       | Inr None \<Rightarrow> Inr Aborted,
                       consumer_drop c' @ es1 @ es2 @ guard_drop g2))))"

section \<open>Properties of the handle\<close>

text \<open>How the driver's end reaches the handle when the task neither panicked nor was aborted.\<close>

fun driver_join :: "('v, 'out) driver_state \<Rightarrow> 'out join_result option" where
  "driver_join (Finished out) = Some (Inr (Inr out))"
| "driver_join (ReadFailed err) = Some (Inr (Inl err))"
| "driver_join (Waiting v) = None"

lemma spawned_consumer [simp]:
  "fst (spawn_consumer_sync name V v) = \<lparr>c_stream_name = name, c_task = True, c_termination_sender = True\<rparr>"
  "snd (spawn_consumer_sync name V v) = consume_sync V v"
  by (simp_all add: spawn_consumer_sync_def)

lemmas handle_defs = consumer_wait_def consumer_cancel_def consumer_abort_def consumer_drop_def into_wait_def wait_until_def
  guard_wait_def guard_cancel_def guard_abort_def guard_drop_def

text \<open>What a caller should get from a driver that ended.\<close>

fun driver_result :: "('v, 'out) driver_state \<Rightarrow> (consumer_error + 'out) option" where
  "driver_result (Finished out) = Some (Inr out)"
| "driver_result (ReadFailed err) = Some (Inl (StreamRead err))"
| "driver_result (Waiting v) = None"

text \<open>Waiting on a spawned consumer returns exactly what its driver ended with, the visitor's output
  or the read error of the stream, and does nothing to the task but await it; if the task panicked
  or was aborted, the join error is returned.  It never panics.\<close>

theorem consumer_wait_result:
  fixes V :: "('v, 'out) stream_visitor"
  assumes "spawn_consumer_sync name V v = (c, task)"
    and "task polls = Inr ds" and "driver_join ds = Some joined"
  shows "task = consume_sync V v \<and>
     (\<exists>r. driver_result ds = Some r \<and> consumer_wait c joined = Inr (r, [AwaitTask])) \<and>
     consumer_wait c (Inl err :: 'out join_result) = Inr (Inl (TaskJoin name err), [AwaitTask, SendTermination, AbortTask])"
  using assms by (cases ds) (auto simp: spawn_consumer_sync_def handle_defs)

text \<open>A visitor that counts chunks, for concrete runs.\<close>

definition count_visitor :: "(nat, nat) stream_visitor" where
  "count_visitor = \<lparr>on_chunk = (\<lambda>n c. Inr (Continue, n + 1)), on_gap = (\<lambda>n. n), on_eof = Inr, into_output = (\<lambda>n. n)\<rparr>"

theorem consumer_wait_result_witness:
  "\<exists>c. consumer_wait c (Inr (Inr 1)) = Inr (Inr (1 :: nat), [AwaitTask]) \<and>
     fst (spawn_consumer_sync ''stdout'' count_visitor 0) = c"
  using consumer_wait_result [OF surjective_pairing, of "''stdout''" count_visitor 0
      "[Event (Some (Chunk ''a'')), Event (Some Eof)]" "Finished 1" "Inr (Inr 1)" TaskPanicked] by (simp add: count_visitor_def)

text \<open>Cancelling a spawned consumer never panics and always sends the cancellation signal first;
  it returns the sink exactly when the task ended in time, and otherwise has aborted the task and
  awaited its end, so no task is left running either way.\<close>

theorem consumer_cancel_result:
  "\<exists>r es. consumer_cancel (fst (spawn_consumer_sync name V v)) raced = Inr (r, SendTermination # es) \<and>
     (\<forall>sink. r = Inr (Cancelled sink) \<longleftrightarrow> raced = Some (Inr (Inr sink))) \<and>
     (r = Inr Aborted \<longleftrightarrow> raced = None) \<and>
     (raced = None \<longrightarrow> es = [AbortTask, AwaitTask]) \<and> (raced \<noteq> None \<longrightarrow> hd es = AwaitTask)"
  by (cases raced) (auto simp: handle_defs split: sum.splits)

theorem consumer_cancel_result_witness:
  "\<exists>r es. consumer_cancel (fst (spawn_consumer_sync ''stdout'' count_visitor 0)) (Some (Inr (Inr (7 :: nat)))) = Inr (r, SendTermination # es) \<and>
     r = Inr (Cancelled 7)"
  using consumer_cancel_result [of "''stdout''" count_visitor 0 "Some (Inr (Inr (7 :: nat)))"] by auto

lemma consumer_abort_effects: "consumer_abort (fst (spawn_consumer_sync name V v)) = Inr [SendTermination, AbortTask, AwaitTask]"
  by (simp add: handle_defs)

lemma consumer_drop_effects: "consumer_drop (fst (spawn_consumer_sync name V v)) = [SendTermination, AbortTask]"
  by (simp add: handle_defs)

lemma consume_refused: "consumable_consume name (Inl e) V v = Inl e"
  by (simp add: consumable_consume_def)

end
