(* ===== verification/Process_Errors.thy ===== *)
theory Process_Errors
  imports Consumer
begin

text \<open>
  The error and result types of process operations (\<open>error.rs\<close>) and the accumulator of termination
  errors (\<open>termination/diagnostics.rs\<close>).  A boxed source error is the union of the errors the library
  boxes there; the error of a refused subscription depends on the stream backend and is a type
  parameter.  Every conversion that asserts or expects returns an \<open>outcome\<close>.
\<close>

section \<open>Durations\<close>

definition from_secs :: "nat \<Rightarrow> duration" where
  "from_secs n = n * 1000000000"

definition from_millis :: "nat \<Rightarrow> duration" where
  "from_millis n = n * 1000000"

text \<open>The largest \<open>Duration\<close>, and its checked sum (\<open>iter::Sum\<close> panics on overflow).\<close>

definition duration_max :: duration where
  "duration_max = (2 ^ 64 - 1) * 1000000000 + 999999999"

fun duration_sum :: "duration \<Rightarrow> duration list \<Rightarrow> duration outcome" where
  "duration_sum acc [] = Inr acc"
| "duration_sum acc (d # ds) =
     (if acc + d \<le> duration_max then duration_sum (acc + d) ds
      else Inl (ExpectFailed ''overflow in iter::sum over durations''))"

lemma duration_sum_conv:
  "acc \<le> duration_max \<Longrightarrow>
   duration_sum acc ds =
     (if acc + sum_list ds \<le> duration_max then Inr (acc + sum_list ds)
      else Inl (ExpectFailed ''overflow in iter::sum over durations''))"
  by (induction ds arbitrary: acc) (auto simp: add.assoc)

text \<open>The decimal digits of a number, and those of a fraction without its trailing zeros: \<open>divisor\<close> is the
  weight of the next digit.\<close>

definition digit_char :: "nat \<Rightarrow> char" where
  "digit_char d = ''0123456789'' ! d"

fun decimal :: "nat \<Rightarrow> string" where
  "decimal n = (if n < 10 then [digit_char n] else decimal (n div 10) @ [digit_char (n mod 10)])"

fun fraction_digits :: "nat \<Rightarrow> nat \<Rightarrow> string" where
  "fraction_digits n divisor =
     (if n = 0 \<or> divisor = 0 then []
      else digit_char (n div divisor) # fraction_digits (n mod divisor) (divisor div 10))"

declare decimal.simps [simp del] fraction_digits.simps [simp del]

text \<open>\<open>Duration\<close>'s \<open>Debug\<close> format: the largest unit in which the value is at least one.\<close>

definition debug_decimal :: "nat \<Rightarrow> nat \<Rightarrow> nat \<Rightarrow> string \<Rightarrow> string" where
  "debug_decimal whole frac divisor unit_suffix =
     decimal whole @ (if frac = 0 then [] else CHR ''.'' # fraction_digits frac divisor) @ unit_suffix"

definition debug_duration :: "duration \<Rightarrow> string" where
  "debug_duration d =
     (if d \<ge> 1000000000 then debug_decimal (d div 1000000000) (d mod 1000000000) 100000000 ''s''
      else if d \<ge> 1000000 then debug_decimal (d div 1000000) (d mod 1000000) 100000 ''ms''
      else if d \<ge> 1000 then debug_decimal (d div 1000) (d mod 1000) 100 [CHR 0xC2, CHR 0xB5, CHR ''s'']
      else debug_decimal d 0 1 ''ns'')"

lemma debug_duration_examples:
  "debug_duration (from_secs 3) = ''3s''"
  "debug_duration (from_millis 100) = ''100ms''"
  "debug_duration (from_millis 1500) = ''1.5s''"
  "debug_duration 0 = ''0ns''"
  by (simp_all add: debug_duration_def from_secs_def from_millis_def debug_decimal_def decimal.simps
      fraction_digits.simps digit_char_def)

section \<open>Termination errors\<close>

datatype termination_action = CheckStatus | SendSignal string | WaitForExit

definition display_action :: "termination_action \<Rightarrow> string" where
  "display_action a =
     (case a of CheckStatus \<Rightarrow> ''status check''
      | SendSignal signal_name \<Rightarrow> ''send signal '' @ signal_name
      | WaitForExit \<Rightarrow> ''exit wait'')"

datatype wait_error = WaitIoError string io_error

text \<open>The two errors the library boxes into an attempt error.\<close>

datatype attempt_source = IoSource io_error | WaitSource wait_error

record termination_attempt_error =
  action :: termination_action
  attempt_source :: attempt_source

datatype termination_error =
    SignalFailed string "termination_attempt_error list"
  | TerminationFailed string "termination_attempt_error list"

definition termination_process_name :: "termination_error \<Rightarrow> string" where
  "termination_process_name e =
     (case e of SignalFailed process_name _ \<Rightarrow> process_name | TerminationFailed process_name _ \<Rightarrow> process_name)"

definition attempt_errors :: "termination_error \<Rightarrow> termination_attempt_error list" where
  "attempt_errors e = (case e of SignalFailed _ errs \<Rightarrow> errs | TerminationFailed _ errs \<Rightarrow> errs)"

lemma termination_error_accessors [simp]:
  "termination_process_name (SignalFailed n errs) = n"
  "termination_process_name (TerminationFailed n errs) = n"
  "attempt_errors (SignalFailed n errs) = errs"
  "attempt_errors (TerminationFailed n errs) = errs"
  by (simp_all add: termination_process_name_def attempt_errors_def)

text \<open>The numbered list of attempts in an error's message.\<close>

definition display_attempt_error :: "termination_attempt_error \<Rightarrow> string" where
  "display_attempt_error e = display_action (action e) @ '' failed''"

fun display_attempts_from :: "nat \<Rightarrow> termination_attempt_error list \<Rightarrow> string" where
  "display_attempts_from index [] = []"
| "display_attempts_from index (e # es) =
     '' ['' @ decimal (index + 1) @ ''] '' @ display_attempt_error e @ display_attempts_from (index + 1) es"

definition display_attempt_errors :: "termination_attempt_error list \<Rightarrow> string" where
  "display_attempt_errors es =
     (if es = [] then '' No attempt error was recorded.''
      else '' Attempt errors:'' @ display_attempts_from 0 es)"

definition quoted :: "string \<Rightarrow> string" where
  "quoted s = [CHR 0x27] @ s @ [CHR 0x27]"

definition display_termination_error :: "termination_error \<Rightarrow> string" where
  "display_termination_error e =
     (case e of
        SignalFailed process_name errs \<Rightarrow>
          ''Failed to send signal to process '' @ quoted process_name @ ''.'' @ display_attempt_errors errs
      | TerminationFailed process_name errs \<Rightarrow>
          ''Failed to terminate process '' @ quoted process_name @ ''.'' @ display_attempt_errors errs)"

section \<open>The accumulator of attempt errors\<close>

type_synonym termination_diagnostics = "termination_attempt_error list"

definition record_attempt ::
  "termination_diagnostics \<Rightarrow> termination_action \<Rightarrow> attempt_source \<Rightarrow> termination_diagnostics" where
  "record_attempt diagnostics a e = diagnostics @ [\<lparr>action = a, attempt_source = e\<rparr>]"

definition into_termination_failed :: "termination_diagnostics \<Rightarrow> string \<Rightarrow> termination_error outcome" where
  "into_termination_failed diagnostics process_name =
     (if diagnostics \<noteq> [] then Inr (TerminationFailed process_name diagnostics)
      else Inl (AssertFailed ''into_termination_failed must not be used when no error was recorded!''))"

definition into_signal_failed :: "termination_diagnostics \<Rightarrow> string \<Rightarrow> termination_error outcome" where
  "into_signal_failed diagnostics process_name =
     (if diagnostics \<noteq> [] then Inr (SignalFailed process_name diagnostics)
      else Inl (AssertFailed ''into_signal_failed must not be used when no error was recorded!''))"

lemma record_attempt_not_Nil [simp]: "record_attempt ds a e \<noteq> []"
  by (simp add: record_attempt_def)

lemma into_failed_recorded [simp]:
  "into_termination_failed (record_attempt ds a e) n = Inr (TerminationFailed n (record_attempt ds a e))"
  "into_signal_failed (record_attempt ds a e) n = Inr (SignalFailed n (record_attempt ds a e))"
  by (simp_all add: into_termination_failed_def into_signal_failed_def)

section \<open>Results of waiting\<close>

text \<open>An exit status, as the raw status the operating system reports.\<close>

datatype exit_status = ExitStatus int

datatype 't wait_for_completion_result = Completed 't | WaitTimedOut duration

definition into_completed :: "'t wait_for_completion_result \<Rightarrow> 't option" where
  "into_completed r = (case r of Completed value \<Rightarrow> Some value | WaitTimedOut _ \<Rightarrow> None)"

definition expect_completed :: "'t wait_for_completion_result \<Rightarrow> string \<Rightarrow> 't outcome" where
  "expect_completed r message =
     (case into_completed r of Some value \<Rightarrow> Inr value | None \<Rightarrow> Inl (ExpectFailed message))"

datatype 't wait_for_completion_or_terminate_result =
    CompletedInTime 't
  | TerminatedAfterTimeout 't duration

definition into_result :: "'t wait_for_completion_or_terminate_result \<Rightarrow> 't" where
  "into_result r = (case r of CompletedInTime value \<Rightarrow> value | TerminatedAfterTimeout value _ \<Rightarrow> value)"

definition or_terminate_into_completed :: "'t wait_for_completion_or_terminate_result \<Rightarrow> 't option" where
  "or_terminate_into_completed r =
     (case r of CompletedInTime value \<Rightarrow> Some value | TerminatedAfterTimeout _ _ \<Rightarrow> None)"

definition or_terminate_expect_completed ::
  "'t wait_for_completion_or_terminate_result \<Rightarrow> string \<Rightarrow> 't outcome" where
  "or_terminate_expect_completed r message =
     (case or_terminate_into_completed r of Some value \<Rightarrow> Inr value | None \<Rightarrow> Inl (ExpectFailed message))"

definition map_result ::
  "('t \<Rightarrow> 'u) \<Rightarrow> 't wait_for_completion_or_terminate_result \<Rightarrow> 'u wait_for_completion_or_terminate_result" where
  "map_result f r =
     (case r of CompletedInTime value \<Rightarrow> CompletedInTime (f value)
      | TerminatedAfterTimeout result timeout \<Rightarrow> TerminatedAfterTimeout (f result) timeout)"

lemma map_result_simps [simp]:
  "map_result f (CompletedInTime v) = CompletedInTime (f v)"
  "map_result f (TerminatedAfterTimeout v t) = TerminatedAfterTimeout (f v) t"
  by (simp_all add: map_result_def)

lemma into_result_map [simp]: "into_result (map_result f r) = f (into_result r)"
  by (cases r) (simp_all add: into_result_def)

datatype wait_or_terminate_error =
    WaitFailedTerminated string wait_error exit_status
  | WaitFailedTerminationFailed string wait_error termination_error
  | TerminationAfterTimeoutFailed string duration termination_error

datatype 'start wait_with_output_error =
    OutputWaitFailed wait_error
  | OutputWaitOrTerminateFailed wait_or_terminate_error
  | OutputCollectionTimeout string duration
  | OutputCollectionFailed string consumer_error
  | OutputCollectionStartFailed string 'start

datatype spawn_error = SpawnFailed string io_error | JobAttachmentFailed string io_error

end
