(* ===== verification/Shutdown.thy ===== *)
theory Shutdown
  imports Process_Errors
begin

text \<open>
  The graceful-shutdown policy of \<open>termination/shutdown.rs\<close>: the Unix sequence of signal phases, the single
  Windows phase, and the staged builder.  \<open>GracefulShutdown\<close> and its builder have one field per target
  (\<open>cfg(unix)\<close>, \<open>cfg(windows)\<close>), so they are datatypes with one constructor per target; the builder's
  type-state markers are phantom type parameters, as in the code.
\<close>

datatype platform = Unix | Windows | OtherPlatform

section \<open>Sequences\<close>

datatype unix_graceful_signal = Interrupt | Terminate

definition label :: "unix_graceful_signal \<Rightarrow> string" where
  "label s = (case s of Interrupt \<Rightarrow> ''SIGINT'' | Terminate \<Rightarrow> ''SIGTERM'')"

record unix_graceful_phase =
  phase_signal :: unix_graceful_signal
  phase_timeout :: duration

definition phase_interrupt :: "duration \<Rightarrow> unix_graceful_phase" where
  "phase_interrupt timeout = \<lparr>phase_signal = Interrupt, phase_timeout = timeout\<rparr>"

definition phase_terminate :: "duration \<Rightarrow> unix_graceful_phase" where
  "phase_terminate timeout = \<lparr>phase_signal = Terminate, phase_timeout = timeout\<rparr>"

datatype unix_graceful_shutdown = UnixGracefulShutdown (phases: "unix_graceful_phase list")

definition single_phase :: "unix_graceful_phase \<Rightarrow> unix_graceful_shutdown" where
  "single_phase phase = UnixGracefulShutdown [phase]"

definition terminate_only :: "duration \<Rightarrow> unix_graceful_shutdown" where
  "terminate_only timeout = single_phase (phase_terminate timeout)"

definition interrupt_only :: "duration \<Rightarrow> unix_graceful_shutdown" where
  "interrupt_only timeout = single_phase (phase_interrupt timeout)"

definition from_phases :: "unix_graceful_phase list \<Rightarrow> unix_graceful_shutdown outcome" where
  "from_phases ps =
     (if ps \<noteq> [] then Inr (UnixGracefulShutdown ps)
      else Inl (AssertFailed ''UnixGracefulShutdown must contain at least one phase''))"

definition unix_total_timeout :: "unix_graceful_shutdown \<Rightarrow> duration outcome" where
  "unix_total_timeout s = duration_sum 0 (map phase_timeout (phases s))"

datatype windows_graceful_shutdown = WindowsGracefulShutdown (windows_timeout: duration)

section \<open>The value and its builder\<close>

datatype graceful_shutdown =
    ShutdownOnUnix unix_graceful_shutdown
  | ShutdownOnWindows windows_graceful_shutdown

datatype unix_unset = UnixUnset
datatype unix_set = UnixSet
datatype both_set = BothSet

datatype 'state graceful_shutdown_builder =
    BuilderOnUnix "unix_graceful_shutdown option"
  | BuilderOnWindows windows_graceful_shutdown

definition shutdown_builder :: "bool \<Rightarrow> unix_unset graceful_shutdown_builder" where
  "shutdown_builder on_unix =
     (if on_unix then BuilderOnUnix None else BuilderOnWindows (WindowsGracefulShutdown 0))"

definition builder_unix ::
  "unix_unset graceful_shutdown_builder \<Rightarrow> unix_graceful_shutdown \<Rightarrow> unix_set graceful_shutdown_builder" where
  "builder_unix b sequence =
     (case b of BuilderOnUnix _ \<Rightarrow> BuilderOnUnix (Some sequence) | BuilderOnWindows w \<Rightarrow> BuilderOnWindows w)"

definition builder_unix_sigterm ::
  "unix_unset graceful_shutdown_builder \<Rightarrow> duration \<Rightarrow> unix_set graceful_shutdown_builder" where
  "builder_unix_sigterm b timeout =
     (case b of BuilderOnUnix _ \<Rightarrow> BuilderOnUnix (Some (terminate_only timeout))
      | BuilderOnWindows w \<Rightarrow> BuilderOnWindows w)"

definition builder_unix_sigint ::
  "unix_unset graceful_shutdown_builder \<Rightarrow> duration \<Rightarrow> unix_set graceful_shutdown_builder" where
  "builder_unix_sigint b timeout =
     (case b of BuilderOnUnix _ \<Rightarrow> BuilderOnUnix (Some (interrupt_only timeout))
      | BuilderOnWindows w \<Rightarrow> BuilderOnWindows w)"

definition builder_windows ::
  "unix_set graceful_shutdown_builder \<Rightarrow> windows_graceful_shutdown \<Rightarrow> both_set graceful_shutdown_builder" where
  "builder_windows b sequence =
     (case b of BuilderOnUnix u \<Rightarrow> BuilderOnUnix u | BuilderOnWindows _ \<Rightarrow> BuilderOnWindows sequence)"

definition builder_windows_ctrl_break ::
  "unix_set graceful_shutdown_builder \<Rightarrow> duration \<Rightarrow> both_set graceful_shutdown_builder" where
  "builder_windows_ctrl_break b timeout =
     (case b of BuilderOnUnix u \<Rightarrow> BuilderOnUnix u
      | BuilderOnWindows _ \<Rightarrow> BuilderOnWindows (WindowsGracefulShutdown timeout))"

definition builder_build :: "both_set graceful_shutdown_builder \<Rightarrow> graceful_shutdown outcome" where
  "builder_build b =
     (case b of
        BuilderOnUnix (Some u) \<Rightarrow> Inr (ShutdownOnUnix u)
      | BuilderOnUnix None \<Rightarrow> Inl (ExpectFailed ''UnixGracefulShutdown must be set before build()'')
      | BuilderOnWindows w \<Rightarrow> Inr (ShutdownOnWindows w))"

definition total_timeout :: "graceful_shutdown \<Rightarrow> duration outcome" where
  "total_timeout s =
     (case s of ShutdownOnUnix u \<Rightarrow> unix_total_timeout u | ShutdownOnWindows w \<Rightarrow> Inr (windows_timeout w))"

section \<open>Well-formed values\<close>

text \<open>The phases of a value, as steps with a label and a timeout, and the invariant of the type: a Unix
  sequence is never empty.\<close>

definition phase_timeouts :: "graceful_shutdown \<Rightarrow> duration list" where
  "phase_timeouts s =
     (case s of ShutdownOnUnix u \<Rightarrow> map phase_timeout (phases u) | ShutdownOnWindows w \<Rightarrow> [windows_timeout w])"

definition shutdown_ok :: "graceful_shutdown \<Rightarrow> bool" where
  "shutdown_ok s \<longleftrightarrow> phase_timeouts s \<noteq> []"

definition unix_ok :: "unix_graceful_shutdown \<Rightarrow> bool" where
  "unix_ok u \<longleftrightarrow> phases u \<noteq> []"

lemma constructors_unix_ok [simp]:
  "unix_ok (terminate_only t)" "unix_ok (interrupt_only t)" "unix_ok (single_phase p)"
  "from_phases ps = Inr u \<Longrightarrow> unix_ok u"
  by (auto simp: unix_ok_def terminate_only_def interrupt_only_def single_phase_def from_phases_def
      split: if_splits)

text \<open>The three ways of the builder to set the Unix sequence, and the two to set the Windows one.\<close>

datatype unix_choice = UseUnix unix_graceful_shutdown | UseSigterm duration | UseSigint duration
datatype windows_choice = UseWindows windows_graceful_shutdown | UseCtrlBreak duration

fun choose_unix :: "unix_choice \<Rightarrow> unix_unset graceful_shutdown_builder \<Rightarrow> unix_set graceful_shutdown_builder" where
  "choose_unix (UseUnix u) b = builder_unix b u"
| "choose_unix (UseSigterm t) b = builder_unix_sigterm b t"
| "choose_unix (UseSigint t) b = builder_unix_sigint b t"

fun choose_windows :: "windows_choice \<Rightarrow> unix_set graceful_shutdown_builder \<Rightarrow> both_set graceful_shutdown_builder" where
  "choose_windows (UseWindows w) b = builder_windows b w"
| "choose_windows (UseCtrlBreak t) b = builder_windows_ctrl_break b t"

fun chosen_unix :: "unix_choice \<Rightarrow> unix_graceful_shutdown" where
  "chosen_unix (UseUnix u) = u"
| "chosen_unix (UseSigterm t) = UnixGracefulShutdown [\<lparr>phase_signal = Terminate, phase_timeout = t\<rparr>]"
| "chosen_unix (UseSigint t) = UnixGracefulShutdown [\<lparr>phase_signal = Interrupt, phase_timeout = t\<rparr>]"

fun chosen_windows :: "windows_choice \<Rightarrow> windows_graceful_shutdown" where
  "chosen_windows (UseWindows w) = w"
| "chosen_windows (UseCtrlBreak t) = WindowsGracefulShutdown t"

lemmas builder_defs = shutdown_builder_def builder_unix_def builder_unix_sigterm_def builder_unix_sigint_def
  builder_windows_def builder_windows_ctrl_break_def builder_build_def terminate_only_def
  interrupt_only_def single_phase_def phase_terminate_def phase_interrupt_def

text \<open>C24: Whatever the stages of the shutdown builder are given, \<open>build\<close> does not panic, and the value holds
  exactly the sequence chosen for the target it was built on; it is well formed whenever a Unix sequence
  passed to the builder has a phase, which \<open>from_phases\<close> and the other constructors guarantee (\<open>from_phases\<close>
  panics on the empty sequence).\<close>

theorem shutdown_builder_typestate:
  "(\<exists>s. builder_build (choose_windows wc (choose_unix uc (shutdown_builder on_unix))) = Inr s \<and>
      s = (if on_unix then ShutdownOnUnix (chosen_unix uc) else ShutdownOnWindows (chosen_windows wc)) \<and>
      (shutdown_ok s \<longleftrightarrow> \<not> (on_unix \<and> uc = UseUnix (UnixGracefulShutdown [])))) \<and>
   from_phases ps \<noteq> Inr (UnixGracefulShutdown [])"
  by (cases uc; cases wc)
    (auto simp: builder_defs shutdown_ok_def phase_timeouts_def from_phases_def
      intro: unix_graceful_shutdown.expand)

end
