(* ===== verification/Process_Group.thy ===== *)
theory Process_Group
  imports Shutdown "HOL-Library.Word"
begin

text \<open>
  The process group of a spawned child: \<open>group/mod.rs\<close> and the Windows job object of \<open>group/job_object.rs\<close>.

  The Tokio child and the operating system behind it are the parameter \<open>child_ops\<close>, functions on an
  abstract state \<open>'c\<close>.  \<open>child_wait\<close> answers when the future of \<open>Child::wait\<close> resolves, after how long and with
  what (\<open>None\<close>: never), \<open>child_elapse\<close> what the state is when time passes without it resolving.  The leader
  of a process group carries that state together with the virtual time spent and the log of the calls
  made, so that statements can talk about both; the code reads neither.
\<close>

section \<open>The child and the operating system\<close>

datatype unix_signal = SIGINT | SIGTERM | SIGKILL

type_synonym pid = "32 word"
type_synonym win_handle = nat

record 'c child_ops =
  child_id :: "'c \<Rightarrow> pid option"
  child_try_wait :: "'c \<Rightarrow> (io_error + exit_status option) \<times> 'c"
  child_wait :: "'c \<Rightarrow> (duration \<times> (io_error + exit_status) \<times> 'c) option"
  child_elapse :: "duration \<Rightarrow> 'c \<Rightarrow> 'c"
  child_start_kill :: "'c \<Rightarrow> (io_error + unit) \<times> 'c"
  os_killpg :: "int \<Rightarrow> unix_signal \<Rightarrow> 'c \<Rightarrow> (string + unit) \<times> 'c"
  win_ctrl_break :: "pid \<Rightarrow> 'c \<Rightarrow> bool \<times> 'c"
  win_create_job :: "'c \<Rightarrow> win_handle \<times> 'c"
  win_open_process :: "pid \<Rightarrow> 'c \<Rightarrow> win_handle \<times> 'c"
  win_assign_job :: "win_handle \<Rightarrow> win_handle \<Rightarrow> 'c \<Rightarrow> bool \<times> 'c"
  win_terminate_job :: "win_handle \<Rightarrow> nat \<Rightarrow> 'c \<Rightarrow> bool \<times> 'c"
  win_close_handle :: "win_handle \<Rightarrow> 'c \<Rightarrow> 'c"
  win_last_error :: "'c \<Rightarrow> io_error"

datatype os_call =
    CallTryWait | CallWait | CallKillpg int unix_signal | CallCtrlBreak pid | CallStartKill
  | CallCreateJob | CallOpenProcess pid | CallAssignJob win_handle win_handle
  | CallTerminateJob win_handle nat | CallCloseHandle win_handle

record 'c leader =
  os_state :: 'c
  clock :: duration
  calls :: "os_call list"

definition log_call :: "os_call \<Rightarrow> 'c leader \<Rightarrow> 'c \<Rightarrow> 'c leader" where
  "log_call c l s = l\<lparr>os_state := s, calls := calls l @ [c]\<rparr>"

text \<open>The pipes a spawned child has, by descriptor.\<close>

type_synonym child_stdin = nat
type_synonym child_pipe = nat

section \<open>The Windows job object\<close>

text \<open>Handles are kernel handles, 0 is null.  The opened handles are closed on every error path.\<close>

definition job_new_with_child :: "'c child_ops \<Rightarrow> 'c leader \<Rightarrow> (io_error + win_handle) \<times> 'c leader" where
  "job_new_with_child E l =
     (case child_id E (os_state l) of
        None \<Rightarrow> (Inl (IoError OtherError ''child has no PID; it was already polled to completion''), l)
      | Some p \<Rightarrow>
          (let (job, s1) = win_create_job E (os_state l);
               l1 = log_call CallCreateJob l s1
           in if job = 0 then (Inl (win_last_error E (os_state l1)), l1)
              else
                (let (proc_handle, s2) = win_open_process E p (os_state l1);
                     l2 = log_call (CallOpenProcess p) l1 s2
                 in if proc_handle = 0
                    then (Inl (win_last_error E (os_state l2)),
                          log_call (CallCloseHandle job) l2 (win_close_handle E job (os_state l2)))
                    else
                      (let (assigned, s3) = win_assign_job E job proc_handle (os_state l2);
                           l3 = log_call (CallAssignJob job proc_handle) l2 s3;
                           l4 = log_call (CallCloseHandle proc_handle) l3 (win_close_handle E proc_handle (os_state l3))
                       in if \<not> assigned
                          then (Inl (win_last_error E (os_state l4)),
                                log_call (CallCloseHandle job) l4 (win_close_handle E job (os_state l4)))
                          else (Inr job, l4)))))"

definition job_terminate :: "'c child_ops \<Rightarrow> win_handle \<Rightarrow> nat \<Rightarrow> 'c leader \<Rightarrow> (io_error + unit) \<times> 'c leader" where
  "job_terminate E job exit_code l =
     (let (ok, s) = win_terminate_job E job exit_code (os_state l);
          l' = log_call (CallTerminateJob job exit_code) l s
      in (if \<not> ok then Inl (win_last_error E (os_state l')) else Inr (), l'))"

definition job_drop :: "'c child_ops \<Rightarrow> win_handle \<Rightarrow> 'c leader \<Rightarrow> 'c leader" where
  "job_drop E job l = log_call (CallCloseHandle job) l (win_close_handle E job (os_state l))"

section \<open>The process group\<close>

text \<open>\<open>target\<close> is the platform compiled for; the job exists on Windows only.\<close>

record 'c process_group =
  target :: platform
  leader :: "'c leader"
  job :: "win_handle option"

definition child_start_kill_call :: "'c child_ops \<Rightarrow> 'c leader \<Rightarrow> (io_error + unit) \<times> 'c leader" where
  "child_start_kill_call E l =
     (let (r, s) = child_start_kill E (os_state l) in (r, log_call CallStartKill l s))"

definition from_spawned_child :: "'c child_ops \<Rightarrow> platform \<Rightarrow> 'c leader \<Rightarrow> (io_error + 'c process_group) \<times> 'c leader" where
  "from_spawned_child E P child =
     (if P = Windows then
        (case child_id E (os_state child) of
           Some _ \<Rightarrow>
             (case job_new_with_child E child of
                (Inr j, child) \<Rightarrow> (Inr \<lparr>target = P, leader = child, job = Some j\<rparr>, child)
              | (Inl source, child) \<Rightarrow> (Inl source, snd (child_start_kill_call E child)))
         | None \<Rightarrow> (Inr \<lparr>target = P, leader = child, job = None\<rparr>, child))
      else (Inr \<lparr>target = P, leader = child, job = None\<rparr>, child))"

definition group_id :: "'c child_ops \<Rightarrow> 'c process_group \<Rightarrow> pid option" where
  "group_id E g = child_id E (os_state (leader g))"

definition group_try_wait :: "'c child_ops \<Rightarrow> 'c process_group \<Rightarrow> (io_error + exit_status option) \<times> 'c process_group" where
  "group_try_wait E g =
     (let (r, s) = child_try_wait E (os_state (leader g))
      in (r, g\<lparr>leader := log_call CallTryWait (leader g) s\<rparr>))"

text \<open>\<open>group_wait\<close> is the future of \<open>wait\<close>: when it resolves, with what, and the group then;
  \<open>group_wait_pending\<close> is the group when the future is dropped unresolved after \<open>t\<close>.\<close>

definition group_wait ::
  "'c child_ops \<Rightarrow> 'c process_group \<Rightarrow> (duration \<times> (io_error + exit_status) \<times> 'c process_group) option" where
  "group_wait E g =
     (case child_wait E (os_state (leader g)) of
        None \<Rightarrow> None
      | Some (d, r, s) \<Rightarrow>
          Some (d, r, g\<lparr>leader := (log_call CallWait (leader g) s)\<lparr>clock := clock (leader g) + d\<rparr>\<rparr>))"

definition group_wait_pending :: "'c child_ops \<Rightarrow> duration \<Rightarrow> 'c process_group \<Rightarrow> 'c process_group" where
  "group_wait_pending E t g =
     g\<lparr>leader := (log_call CallWait (leader g) (child_elapse E t (os_state (leader g))))\<lparr>clock := clock (leader g) + t\<rparr>\<rparr>"

text \<open>A group's PID is its PGID; \<open>killpg\<close> takes it as a signed number, and its errno becomes an error of
  kind \<open>Other\<close>.\<close>

definition send_to_process_group ::
  "'c child_ops \<Rightarrow> pid \<Rightarrow> unix_signal \<Rightarrow> 'c leader \<Rightarrow> (io_error + unit) \<times> 'c leader" where
  "send_to_process_group E p signal l =
     (let (r, s) = os_killpg E (sint p) signal (os_state l)
      in (case r of Inl errno \<Rightarrow> Inl (IoError OtherError errno) | Inr _ \<Rightarrow> Inr (),
          log_call (CallKillpg (sint p) signal) l s))"

definition send_kill_to_process_group :: "'c child_ops \<Rightarrow> pid \<Rightarrow> 'c leader \<Rightarrow> (io_error + unit) \<times> 'c leader" where
  "send_kill_to_process_group E p l = send_to_process_group E p SIGKILL l"

definition on_leader :: "('c leader \<Rightarrow> 'r \<times> 'c leader) \<Rightarrow> 'c process_group \<Rightarrow> 'r \<times> 'c process_group" where
  "on_leader f g = (let (r, l) = f (leader g) in (r, g\<lparr>leader := l\<rparr>))"

definition send_interrupt :: "'c child_ops \<Rightarrow> 'c process_group \<Rightarrow> (io_error + unit) \<times> 'c process_group" where
  "send_interrupt E g =
     (case group_id E g of None \<Rightarrow> (Inr (), g) | Some p \<Rightarrow> on_leader (send_to_process_group E p SIGINT) g)"

definition send_terminate :: "'c child_ops \<Rightarrow> 'c process_group \<Rightarrow> (io_error + unit) \<times> 'c process_group" where
  "send_terminate E g =
     (case group_id E g of None \<Rightarrow> (Inr (), g) | Some p \<Rightarrow> on_leader (send_to_process_group E p SIGTERM) g)"

definition send_ctrl_break :: "'c child_ops \<Rightarrow> 'c process_group \<Rightarrow> (io_error + unit) \<times> 'c process_group" where
  "send_ctrl_break E g =
     (case group_id E g of
        None \<Rightarrow> (Inr (), g)
      | Some p \<Rightarrow>
          on_leader (\<lambda>l. let (success, s) = win_ctrl_break E p (os_state l);
                             l' = log_call (CallCtrlBreak p) l s
                         in (if \<not> success then Inl (win_last_error E (os_state l')) else Inr (), l')) g)"

definition send_kill :: "'c child_ops \<Rightarrow> 'c process_group \<Rightarrow> (io_error + unit) \<times> 'c process_group" where
  "send_kill E g =
     (case target g of
        Unix \<Rightarrow>
          (case group_id E g of
             Some p \<Rightarrow> on_leader (send_kill_to_process_group E p) g
           | None \<Rightarrow> (Inr (), g))
      | Windows \<Rightarrow>
          (case group_id E g of
             Some _ \<Rightarrow> (case job g of
                          Some j \<Rightarrow> on_leader (job_terminate E j 1) g
                        | None \<Rightarrow> on_leader (child_start_kill_call E) g)
           | None \<Rightarrow> (Inr (), g))
      | OtherPlatform \<Rightarrow> on_leader (child_start_kill_call E) g)"

text \<open>Giving up the group drops the job, whose handle is closed.\<close>

definition into_leader :: "'c child_ops \<Rightarrow> 'c process_group \<Rightarrow> 'c leader" where
  "into_leader E g = (case job g of Some j \<Rightarrow> job_drop E j (leader g) | None \<Rightarrow> leader g)"

section \<open>What the senders do\<close>

text \<open>A child that was polled to completion has no PID: then nothing is sent and the group is unchanged.  With
  a PID exactly one call is made, and its answer decides the result.\<close>

lemma send_without_pid [simp]:
  assumes "group_id E g = None"
  shows "send_interrupt E g = (Inr (), g)" "send_terminate E g = (Inr (), g)"
    "send_ctrl_break E g = (Inr (), g)" "target g \<noteq> OtherPlatform \<Longrightarrow> send_kill E g = (Inr (), g)"
  using assms by (cases "target g"; simp add: send_interrupt_def send_terminate_def send_ctrl_break_def send_kill_def)+

text \<open>The signals, as opposed to status queries, among the calls.\<close>

fun is_send :: "os_call \<Rightarrow> bool" where
  "is_send (CallKillpg _ _) = True"
| "is_send (CallCtrlBreak _) = True"
| "is_send CallStartKill = True"
| "is_send (CallTerminateJob _ _) = True"
| "is_send _ = False"

definition sent :: "'c leader \<Rightarrow> os_call list" where
  "sent l = filter is_send (calls l)"

lemma sent_log_call [simp]:
  "sent (log_call c l s) = sent l @ (if is_send c then [c] else [])"
  "clock (log_call c l s) = clock l" "os_state (log_call c l s) = s" "calls (log_call c l s) = calls l @ [c]"
  by (simp_all add: sent_def log_call_def)

lemma sent_clock_update [simp]: "sent (l\<lparr>clock := t\<rparr>) = sent l"
  by (simp add: sent_def)

text \<open>The one call with which a group is killed, given its PID.\<close>

fun kill_call :: "platform \<Rightarrow> win_handle option \<Rightarrow> pid \<Rightarrow> os_call" where
  "kill_call Unix _ p = CallKillpg (sint p) SIGKILL"
| "kill_call Windows (Some j) _ = CallTerminateJob j 1"
| "kill_call Windows None _ = CallStartKill"
| "kill_call OtherPlatform _ _ = CallStartKill"

lemma send_kill_effect:
  assumes "send_kill E g = (r, g')"
  shows "target g' = target g" "job g' = job g" "clock (leader g') = clock (leader g)"
    "group_id E g = Some p \<Longrightarrow> sent (leader g') = sent (leader g) @ [kill_call (target g) (job g) p]"
  using assms
  by (auto simp: send_kill_def on_leader_def send_kill_to_process_group_def send_to_process_group_def
      job_terminate_def child_start_kill_call_def Let_def
      split: platform.splits option.splits prod.splits sum.splits)

lemma send_signal_effect:
  assumes "send_interrupt E g = (r, g') \<or> send_terminate E g = (r, g') \<or> send_ctrl_break E g = (r, g')"
  shows "target g' = target g" "job g' = job g" "clock (leader g') = clock (leader g)"
  using assms
  by (auto simp: send_interrupt_def send_terminate_def send_ctrl_break_def on_leader_def
      send_to_process_group_def Let_def split: option.splits prod.splits sum.splits)

lemma send_signal_sent:
  assumes "group_id E g = Some p"
  shows "send_interrupt E g = (r, g') \<Longrightarrow> sent (leader g') = sent (leader g) @ [CallKillpg (sint p) SIGINT]"
    "send_terminate E g = (r, g') \<Longrightarrow> sent (leader g') = sent (leader g) @ [CallKillpg (sint p) SIGTERM]"
    "send_ctrl_break E g = (r, g') \<Longrightarrow> sent (leader g') = sent (leader g) @ [CallCtrlBreak p]"
  using assms
  by (auto simp: send_interrupt_def send_terminate_def send_ctrl_break_def on_leader_def
      send_to_process_group_def Let_def split: option.splits prod.splits sum.splits)

text \<open>Handles are balanced: attaching a job closes every handle it opened, but the job's own on success.\<close>

fun opened_by :: "'c child_ops \<Rightarrow> 'c \<Rightarrow> pid \<Rightarrow> win_handle list" where
  "opened_by E s p =
     (let (j, s1) = win_create_job E s
      in if j = 0 then [] else (let (h, s2) = win_open_process E p s1 in if h = 0 then [j] else [h, j]))"

definition closed_handles :: "os_call list \<Rightarrow> win_handle list" where
  "closed_handles cs = concat (map (\<lambda>c. case c of CallCloseHandle h \<Rightarrow> [h] | _ \<Rightarrow> []) cs)"

lemma closed_handles_append [simp]:
  "closed_handles (xs @ ys) = closed_handles xs @ closed_handles ys"
  "closed_handles [] = []" "closed_handles [CallCloseHandle h] = [h]"
  by (simp_all add: closed_handles_def)

lemma job_attach_balanced:
  assumes "child_id E (os_state l) = Some p" "job_new_with_child E l = (r, l')"
  shows "\<exists>cs. calls l' = calls l @ cs \<and>
     opened_by E (os_state l) p = closed_handles cs @ (case r of Inr j \<Rightarrow> [j] | Inl _ \<Rightarrow> [])"
  using assms
  by (auto simp: job_new_with_child_def Let_def closed_handles_def split: prod.splits if_splits)

section \<open>A child process to evaluate the operations on\<close>

text \<open>A simulated Unix child: the time after which it exits by itself or because of a signal already
  received, how long it takes to exit after each signal, and whether signals to it are refused.\<close>

record sim_child =
  sim_pid :: "pid option"
  sim_exits_in :: "duration option"
  sim_reaction :: "unix_signal \<Rightarrow> duration option"
  sim_denied :: bool

definition sim_status :: exit_status where
  "sim_status = ExitStatus 9"

definition earlier :: "duration option \<Rightarrow> duration option \<Rightarrow> duration option" where
  "earlier a b = (case a of None \<Rightarrow> b | Some x \<Rightarrow> (case b of None \<Rightarrow> a | Some y \<Rightarrow> Some (min x y)))"

definition sim_ops :: "sim_child child_ops" where
  "sim_ops = \<lparr>
     child_id = sim_pid,
     child_try_wait = (\<lambda>s. if sim_exits_in s = Some 0 then (Inr (Some sim_status), s\<lparr>sim_pid := None\<rparr>)
                           else (Inr None, s)),
     child_wait = (\<lambda>s. case sim_exits_in s of
                         None \<Rightarrow> None
                       | Some d \<Rightarrow> Some (d, Inr sim_status, s\<lparr>sim_exits_in := Some 0, sim_pid := None\<rparr>)),
     child_elapse = (\<lambda>t s. s\<lparr>sim_exits_in := map_option (\<lambda>d. d - t) (sim_exits_in s)\<rparr>),
     child_start_kill = (\<lambda>s. (Inr (), s\<lparr>sim_exits_in := Some 0\<rparr>)),
     os_killpg = (\<lambda>p signal s. if sim_denied s then (Inl ''EPERM'', s)
                     else (Inr (), s\<lparr>sim_exits_in := earlier (sim_exits_in s) (sim_reaction s signal)\<rparr>)),
     win_ctrl_break = (\<lambda>p s. (True, s)),
     win_create_job = (\<lambda>s. (1, s)),
     win_open_process = (\<lambda>p s. (2, s)),
     win_assign_job = (\<lambda>j p s. (True, s)),
     win_terminate_job = (\<lambda>j c s. (True, s\<lparr>sim_exits_in := Some 0\<rparr>)),
     win_close_handle = (\<lambda>j s. s),
     win_last_error = (\<lambda>s. IoError OtherError ''win'')\<rparr>"

lemma sim_ops_simps [simp]:
  "child_id sim_ops = sim_pid"
  "child_try_wait sim_ops s = (if sim_exits_in s = Some 0 then (Inr (Some sim_status), s\<lparr>sim_pid := None\<rparr>)
     else (Inr None, s))"
  "child_wait sim_ops s = (case sim_exits_in s of None \<Rightarrow> None
     | Some d \<Rightarrow> Some (d, Inr sim_status, s\<lparr>sim_exits_in := Some 0, sim_pid := None\<rparr>))"
  "child_elapse sim_ops t s = s\<lparr>sim_exits_in := map_option (\<lambda>d. d - t) (sim_exits_in s)\<rparr>"
  "os_killpg sim_ops q signal s = (if sim_denied s then (Inl ''EPERM'', s)
     else (Inr (), s\<lparr>sim_exits_in := earlier (sim_exits_in s) (sim_reaction s signal)\<rparr>))"
  by (simp_all add: sim_ops_def)

definition sim_group :: "sim_child \<Rightarrow> sim_child process_group" where
  "sim_group s = \<lparr>target = Unix, leader = \<lparr>os_state = s, clock = 0, calls = []\<rparr>, job = None\<rparr>"

text \<open>A child that ignores everything but \<open>SIGKILL\<close>.\<close>

definition sim_stubborn :: sim_child where
  "sim_stubborn = \<lparr>sim_pid = Some 7, sim_exits_in = None,
     sim_reaction = (\<lambda>s. if s = SIGKILL then Some 5 else None), sim_denied = False\<rparr>"

end
