(* ===== verification/Process_Handle.thy ===== *)
theory Process_Handle
  imports Process_Group
begin

text \<open>
  The process handle: \<open>panic_on_drop.rs\<close>, \<open>process_handle/mod.rs\<close>, \<open>drop_guard.rs\<close> and the waiting half of
  \<open>wait.rs\<close>.  Every method takes the handle and returns it updated; the drop of a handle returns what
  is left of it and whether it panics.
\<close>

section \<open>The panic guard\<close>

record panic_on_drop =
  resource_name :: string
  error_msg :: string
  help_msg :: string
  armed :: bool

definition panic_on_drop_new :: "string \<Rightarrow> string \<Rightarrow> string \<Rightarrow> panic_on_drop" where
  "panic_on_drop_new r e h = \<lparr>resource_name = r, error_msg = e, help_msg = h, armed = True\<rparr>"

definition defuse :: "panic_on_drop \<Rightarrow> panic_on_drop" where
  "defuse g = g\<lparr>armed := False\<rparr>"

definition is_armed :: "panic_on_drop \<Rightarrow> bool" where
  "is_armed g = armed g"

text \<open>Dropping the guard; \<open>panicking\<close> is \<open>std::thread::panicking()\<close>.  The message is the fixed part.\<close>

definition panic_on_drop_drop :: "bool \<Rightarrow> panic_on_drop \<Rightarrow> unit outcome" where
  "panic_on_drop_drop panicking g =
     (if \<not> is_armed g then Inr ()
      else if panicking then Inr ()
      else Inl (ExplicitPanic (''Resource '' @ quoted (resource_name g) @ '' should not have been dropped at this point!'')))"

lemma guard_simps [simp]:
  "is_armed (panic_on_drop_new r e h)" "\<not> is_armed (defuse g)"
  "panic_on_drop_drop p (defuse g) = Inr ()"
  by (simp_all add: is_armed_def panic_on_drop_new_def defuse_def panic_on_drop_drop_def)

section \<open>State of a handle\<close>

datatype stdin = StdinOpen child_stdin | StdinClosed

definition stdin_is_open :: "stdin \<Rightarrow> bool" where
  "stdin_is_open s = (case s of StdinOpen _ \<Rightarrow> True | StdinClosed \<Rightarrow> False)"

definition stdin_as_mut :: "stdin \<Rightarrow> child_stdin option" where
  "stdin_as_mut s = (case s of StdinOpen i \<Rightarrow> Some i | StdinClosed \<Rightarrow> None)"

definition stdin_close :: "stdin \<Rightarrow> stdin" where
  "stdin_close s = StdinClosed"

datatype running_state = Running | Terminated exit_status | Uncertain io_error

definition is_definitely_running :: "running_state \<Rightarrow> bool" where
  "is_definitely_running s = (case s of Running \<Rightarrow> True | _ \<Rightarrow> False)"

datatype drop_mode = Armed panic_on_drop | Disarmed

record ('c, 'o, 'e) process_handle =
  ph_name :: string
  ph_group :: "'c process_group"
  std_in :: stdin
  std_out_stream :: 'o
  std_err_stream :: 'e
  drop_mode :: drop_mode

definition on_group ::
  "('c process_group \<Rightarrow> 'r \<times> 'c process_group) \<Rightarrow> ('c, 'o, 'e) process_handle \<Rightarrow> 'r \<times> ('c, 'o, 'e) process_handle" where
  "on_group f h = (let (r, g) = f (ph_group h) in (r, h\<lparr>ph_group := g\<rparr>))"

definition close_stdin :: "('c, 'o, 'e) process_handle \<Rightarrow> ('c, 'o, 'e) process_handle" where
  "close_stdin h = h\<lparr>std_in := stdin_close (std_in h)\<rparr>"

definition send_kill_signal ::
  "'c child_ops \<Rightarrow> ('c, 'o, 'e) process_handle \<Rightarrow> (io_error + unit) \<times> ('c, 'o, 'e) process_handle" where
  "send_kill_signal E h = on_group (send_kill E) h"

definition handle_id :: "'c child_ops \<Rightarrow> ('c, 'o, 'e) process_handle \<Rightarrow> pid option" where
  "handle_id E h = group_id E (ph_group h)"

definition try_reap_exit_status ::
  "'c child_ops \<Rightarrow> ('c, 'o, 'e) process_handle \<Rightarrow> (io_error + exit_status option) \<times> ('c, 'o, 'e) process_handle" where
  "try_reap_exit_status E h = on_group (group_try_wait E) h"

definition is_running ::
  "'c child_ops \<Rightarrow> ('c, 'o, 'e) process_handle \<Rightarrow> running_state \<times> ('c, 'o, 'e) process_handle" where
  "is_running E h =
     (case try_reap_exit_status E h of
        (Inr None, h) \<Rightarrow> (Running, h)
      | (Inr (Some status), h) \<Rightarrow> (Terminated status, h)
      | (Inl err, h) \<Rightarrow> (Uncertain err, h))"

section \<open>The drop guard\<close>

definition armed_panic_guard :: panic_on_drop where
  "armed_panic_guard =
     panic_on_drop_new ''tokio_process_tools::ProcessHandle'' ''The process was not terminated.''
       ''Successfully call `wait_for_completion`, `terminate`, or `kill`, or call `must_not_be_terminated` before the type is dropped!''"

definition new_armed_drop_mode :: drop_mode where
  "new_armed_drop_mode = Armed armed_panic_guard"

text \<open>The replaced mode is dropped by the assignment: it is disarmed, or its guard is not armed, so that drop
  is silent.\<close>

definition must_be_terminated :: "('c, 'o, 'e) process_handle \<Rightarrow> ('c, 'o, 'e) process_handle" where
  "must_be_terminated h =
     (case drop_mode h of
        Armed p \<Rightarrow> if is_armed p then h else h\<lparr>drop_mode := Armed armed_panic_guard\<rparr>
      | Disarmed \<Rightarrow> h\<lparr>drop_mode := Armed armed_panic_guard\<rparr>)"

definition must_not_be_terminated :: "('c, 'o, 'e) process_handle \<Rightarrow> ('c, 'o, 'e) process_handle" where
  "must_not_be_terminated h =
     (let h = (case drop_mode h of Armed p \<Rightarrow> h\<lparr>drop_mode := Armed (defuse p)\<rparr> | Disarmed \<Rightarrow> h)
      in h\<lparr>drop_mode := Disarmed\<rparr>)"

definition is_drop_armed :: "('c, 'o, 'e) process_handle \<Rightarrow> bool" where
  "is_drop_armed h = (case drop_mode h of Armed p \<Rightarrow> is_armed p | Disarmed \<Rightarrow> False)"

definition is_drop_disarmed :: "('c, 'o, 'e) process_handle \<Rightarrow> bool" where
  "is_drop_disarmed h = (case drop_mode h of Armed _ \<Rightarrow> False | Disarmed \<Rightarrow> True)"

text \<open>The destructor kills the group of an armed handle and ignores the error; then the fields are dropped in
  order: the group with its job, the streams (returned here), and last the drop mode with its guard.\<close>

definition process_handle_drop ::
  "'c child_ops \<Rightarrow> bool \<Rightarrow> ('c, 'o, 'e) process_handle \<Rightarrow> unit outcome \<times> 'c leader \<times> 'o \<times> 'e" where
  "process_handle_drop E panicking h =
     (let h = (case drop_mode h of Armed _ \<Rightarrow> snd (send_kill_signal E h) | Disarmed \<Rightarrow> h);
          l = into_leader E (ph_group h)
      in (case drop_mode h of Armed p \<Rightarrow> panic_on_drop_drop panicking p | Disarmed \<Rightarrow> Inr (),
          l, std_out_stream h, std_err_stream h))"

definition handle_into_inner ::
  "'c child_ops \<Rightarrow> ('c, 'o, 'e) process_handle \<Rightarrow> 'c leader \<times> stdin \<times> 'o \<times> 'e" where
  "handle_into_inner E h =
     (let h = must_not_be_terminated h
      in (into_leader E (ph_group h), std_in h, std_out_stream h, std_err_stream h))"

section \<open>Waiting\<close>

text \<open>\<open>wait\<close> as a future: when it resolves and with what.  Its first poll closes stdin, so stdin is closed
  also when the future is dropped unresolved (\<open>handle_wait_pending\<close>).\<close>

definition handle_wait ::
  "'c child_ops \<Rightarrow> ('c, 'o, 'e) process_handle
   \<Rightarrow> (duration \<times> (io_error + exit_status) \<times> ('c, 'o, 'e) process_handle) option" where
  "handle_wait E h =
     (let h = close_stdin h
      in (case group_wait E (ph_group h) of
            None \<Rightarrow> None
          | Some (d, r, g) \<Rightarrow>
              (let h = h\<lparr>ph_group := g\<rparr>
               in (case r of
                     Inr status \<Rightarrow> Some (d, Inr status, must_not_be_terminated h)
                   | Inl err \<Rightarrow> Some (d, Inl err, h)))))"

definition handle_wait_pending ::
  "'c child_ops \<Rightarrow> duration \<Rightarrow> ('c, 'o, 'e) process_handle \<Rightarrow> ('c, 'o, 'e) process_handle" where
  "handle_wait_pending E t h =
     (let h = close_stdin h in h\<lparr>ph_group := group_wait_pending E t (ph_group h)\<rparr>)"

text \<open>\<open>tokio::time::timeout\<close> polls the future before the deadline: a future that is ready when the deadline
  passes wins.\<close>

definition wait_with_timeout ::
  "'c child_ops \<Rightarrow> duration \<Rightarrow> ('c, 'o, 'e) process_handle
   \<Rightarrow> (io_error + exit_status) option \<times> ('c, 'o, 'e) process_handle" where
  "wait_with_timeout E t h =
     (case handle_wait E h of
        Some (d, r, h') \<Rightarrow> if d \<le> t then (Some r, h') else (None, handle_wait_pending E t h)
      | None \<Rightarrow> (None, handle_wait_pending E t h))"

definition wait_for_completion_inner ::
  "'c child_ops \<Rightarrow> ('c, 'o, 'e) process_handle \<Rightarrow> duration
   \<Rightarrow> (wait_error + exit_status wait_for_completion_result) \<times> ('c, 'o, 'e) process_handle" where
  "wait_for_completion_inner E h timeout =
     (case wait_with_timeout E timeout h of
        (Some (Inr status), h) \<Rightarrow> (Inr (Completed status), h)
      | (Some (Inl source), h) \<Rightarrow> (Inl (WaitIoError (ph_name h) source), h)
      | (None, h) \<Rightarrow> (Inr (WaitTimedOut timeout), h))"

text \<open>The unbounded wait may never return (\<open>None\<close>).\<close>

definition wait_for_completion_unbounded ::
  "'c child_ops \<Rightarrow> ('c, 'o, 'e) process_handle \<Rightarrow> ((wait_error + exit_status) \<times> ('c, 'o, 'e) process_handle) option" where
  "wait_for_completion_unbounded E h =
     (case handle_wait E h of
        None \<Rightarrow> None
      | Some (_, Inr status, h) \<Rightarrow> Some (Inr status, h)
      | Some (_, Inl source, h) \<Rightarrow> Some (Inl (WaitIoError (ph_name h) source), h))"

definition wait_for_exit_after_signal ::
  "'c child_ops \<Rightarrow> ('c, 'o, 'e) process_handle \<Rightarrow> duration
   \<Rightarrow> (wait_error + exit_status option) \<times> ('c, 'o, 'e) process_handle" where
  "wait_for_exit_after_signal E h timeout =
     (case wait_for_completion_inner E h timeout of
        (Inl err, h) \<Rightarrow> (Inl err, h)
      | (Inr (Completed status), h) \<Rightarrow> (Inr (Some status), h)
      | (Inr (WaitTimedOut _), h) \<Rightarrow> (Inr None, h))"

section \<open>What each method keeps and changes\<close>

text \<open>The part of a handle that no method changes, the signals sent so far, and the time spent.\<close>

definition handle_frame :: "('c, 'o, 'e) process_handle \<Rightarrow> ('c, 'o, 'e) process_handle \<Rightarrow> bool" where
  "handle_frame h h' \<longleftrightarrow>
     ph_name h' = ph_name h \<and> std_out_stream h' = std_out_stream h \<and> std_err_stream h' = std_err_stream h \<and>
     target (ph_group h') = target (ph_group h) \<and> job (ph_group h') = job (ph_group h)"

abbreviation handle_sent :: "('c, 'o, 'e) process_handle \<Rightarrow> os_call list" where
  "handle_sent h \<equiv> sent (leader (ph_group h))"

abbreviation handle_clock :: "('c, 'o, 'e) process_handle \<Rightarrow> duration" where
  "handle_clock h \<equiv> clock (leader (ph_group h))"

lemma handle_frame_refl [simp, intro]: "handle_frame h h"
  by (simp add: handle_frame_def)

lemma handle_frame_trans: "handle_frame a b \<Longrightarrow> handle_frame b c \<Longrightarrow> handle_frame a c"
  by (simp add: handle_frame_def)

lemma handle_frame_name: "handle_frame h h' \<Longrightarrow> ph_name h' = ph_name h"
  by (simp add: handle_frame_def)

lemma must_not_be_terminated_conv [simp]: "must_not_be_terminated h = h\<lparr>drop_mode := Disarmed\<rparr>"
  by (simp add: must_not_be_terminated_def split: drop_mode.splits)

lemma drop_mode_simps [simp]:
  "is_drop_disarmed h \<longleftrightarrow> drop_mode h = Disarmed"
  "drop_mode h = Disarmed \<Longrightarrow> \<not> is_drop_armed h"
  "is_drop_armed (must_be_terminated h)"
  by (auto simp: is_drop_disarmed_def is_drop_armed_def must_be_terminated_def armed_panic_guard_def
      split: drop_mode.splits)

lemma is_drop_armed_cong: "drop_mode h' = drop_mode h \<Longrightarrow> is_drop_armed h' = is_drop_armed h"
  by (simp add: is_drop_armed_def)

lemma try_reap_effect:
  assumes "try_reap_exit_status E h = (r, h')"
  shows "handle_frame h h'" "drop_mode h' = drop_mode h" "std_in h' = std_in h"
    "handle_sent h' = handle_sent h" "handle_clock h' = handle_clock h"
    "calls (leader (ph_group h')) = calls (leader (ph_group h)) @ [CallTryWait]"
    "r = fst (child_try_wait E (os_state (leader (ph_group h))))"
    "os_state (leader (ph_group h')) = snd (child_try_wait E (os_state (leader (ph_group h))))"
  using assms
  by (auto simp: try_reap_exit_status_def on_group_def group_try_wait_def handle_frame_def
      split: prod.splits)

lemma send_kill_signal_effect:
  assumes "send_kill_signal E h = (r, h')"
  shows "handle_frame h h'" "drop_mode h' = drop_mode h" "std_in h' = std_in h"
    "handle_clock h' = handle_clock h"
    "handle_id E h = Some p \<Longrightarrow>
       handle_sent h' = handle_sent h @ [kill_call (target (ph_group h)) (job (ph_group h)) p]"
  using assms send_kill_effect [of E "ph_group h" r "ph_group h'"]
  by (auto simp: send_kill_signal_def on_group_def handle_frame_def handle_id_def split: prod.splits)

lemma wait_with_timeout_effect:
  assumes "wait_with_timeout E t h = (r, h')"
  shows "handle_frame h h'"
    "drop_mode h' = (case r of Some (Inr _) \<Rightarrow> Disarmed | _ \<Rightarrow> drop_mode h)"
    "std_in h' = StdinClosed" "handle_sent h' = handle_sent h"
    "handle_clock h' \<le> handle_clock h + t" "r = None \<Longrightarrow> handle_clock h' = handle_clock h + t"
  using assms
  by (auto simp: wait_with_timeout_def handle_wait_def handle_wait_pending_def group_wait_def
      group_wait_pending_def close_stdin_def stdin_close_def handle_frame_def Let_def
      split: option.splits prod.splits sum.splits if_splits)

lemma wait_for_exit_effect:
  assumes "wait_for_exit_after_signal E h t = (r, h')"
  shows "handle_frame h h'"
    "drop_mode h' = (case r of Inr (Some _) \<Rightarrow> Disarmed | _ \<Rightarrow> drop_mode h)"
    "std_in h' = StdinClosed" "handle_sent h' = handle_sent h"
    "handle_clock h' \<le> handle_clock h + t"
proof -
  obtain r' where w: "wait_with_timeout E t h = (r', h')"
    and r: "r = (case r' of Some (Inr status) \<Rightarrow> Inr (Some status)
                 | Some (Inl e) \<Rightarrow> Inl (WaitIoError (ph_name h') e) | None \<Rightarrow> Inr None)"
    using assms
    by (auto simp: wait_for_exit_after_signal_def wait_for_completion_inner_def
        split: prod.splits option.splits sum.splits)
  note eff = wait_with_timeout_effect [OF w]
  show "handle_frame h h'" "std_in h' = StdinClosed" "handle_sent h' = handle_sent h"
    "handle_clock h' \<le> handle_clock h + t" using eff by simp_all
  show "drop_mode h' = (case r of Inr (Some _) \<Rightarrow> Disarmed | _ \<Rightarrow> drop_mode h)"
    using eff(2) r by (auto split: option.splits sum.splits)
qed

section \<open>The drop guard's contract\<close>

text \<open>C10: The drop guard.  Dropping a handle whose lifecycle is open sends exactly one kill to a group that
  still has a PID and then panics, unless the thread is already unwinding; dropping a handle whose
  lifecycle was closed sends nothing and never panics, whatever the handle went through before.
  Re-arming and disarming are each other's inverse on that observation, and \<open>into_inner\<close> hands out the
  child without a signal.\<close>

theorem drop_guard_contract:
  fixes h :: "('c, 'o, 'e) process_handle"
  shows
  "(case process_handle_drop E panicking (must_be_terminated h) of (r, l, streams) \<Rightarrow>
      (r = Inr () \<longleftrightarrow> panicking) \<and> streams = (std_out_stream h, std_err_stream h) \<and>
      (\<forall>p. handle_id E h = Some p \<longrightarrow>
         sent l = handle_sent h @ [kill_call (target (ph_group h)) (job (ph_group h)) p])) \<and>
   (case process_handle_drop E panicking (must_not_be_terminated h) of (r, l, _) \<Rightarrow>
      r = Inr () \<and> sent l = handle_sent h) \<and>
   (case handle_into_inner E h of (l, i, streams) \<Rightarrow>
      sent l = handle_sent h \<and> i = std_in h \<and> streams = (std_out_stream h, std_err_stream h))"
proof -
  have job: "sent (into_leader E g) = sent (leader g)" for g :: "'c process_group"
    by (simp add: into_leader_def job_drop_def split: option.splits)
  have armed: "\<exists>p. drop_mode (must_be_terminated h) = Armed p \<and> is_armed p"
    using drop_mode_simps(3) [of h] by (simp add: is_drop_armed_def split: drop_mode.splits)
  then obtain p where p: "drop_mode (must_be_terminated h) = Armed p" "is_armed p" by blast
  obtain r h' where k: "send_kill_signal E (must_be_terminated h) = (r, h')" by fastforce
  note eff = send_kill_signal_effect [OF k]
  have same: "ph_group (must_be_terminated h) = ph_group h"
    "std_out_stream (must_be_terminated h) = std_out_stream h"
    "std_err_stream (must_be_terminated h) = std_err_stream h"
    by (simp_all add: must_be_terminated_def split: drop_mode.splits)
  have "process_handle_drop E panicking (must_be_terminated h)
      = (panic_on_drop_drop panicking p, into_leader E (ph_group h'), std_out_stream h, std_err_stream h)"
    using eff(1,2) p k same by (simp add: process_handle_drop_def handle_frame_def)
  moreover have "panic_on_drop_drop panicking p = Inr () \<longleftrightarrow> panicking"
    using p(2) by (simp add: panic_on_drop_drop_def)
  moreover have "handle_id E h = Some q \<Longrightarrow>
      handle_sent h' = handle_sent h @ [kill_call (target (ph_group h)) (job (ph_group h)) q]" for q
    using eff(5) [of q] same by (simp add: handle_id_def)
  ultimately show ?thesis
    by (auto simp: job process_handle_drop_def handle_into_inner_def)
qed

definition sim_handle :: "sim_child \<Rightarrow> (sim_child, unit, unit) process_handle" where
  "sim_handle s = \<lparr>ph_name = ''sim'', ph_group = sim_group s, std_in = StdinOpen 0,
     std_out_stream = (), std_err_stream = (), drop_mode = new_armed_drop_mode\<rparr>"

theorem drop_guard_contract_witness:
  "handle_id sim_ops (sim_handle sim_stubborn) = Some 7 \<and>
   (case process_handle_drop sim_ops False (must_be_terminated (sim_handle sim_stubborn)) of (r, l, _) \<Rightarrow>
      sent l = [CallKillpg 7 SIGKILL])"
  using drop_guard_contract [where E = sim_ops and panicking = False and h = "sim_handle sim_stubborn"]
  by (auto simp: sim_handle_def sim_group_def sim_stubborn_def handle_id_def group_id_def sent_def
      split: prod.splits)

end
