(* ===== verification/Termination.thy ===== *)
theory Termination
  imports Process_Handle
begin

text \<open>
  Terminating a process: \<open>process_handle/termination/mod.rs\<close> and the manual signals of \<open>signal.rs\<close>.  The
  termination loop takes its preflight poll and its signal sender as hooks, as in the code; the
  locales below state what the loop relies on of its hooks, the client lemmas are proved there once,
  and the hooks of \<open>terminate\<close> on Unix and on Windows are interpretations.

  Logging is not modelled (so \<open>next_signal_name\<close>, used in log messages only, is left out).  Results are
  \<open>Inl\<close> a panic or \<open>Inr\<close> the method's result with the updated handle.
\<close>

definition FORCE_KILL_WAIT_TIMEOUT :: duration where
  "FORCE_KILL_WAIT_TIMEOUT = from_secs 3"

definition REAP_AFTER_SIGNAL_FAILURE_GRACE :: duration where
  "REAP_AFTER_SIGNAL_FAILURE_GRACE = from_millis 100"

definition KILL_LABEL :: "platform \<Rightarrow> string" where
  "KILL_LABEL P = (case P of Unix \<Rightarrow> ''SIGKILL'' | Windows \<Rightarrow> ''TerminateProcess'' | OtherPlatform \<Rightarrow> ''kill'')"

definition wait_timeout_error :: "duration \<Rightarrow> io_error" where
  "wait_timeout_error timeout = IoError TimedOut (''process did not complete within '' @ debug_duration timeout)"

abbreviation kill_label_of :: "('c, 'o, 'e) process_handle \<Rightarrow> string" where
  "kill_label_of h \<equiv> KILL_LABEL (target (ph_group h))"

text \<open>Ending a method with an error: the accumulator becomes the error, or its assertion panics.\<close>

definition fail_with ::
  "termination_error outcome \<Rightarrow> ('c, 'o, 'e) process_handle
   \<Rightarrow> ((termination_error + 'r) \<times> ('c, 'o, 'e) process_handle) outcome" where
  "fail_with e h = (case e of Inl p \<Rightarrow> Inl p | Inr err \<Rightarrow> Inr (Inl err, h))"

section \<open>Killing\<close>

text \<open>\<open>kill\<close> waits without a bound; \<open>None\<close> is a call that never returns.\<close>

definition kill ::
  "'c child_ops \<Rightarrow> ('c, 'o, 'e) process_handle
   \<Rightarrow> ((termination_error + unit) \<times> ('c, 'o, 'e) process_handle) outcome option" where
  "kill E h =
     (let h = close_stdin h
      in (case send_kill_signal E h of
            (Inl err, h) \<Rightarrow>
              Some (fail_with (into_termination_failed
                     (record_attempt [] (SendSignal (kill_label_of h)) (IoSource err)) (ph_name h)) h)
          | (Inr _, h) \<Rightarrow>
              (case wait_for_completion_unbounded E h of
                 None \<Rightarrow> None
               | Some (Inl err, h) \<Rightarrow>
                   Some (fail_with (into_termination_failed
                          (record_attempt [] WaitForExit (WaitSource err)) (ph_name h)) h)
               | Some (Inr _, h) \<Rightarrow> Some (Inr (Inr (), h)))))"

definition start_kill ::
  "'c child_ops \<Rightarrow> ('c, 'o, 'e) process_handle
   \<Rightarrow> ((termination_error + unit) \<times> ('c, 'o, 'e) process_handle) outcome" where
  "start_kill E h =
     (let h = close_stdin h
      in (case send_kill_signal E h of
            (Inl err, h) \<Rightarrow>
              (let diagnostics = record_attempt [] (SendSignal (kill_label_of h)) (IoSource err)
               in (case try_reap_exit_status E h of
                     (Inr (Some _), h) \<Rightarrow> Inr (Inr (), must_not_be_terminated h)
                   | (Inr None, h) \<Rightarrow> fail_with (into_termination_failed diagnostics (ph_name h)) h
                   | (Inl reap_error, h) \<Rightarrow>
                       fail_with (into_termination_failed
                         (record_attempt diagnostics CheckStatus (IoSource reap_error)) (ph_name h)) h))
          | (Inr _, h) \<Rightarrow> Inr (Inr (), must_not_be_terminated h)))"

section \<open>The termination loop\<close>

record termination_step =
  signal_label :: string
  step_timeout :: duration

type_synonym ('c, 'o, 'e) reaper =
  "('c, 'o, 'e) process_handle \<Rightarrow> (io_error + exit_status option) \<times> ('c, 'o, 'e) process_handle"
type_synonym ('c, 'o, 'e) sender =
  "nat \<Rightarrow> ('c, 'o, 'e) process_handle \<Rightarrow> (io_error + unit) \<times> ('c, 'o, 'e) process_handle"

definition attempt_graceful_phase ::
  "'c child_ops \<Rightarrow> string \<Rightarrow> duration \<Rightarrow> termination_diagnostics
   \<Rightarrow> (('c, 'o, 'e) process_handle \<Rightarrow> (io_error + unit) \<times> ('c, 'o, 'e) process_handle)
   \<Rightarrow> ('c, 'o, 'e) process_handle
   \<Rightarrow> exit_status option \<times> termination_diagnostics \<times> ('c, 'o, 'e) process_handle" where
  "attempt_graceful_phase E signal_name timeout diagnostics send_signal h =
     (case send_signal h of
        (Inr _, h) \<Rightarrow>
          (case wait_for_exit_after_signal E h timeout of
             (Inr (Some status), h) \<Rightarrow> (Some status, diagnostics, h)
           | (Inr None, h) \<Rightarrow>
               (None, record_attempt diagnostics WaitForExit (IoSource (wait_timeout_error timeout)), h)
           | (Inl wait_error, h) \<Rightarrow> (None, record_attempt diagnostics WaitForExit (WaitSource wait_error), h))
      | (Inl send_error, h) \<Rightarrow>
          (let diagnostics = record_attempt diagnostics (SendSignal signal_name) (IoSource send_error)
           in (case wait_for_exit_after_signal E h REAP_AFTER_SIGNAL_FAILURE_GRACE of
                 (Inr (Some status), h) \<Rightarrow> (Some status, diagnostics, h)
               | (Inr None, h) \<Rightarrow> (None, diagnostics, h)
               | (Inl reap_error, h) \<Rightarrow> (None, record_attempt diagnostics CheckStatus (WaitSource reap_error), h))))"

fun graceful_phases ::
  "'c child_ops \<Rightarrow> ('c, 'o, 'e) sender \<Rightarrow> nat \<Rightarrow> termination_step list \<Rightarrow> termination_diagnostics
   \<Rightarrow> ('c, 'o, 'e) process_handle
   \<Rightarrow> exit_status option \<times> termination_diagnostics \<times> ('c, 'o, 'e) process_handle" where
  "graceful_phases E send_signal index [] diagnostics h = (None, diagnostics, h)"
| "graceful_phases E send_signal index (step # steps) diagnostics h =
     (case attempt_graceful_phase E (signal_label step) (step_timeout step) diagnostics (send_signal index) h of
        (Some status, diagnostics, h) \<Rightarrow> (Some status, diagnostics, h)
      | (None, diagnostics, h) \<Rightarrow> graceful_phases E send_signal (index + 1) steps diagnostics h)"

definition attempt_forceful_kill ::
  "'c child_ops \<Rightarrow> termination_diagnostics \<Rightarrow> ('c, 'o, 'e) process_handle
   \<Rightarrow> ((termination_error + exit_status) \<times> ('c, 'o, 'e) process_handle) outcome" where
  "attempt_forceful_kill E diagnostics h =
     (case send_kill_signal E h of
        (Inr _, h) \<Rightarrow>
          (case wait_for_exit_after_signal E h FORCE_KILL_WAIT_TIMEOUT of
             (Inr (Some status), h) \<Rightarrow> Inr (Inr status, h)
           | (Inr None, h) \<Rightarrow>
               fail_with (into_termination_failed
                 (record_attempt diagnostics WaitForExit (IoSource (wait_timeout_error FORCE_KILL_WAIT_TIMEOUT)))
                 (ph_name h)) h
           | (Inl not_terminated, h) \<Rightarrow>
               fail_with (into_termination_failed
                 (record_attempt diagnostics WaitForExit (WaitSource not_terminated)) (ph_name h)) h)
      | (Inl kill_error, h) \<Rightarrow>
          (let diagnostics = record_attempt diagnostics (SendSignal (kill_label_of h)) (IoSource kill_error)
           in (case wait_for_exit_after_signal E h REAP_AFTER_SIGNAL_FAILURE_GRACE of
                 (Inr (Some status), h) \<Rightarrow> Inr (Inr status, h)
               | (Inr None, h) \<Rightarrow> fail_with (into_termination_failed diagnostics (ph_name h)) h
               | (Inl reap_error, h) \<Rightarrow>
                   fail_with (into_termination_failed
                     (record_attempt diagnostics CheckStatus (WaitSource reap_error)) (ph_name h)) h)))"

definition disarm_after_successful_termination ::
  "termination_error + 'r \<Rightarrow> ('c, 'o, 'e) process_handle
   \<Rightarrow> (termination_error + 'r) \<times> ('c, 'o, 'e) process_handle" where
  "disarm_after_successful_termination result h =
     (result, case result of Inr _ \<Rightarrow> must_not_be_terminated h | Inl _ \<Rightarrow> h)"

text \<open>The assertion on the steps is a \<open>debug_assert\<close>; it is modelled as in a build with debug assertions.  A
  shutdown that can be built has a step (\<open>shutdown_ok\<close>), so the two kinds of build agree.\<close>

definition run_termination_loop ::
  "'c child_ops \<Rightarrow> termination_step list \<Rightarrow> ('c, 'o, 'e) reaper \<Rightarrow> ('c, 'o, 'e) sender
   \<Rightarrow> ('c, 'o, 'e) process_handle \<Rightarrow> ((termination_error + exit_status) \<times> ('c, 'o, 'e) process_handle) outcome" where
  "run_termination_loop E steps try_reap send_signal h =
     (if steps = [] then Inl (AssertFailed ''run_termination_loop requires at least one graceful step'')
      else
        (case try_reap h of
           (Inr (Some status), h) \<Rightarrow> Inr (disarm_after_successful_termination (Inr status) h)
         | (checked, h) \<Rightarrow>
             (let diagnostics = (case checked of Inl err \<Rightarrow> record_attempt [] CheckStatus (IoSource err) | Inr _ \<Rightarrow> [])
              in (case graceful_phases E send_signal 0 steps diagnostics h of
                    (Some status, _, h) \<Rightarrow> Inr (disarm_after_successful_termination (Inr status) h)
                  | (None, diagnostics, h) \<Rightarrow>
                      (case attempt_forceful_kill E diagnostics h of
                         Inl p \<Rightarrow> Inl p
                       | Inr (result, h) \<Rightarrow> Inr (disarm_after_successful_termination result h))))))"

definition terminate_with_hooks_unix ::
  "'c child_ops \<Rightarrow> unix_graceful_shutdown \<Rightarrow> ('c, 'o, 'e) reaper
   \<Rightarrow> (unix_graceful_signal \<Rightarrow> ('c, 'o, 'e) process_handle \<Rightarrow> (io_error + unit) \<times> ('c, 'o, 'e) process_handle)
   \<Rightarrow> ('c, 'o, 'e) process_handle \<Rightarrow> ((termination_error + exit_status) \<times> ('c, 'o, 'e) process_handle) outcome" where
  "terminate_with_hooks_unix E sequence try_reap send_signal h =
     run_termination_loop E
       (map (\<lambda>phase. \<lparr>signal_label = label (phase_signal phase), step_timeout = phase_timeout phase\<rparr>) (phases sequence))
       try_reap (\<lambda>index. send_signal (phase_signal (phases sequence ! index))) h"

definition terminate_with_hooks_windows ::
  "'c child_ops \<Rightarrow> windows_graceful_shutdown \<Rightarrow> ('c, 'o, 'e) reaper
   \<Rightarrow> (('c, 'o, 'e) process_handle \<Rightarrow> (io_error + unit) \<times> ('c, 'o, 'e) process_handle)
   \<Rightarrow> ('c, 'o, 'e) process_handle \<Rightarrow> ((termination_error + exit_status) \<times> ('c, 'o, 'e) process_handle) outcome" where
  "terminate_with_hooks_windows E sequence try_reap send_signal h =
     run_termination_loop E [\<lparr>signal_label = ''CTRL_BREAK_EVENT'', step_timeout = windows_timeout sequence\<rparr>]
       try_reap (\<lambda>_. send_signal) h"

definition send_unix_signal ::
  "'c child_ops \<Rightarrow> unix_graceful_signal \<Rightarrow> ('c, 'o, 'e) process_handle \<Rightarrow> (io_error + unit) \<times> ('c, 'o, 'e) process_handle" where
  "send_unix_signal E signal h =
     (case signal of
        Interrupt \<Rightarrow> on_group (send_interrupt E) h
      | Terminate \<Rightarrow> on_group (send_terminate E) h)"

definition terminate ::
  "'c child_ops \<Rightarrow> ('c, 'o, 'e) process_handle \<Rightarrow> graceful_shutdown
   \<Rightarrow> ((termination_error + exit_status) \<times> ('c, 'o, 'e) process_handle) outcome" where
  "terminate E h shutdown =
     (case shutdown of
        ShutdownOnUnix u \<Rightarrow> terminate_with_hooks_unix E u (try_reap_exit_status E) (send_unix_signal E) h
      | ShutdownOnWindows w \<Rightarrow>
          terminate_with_hooks_windows E w (try_reap_exit_status E) (on_group (send_ctrl_break E)) h)"

section \<open>Manual signals\<close>

definition send_signal_with_reaper ::
  "string \<Rightarrow> (('c, 'o, 'e) process_handle \<Rightarrow> (io_error + unit) \<times> ('c, 'o, 'e) process_handle)
   \<Rightarrow> ('c, 'o, 'e) reaper \<Rightarrow> ('c, 'o, 'e) process_handle
   \<Rightarrow> ((termination_error + unit) \<times> ('c, 'o, 'e) process_handle) outcome" where
  "send_signal_with_reaper signal_name send_signal try_reap h =
     (case try_reap h of
        (Inr (Some _), h) \<Rightarrow> Inr (Inr (), must_not_be_terminated h)
      | (Inr None, h) \<Rightarrow>
          (case send_signal h of
             (Inr _, h) \<Rightarrow> Inr (Inr (), h)
           | (Inl signal_error, h) \<Rightarrow>
               (case try_reap h of
                  (Inr (Some _), h) \<Rightarrow> Inr (Inr (), must_not_be_terminated h)
                | (Inr None, h) \<Rightarrow>
                    fail_with (into_signal_failed
                      (record_attempt [] (SendSignal signal_name) (IoSource signal_error)) (ph_name h)) h
                | (Inl reap_error, h) \<Rightarrow>
                    fail_with (into_signal_failed
                      (record_attempt (record_attempt [] (SendSignal signal_name) (IoSource signal_error))
                        CheckStatus (IoSource reap_error)) (ph_name h)) h))
      | (Inl status_error, h) \<Rightarrow>
          fail_with (into_signal_failed (record_attempt [] CheckStatus (IoSource status_error)) (ph_name h)) h)"

definition send_interrupt_signal ::
  "'c child_ops \<Rightarrow> ('c, 'o, 'e) process_handle \<Rightarrow> ((termination_error + unit) \<times> ('c, 'o, 'e) process_handle) outcome" where
  "send_interrupt_signal E h =
     send_signal_with_reaper ''SIGINT'' (on_group (send_interrupt E)) (try_reap_exit_status E) h"

definition send_terminate_signal ::
  "'c child_ops \<Rightarrow> ('c, 'o, 'e) process_handle \<Rightarrow> ((termination_error + unit) \<times> ('c, 'o, 'e) process_handle) outcome" where
  "send_terminate_signal E h =
     send_signal_with_reaper ''SIGTERM'' (on_group (send_terminate E)) (try_reap_exit_status E) h"

definition send_ctrl_break_signal ::
  "'c child_ops \<Rightarrow> ('c, 'o, 'e) process_handle \<Rightarrow> ((termination_error + unit) \<times> ('c, 'o, 'e) process_handle) outcome" where
  "send_ctrl_break_signal E h =
     send_signal_with_reaper ''CTRL_BREAK_EVENT'' (on_group (send_ctrl_break E)) (try_reap_exit_status E) h"

end
