(* ===== verification/Termination_Contract.thy ===== *)
theory Termination_Contract
  imports Termination
begin

text \<open>
  What \<open>terminate\<close>, \<open>kill\<close>, \<open>start_kill\<close> and the manual signals guarantee.  The locale \<open>signal_hooks\<close> is the
  interface between the termination loop and its hooks; \<open>addressed_hooks\<close> extends it by what is known
  of a child that keeps its PID until its exit is reported.  Both are interpreted on the hooks of
  \<open>terminate\<close>.
\<close>

section \<open>Observing the exit\<close>

text \<open>The exit status \<open>st\<close> is the answer of the last query of the child, whose state is the handle's.\<close>

definition exit_observed :: "'c child_ops \<Rightarrow> exit_status \<Rightarrow> ('c, 'o, 'e) process_handle \<Rightarrow> bool" where
  "exit_observed E st h \<longleftrightarrow>
     (\<exists>s. child_try_wait E s = (Inr (Some st), os_state (leader (ph_group h)))) \<or>
     (\<exists>s d. child_wait E s = Some (d, Inr st, os_state (leader (ph_group h))))"

lemma try_reap_observed: "try_reap_exit_status E h = (Inr (Some st), h') \<Longrightarrow> exit_observed E st h'"
  using try_reap_effect(7,8) [of E h "Inr (Some st)" h'] by (metis exit_observed_def prod.collapse)

lemma wait_for_exit_observed: "wait_for_exit_after_signal E h t = (Inr (Some st), h') \<Longrightarrow> exit_observed E st h'"
  by (fastforce simp: wait_for_exit_after_signal_def wait_for_completion_inner_def wait_with_timeout_def
      handle_wait_def group_wait_def exit_observed_def close_stdin_def Let_def
      split: option.splits prod.splits sum.splits if_splits)

lemma exit_observed_disarm [simp]:
  "exit_observed E st (h\<lparr>drop_mode := m\<rparr>) = exit_observed E st h"
  by (simp add: exit_observed_def)

lemma handle_frame_disarm [simp]:
  "handle_frame h (h'\<lparr>drop_mode := m\<rparr>) = handle_frame h h'"
  by (simp add: handle_frame_def)

lemma fail_with_Inr [simp]: "fail_with (Inr e) h = Inr (Inl e, h)"
  by (simp add: fail_with_def)

section \<open>The loop and its hooks\<close>

locale signal_hooks =
  fixes E :: "'c child_ops"
    and try_reap :: "('c, 'o, 'e) reaper"
    and send :: "('c, 'o, 'e) sender"
  assumes send_frame:
      "send i h = (r, h') \<Longrightarrow>
       handle_frame h h' \<and> drop_mode h' = drop_mode h \<and> handle_clock h' = handle_clock h"
    and reap_frame:
      "try_reap h = (c, h') \<Longrightarrow>
       handle_frame h h' \<and> drop_mode h' = drop_mode h \<and> handle_clock h' = handle_clock h \<and>
       handle_sent h' = handle_sent h"
    and reap_observed: "try_reap h = (Inr (Some st), h') \<Longrightarrow> exit_observed E st h'"
begin

text \<open>A phase either observes the exit, and the guard is disarmed, or it records at least one error and
  leaves the guard alone.  It lasts at most its timeout, or the grace period if the send failed.\<close>

lemma phase_effect:
  assumes "attempt_graceful_phase E name t ds (send i) h = (out, ds', h')"
  shows "handle_frame h h' \<and> (\<exists>es. ds' = ds @ es \<and> (out = None \<longrightarrow> es \<noteq> [])) \<and>
    drop_mode h' = (if out = None then drop_mode h else Disarmed) \<and>
    (\<forall>st. out = Some st \<longrightarrow> exit_observed E st h')"
    and "handle_clock h' \<le> handle_clock h + max t REAP_AFTER_SIGNAL_FAILURE_GRACE"
    and "fst (send i h) = Inr () \<Longrightarrow> handle_clock h' \<le> handle_clock h + t"
proof -
  obtain r hs where s: "send i h = (r, hs)" by fastforce
  note sf = send_frame [OF s]
  define T where "T = (case r of Inr _ \<Rightarrow> t | Inl _ \<Rightarrow> REAP_AFTER_SIGNAL_FAILURE_GRACE)"
  obtain w hw where w: "wait_for_exit_after_signal E hs T = (w, hw)" by fastforce
  note wf = wait_for_exit_effect [OF w]
  have frame: "handle_frame h hw" using sf wf(1) handle_frame_trans by blast
  have obs: "w = Inr (Some st) \<Longrightarrow> exit_observed E st hw" for st
    using w wait_for_exit_observed by blast
  have res: "h' = hw \<and> out = (case w of Inr (Some st) \<Rightarrow> Some st | _ \<Rightarrow> None) \<and>
    (\<exists>es. ds' = ds @ es \<and> (out = None \<longrightarrow> es \<noteq> []))"
    using assms s w
    by (auto simp: attempt_graceful_phase_def T_def record_attempt_def Let_def
        split: sum.splits option.splits prod.splits)
  show "handle_frame h h' \<and> (\<exists>es. ds' = ds @ es \<and> (out = None \<longrightarrow> es \<noteq> [])) \<and>
    drop_mode h' = (if out = None then drop_mode h else Disarmed) \<and>
    (\<forall>st. out = Some st \<longrightarrow> exit_observed E st h')"
    using res frame wf(2) sf obs by (auto split: sum.splits option.splits)
  show "handle_clock h' \<le> handle_clock h + max t REAP_AFTER_SIGNAL_FAILURE_GRACE"
    using res wf(5) sf by (auto simp: T_def split: sum.splits)
  show "fst (send i h) = Inr () \<Longrightarrow> handle_clock h' \<le> handle_clock h + t"
    using res wf(5) sf s by (auto simp: T_def)
qed

lemma phases_effect:
  assumes "graceful_phases E send i steps ds h = (out, ds', h')"
  shows "handle_frame h h' \<and>
    (\<exists>es. ds' = ds @ es \<and> (out = None \<longrightarrow> length steps \<le> length es)) \<and>
    drop_mode h' = (if out = None then drop_mode h else Disarmed) \<and>
    (\<forall>st. out = Some st \<longrightarrow> exit_observed E st h')"
  using assms
proof (induction steps arbitrary: i ds h)
  case (Cons step steps)
  obtain out1 ds1 h1 where p: "attempt_graceful_phase E (signal_label step) (step_timeout step) ds (send i) h = (out1, ds1, h1)"
    by (metis prod_cases3)
  note eff = phase_effect(1) [OF p]
  show ?case
  proof (cases out1)
    case None
    then have rest: "graceful_phases E send (i + 1) steps ds1 h1 = (out, ds', h')"
      using Cons.prems p by simp
    from eff None obtain es1 where es1: "ds1 = ds @ es1" "es1 \<noteq> []" by auto
    from Cons.IH [OF rest] obtain es2 where es2: "ds' = ds1 @ es2" "out = None \<longrightarrow> length steps \<le> length es2"
      by auto
    have "ds' = ds @ (es1 @ es2)" "out = None \<longrightarrow> length (step # steps) \<le> length (es1 @ es2)"
      using es1 es2 by (cases es1; auto)+
    moreover have "handle_frame h h'" using Cons.IH [OF rest] eff handle_frame_trans by blast
    moreover have "drop_mode h' = (if out = None then drop_mode h else Disarmed)"
      using Cons.IH [OF rest] eff None by simp
    moreover have "\<forall>st. out = Some st \<longrightarrow> exit_observed E st h'" using Cons.IH [OF rest] by blast
    ultimately show ?thesis by blast
  next
    case (Some st)
    then show ?thesis using Cons.prems p eff by auto
  qed
qed simp

lemma phases_clock:
  assumes "graceful_phases E send i steps ds h = (out, ds', h')"
    and "\<forall>j k. fst (send j k) = Inr () \<or> grace = REAP_AFTER_SIGNAL_FAILURE_GRACE"
  shows "handle_clock h' \<le> handle_clock h + sum_list (map (\<lambda>s. max (step_timeout s) grace) steps)"
  using assms(1)
proof (induction steps arbitrary: i ds h)
  case (Cons step steps)
  obtain out1 ds1 h1 where p: "attempt_graceful_phase E (signal_label step) (step_timeout step) ds (send i) h = (out1, ds1, h1)"
    by (metis prod_cases3)
  obtain r k where s: "send i h = (r, k)" by fastforce
  have "handle_clock h1 \<le> handle_clock h + max (step_timeout step) grace"
    using phase_effect(2,3) [OF p] assms(2) s by fastforce
  moreover have "(out, ds', h') = (out1, ds1, h1) \<or> graceful_phases E send (i + 1) steps ds1 h1 = (out, ds', h')"
    using Cons.prems p by (auto split: option.splits)
  ultimately show ?case using Cons.IH by fastforce
qed simp

end

text \<open>The forceful kill needs no hooks.\<close>

lemma forceful_kill_effect:
  "\<exists>r h'. attempt_forceful_kill E ds h = Inr (r, h') \<and> handle_frame h h' \<and>
     drop_mode h' = (case r of Inl _ \<Rightarrow> drop_mode h | Inr _ \<Rightarrow> Disarmed) \<and>
     (case r of Inr st \<Rightarrow> exit_observed E st h'
      | Inl e \<Rightarrow> \<exists>es. e = TerminationFailed (ph_name h) (ds @ es) \<and> es \<noteq> []) \<and>
     handle_clock h' \<le> handle_clock h + FORCE_KILL_WAIT_TIMEOUT \<and>
     (\<forall>p. handle_id E h = Some p \<longrightarrow>
        handle_sent h' = handle_sent h @ [kill_call (target (ph_group h)) (job (ph_group h)) p])"
proof -
  obtain k hk where k: "send_kill_signal E h = (k, hk)" by fastforce
  note kf = send_kill_signal_effect [OF k]
  define T where "T = (case k of Inr _ \<Rightarrow> FORCE_KILL_WAIT_TIMEOUT | Inl _ \<Rightarrow> REAP_AFTER_SIGNAL_FAILURE_GRACE)"
  have T: "T \<le> FORCE_KILL_WAIT_TIMEOUT"
    by (simp add: T_def FORCE_KILL_WAIT_TIMEOUT_def REAP_AFTER_SIGNAL_FAILURE_GRACE_def from_secs_def
        from_millis_def split: sum.splits)
  obtain w hw where w: "wait_for_exit_after_signal E hk T = (w, hw)" by fastforce
  note wf = wait_for_exit_effect [OF w]
  have frame: "handle_frame h hw" using kf(1) wf(1) handle_frame_trans by blast
  have obs: "w = Inr (Some st) \<Longrightarrow> exit_observed E st hw" for st
    using w wait_for_exit_observed by blast
  have "\<exists>r. attempt_forceful_kill E ds h = Inr (r, hw) \<and>
    (case w of Inr (Some st) \<Rightarrow> r = Inr st
     | _ \<Rightarrow> \<exists>es. r = Inl (TerminationFailed (ph_name hw) (ds @ es)) \<and> es \<noteq> [])"
    using k w by (cases k; cases w) (auto simp: attempt_forceful_kill_def T_def record_attempt_def Let_def
        fail_with_def into_termination_failed_def split: option.splits)
  then obtain r where r: "attempt_forceful_kill E ds h = Inr (r, hw)"
    and rw: "case w of Inr (Some st) \<Rightarrow> r = Inr st
     | _ \<Rightarrow> \<exists>es. r = Inl (TerminationFailed (ph_name hw) (ds @ es)) \<and> es \<noteq> []" by blast
  have "drop_mode hw = (case r of Inl _ \<Rightarrow> drop_mode h | Inr _ \<Rightarrow> Disarmed)"
    using wf(2) kf(2) rw by (auto split: sum.splits option.splits)
  moreover have "case r of Inr st \<Rightarrow> exit_observed E st hw
      | Inl e \<Rightarrow> \<exists>es. e = TerminationFailed (ph_name h) (ds @ es) \<and> es \<noteq> []"
    using rw obs handle_frame_name [OF frame] by (auto split: sum.splits option.splits)
  moreover have "handle_clock hw \<le> handle_clock h + FORCE_KILL_WAIT_TIMEOUT"
    using wf(5) kf(4) T by simp
  ultimately show ?thesis using r frame kf(5) wf(4) by auto
qed

context signal_hooks
begin

text \<open>The loop is a preflight, then the phases, then the kill; this is its case distinction, shared by the
  lemmas below.\<close>

lemma run_loop_cases:
  assumes "steps \<noteq> []"
  obtains (exited) st h1 where "try_reap h = (Inr (Some st), h1)"
      "run_termination_loop E steps try_reap send h = Inr (Inr st, h1\<lparr>drop_mode := Disarmed\<rparr>)"
  | (phase) c h1 ds st ds2 h2 where "try_reap h = (c, h1)" "\<And>st. c \<noteq> Inr (Some st)"
      "graceful_phases E send 0 steps ds h1 = (Some st, ds2, h2)"
      "run_termination_loop E steps try_reap send h = Inr (Inr st, h2\<lparr>drop_mode := Disarmed\<rparr>)"
  | (killed) c h1 ds ds2 h2 r h3 where "try_reap h = (c, h1)" "\<And>st. c \<noteq> Inr (Some st)"
      "graceful_phases E send 0 steps ds h1 = (None, ds2, h2)"
      "attempt_forceful_kill E ds2 h2 = Inr (r, h3)"
      "run_termination_loop E steps try_reap send h
        = Inr (r, case r of Inr _ \<Rightarrow> h3\<lparr>drop_mode := Disarmed\<rparr> | Inl _ \<Rightarrow> h3)"
proof -
  obtain c h1 where c: "try_reap h = (c, h1)" by fastforce
  show thesis
  proof (cases "\<exists>st. c = Inr (Some st)")
    case True
    then show thesis
      using c assms by (auto simp: run_termination_loop_def disarm_after_successful_termination_def intro: exited)
  next
    case False
    define ds :: termination_diagnostics
      where "ds = (case c of Inl err \<Rightarrow> record_attempt [] CheckStatus (IoSource err) | Inr _ \<Rightarrow> [])"
    obtain out ds2 h2 where g: "graceful_phases E send 0 steps ds h1 = (out, ds2, h2)" by (metis prod_cases3)
    obtain r h3 where k: "attempt_forceful_kill E ds2 h2 = Inr (r, h3)"
      using forceful_kill_effect by blast
    have run: "run_termination_loop E steps try_reap send h =
      (case out of Some st \<Rightarrow> Inr (Inr st, h2\<lparr>drop_mode := Disarmed\<rparr>)
       | None \<Rightarrow> Inr (r, case r of Inr _ \<Rightarrow> h3\<lparr>drop_mode := Disarmed\<rparr> | Inl _ \<Rightarrow> h3))"
      using assms c False g k unfolding ds_def
      by (cases c; cases out; cases r)
        (auto simp: run_termination_loop_def disarm_after_successful_termination_def split: option.splits)
    show thesis
    proof (cases out)
      case None
      then show thesis using killed [OF c _ _ k] False g run by auto
    next
      case (Some st)
      then show thesis using phase [OF c] False g run by auto
    qed
  qed
qed

lemma run_loop_outcome:
  assumes "steps \<noteq> []"
  shows "\<exists>r h'. run_termination_loop E steps try_reap send h = Inr (r, h') \<and> handle_frame h h' \<and>
    (case r of
       Inr st \<Rightarrow> drop_mode h' = Disarmed \<and> exit_observed E st h'
     | Inl e \<Rightarrow> drop_mode h' = drop_mode h \<and>
         (\<exists>errs. e = TerminationFailed (ph_name h) errs \<and> length steps < length errs))"
  using assms
proof (cases rule: run_loop_cases [of _ h])
  case (exited st h1)
  then show ?thesis using reap_frame reap_observed by auto
next
  case (phase c h1 ds st ds2 h2)
  then show ?thesis using reap_frame [OF phase(1)] phases_effect [OF phase(3)] handle_frame_trans by auto
next
  case (killed c h1 ds ds2 h2 r h3)
  note rf = reap_frame [OF killed(1)] and pf = phases_effect [OF killed(3)]
  have frame: "handle_frame h h2" using rf pf handle_frame_trans by blast
  have kf: "handle_frame h2 h3" "drop_mode h3 = (case r of Inl _ \<Rightarrow> drop_mode h2 | Inr _ \<Rightarrow> Disarmed)"
    "case r of Inr st \<Rightarrow> exit_observed E st h3
      | Inl e \<Rightarrow> \<exists>es. e = TerminationFailed (ph_name h2) (ds2 @ es) \<and> es \<noteq> []"
    using forceful_kill_effect [of E ds2 h2] killed(4) by auto
  from pf obtain es where es: "ds2 = ds @ es" "length steps \<le> length es" by auto
  show ?thesis
  proof (cases r)
    case (Inl e)
    with kf(3) obtain es2 where "e = TerminationFailed (ph_name h2) (ds2 @ es2)" "es2 \<noteq> []" by auto
    moreover from this es have "length steps < length (ds2 @ es2)" by (cases es2) auto
    ultimately show ?thesis
      using killed(5) Inl kf frame rf pf handle_frame_trans [OF frame kf(1)] handle_frame_name [OF frame] by auto
  next
    case (Inr st)
    then show ?thesis using killed(5) kf handle_frame_trans [OF frame kf(1)] by auto
  qed
qed

lemma run_loop_clock:
  assumes "steps \<noteq> []" "run_termination_loop E steps try_reap send h = Inr (r, h')"
    and "\<forall>j k. fst (send j k) = Inr () \<or> grace = REAP_AFTER_SIGNAL_FAILURE_GRACE"
  shows "handle_clock h' \<le> handle_clock h + sum_list (map (\<lambda>s. max (step_timeout s) grace) steps)
    + FORCE_KILL_WAIT_TIMEOUT"
  using assms(1)
proof (cases rule: run_loop_cases [of _ h])
  case (exited st h1)
  then show ?thesis using reap_frame assms(2) by auto
next
  case (phase c h1 ds st ds2 h2)
  then show ?thesis using reap_frame [OF phase(1)] phases_clock [OF phase(3) assms(3)] assms(2) by auto
next
  case (killed c h1 ds ds2 h2 r' h3)
  have "handle_clock h3 \<le> handle_clock h2 + FORCE_KILL_WAIT_TIMEOUT"
    using forceful_kill_effect [of E ds2 h2] killed(4) by auto
  moreover have "handle_clock h' = handle_clock h3" using killed(5) assms(2) by (auto split: sum.splits)
  ultimately show ?thesis using reap_frame [OF killed(1)] phases_clock [OF killed(3) assms(3)] by simp
qed

end

section \<open>A child keeps its PID until its exit is reported\<close>

text \<open>Documented behaviour of \<open>Child::id\<close>: it answers \<open>None\<close> only once the child was polled to completion.\<close>

definition keeps_id :: "'c child_ops \<Rightarrow> bool" where
  "keeps_id E \<longleftrightarrow>
     (\<forall>s r s'. child_try_wait E s = (r, s') \<and> (\<forall>st. r \<noteq> Inr (Some st)) \<longrightarrow> child_id E s' = child_id E s) \<and>
     (\<forall>s d e s'. child_wait E s = Some (d, Inl e, s') \<longrightarrow> child_id E s' = child_id E s) \<and>
     (\<forall>t s. child_id E (child_elapse E t s) = child_id E s) \<and>
     (\<forall>q signal s. child_id E (snd (os_killpg E q signal s)) = child_id E s) \<and>
     (\<forall>q s. child_id E (snd (win_ctrl_break E q s)) = child_id E s)"

lemma keeps_idD:
  assumes "keeps_id E"
  shows "child_try_wait E s = (r, s') \<Longrightarrow> (\<forall>st. r \<noteq> Inr (Some st)) \<Longrightarrow> child_id E s' = child_id E s"
    "child_wait E s = Some (d, Inl e, s') \<Longrightarrow> child_id E s' = child_id E s"
    "child_id E (child_elapse E t s) = child_id E s"
    "child_id E (snd (os_killpg E q signal s)) = child_id E s"
    "child_id E (snd (win_ctrl_break E w s)) = child_id E s"
  using assms by (simp_all add: keeps_id_def)

lemma try_reap_keeps_id:
  assumes "keeps_id E" "try_reap_exit_status E h = (c, h')" "\<forall>st. c \<noteq> Inr (Some st)"
  shows "handle_id E h' = handle_id E h"
  using assms(2,3) keeps_idD(1) [OF assms(1)]
  by (auto simp: try_reap_exit_status_def on_group_def group_try_wait_def handle_id_def group_id_def
      split: prod.splits)

lemma wait_for_exit_keeps_id:
  assumes "keeps_id E" "wait_for_exit_after_signal E h t = (r, h')" "\<forall>st. r \<noteq> Inr (Some st)"
  shows "handle_id E h' = handle_id E h"
  using assms(2,3) keeps_idD(2,3) [OF assms(1)]
  by (auto simp: wait_for_exit_after_signal_def wait_for_completion_inner_def wait_with_timeout_def
      handle_wait_def handle_wait_pending_def group_wait_def group_wait_pending_def close_stdin_def
      handle_id_def group_id_def Let_def
      split: option.splits prod.splits sum.splits if_splits)

lemma send_keeps_id:
  assumes "keeps_id E" "handle_id E h = Some p"
  shows "on_group (send_interrupt E) h = (r, h') \<Longrightarrow> handle_id E h' = Some p"
    "on_group (send_terminate E) h = (r, h') \<Longrightarrow> handle_id E h' = Some p"
    "on_group (send_ctrl_break E) h = (r, h') \<Longrightarrow> handle_id E h' = Some p"
  using assms(2) keeps_idD(4,5) [OF assms(1)]
  by (auto simp: on_group_def send_interrupt_def send_terminate_def send_ctrl_break_def on_leader_def
      send_to_process_group_def handle_id_def group_id_def Let_def split: prod.splits)
    (metis snd_conv)+

locale addressed_hooks = signal_hooks +
  fixes sig :: "nat \<Rightarrow> pid \<Rightarrow> os_call"
  assumes send_sent: "keeps_id E \<Longrightarrow> send i h = (r, h') \<Longrightarrow> handle_id E h = Some p \<Longrightarrow>
      handle_sent h' = handle_sent h @ [sig i p] \<and> handle_id E h' = Some p"
    and reap_id: "keeps_id E \<Longrightarrow> try_reap h = (c, h') \<Longrightarrow> \<forall>st. c \<noteq> Inr (Some st) \<Longrightarrow> handle_id E h' = handle_id E h"
begin

lemma phase_sent:
  assumes keeps: "keeps_id E"
    and "attempt_graceful_phase E name t ds (send i) h = (out, ds', h')" "handle_id E h = Some p"
  shows "handle_sent h' = handle_sent h @ [sig i p] \<and> (out = None \<longrightarrow> handle_id E h' = Some p)"
proof -
  obtain r hs where s: "send i h = (r, hs)" by fastforce
  define T where "T = (case r of Inr _ \<Rightarrow> t | Inl _ \<Rightarrow> REAP_AFTER_SIGNAL_FAILURE_GRACE)"
  obtain w hw where w: "wait_for_exit_after_signal E hs T = (w, hw)" by fastforce
  have "h' = hw \<and> (out = None \<longrightarrow> (\<forall>st. w \<noteq> Inr (Some st)))"
    using assms(2) s w
    by (auto simp: attempt_graceful_phase_def T_def Let_def split: sum.splits option.splits prod.splits)
  then show ?thesis
    using send_sent [OF keeps s assms(3)] wait_for_exit_effect(4) [OF w] wait_for_exit_keeps_id [OF keeps w] by simp
qed

lemma phases_sent:
  assumes keeps: "keeps_id E"
    and "graceful_phases E send i steps ds h = (out, ds', h')" "handle_id E h = Some p"
  shows "\<exists>k \<le> length steps. handle_sent h' = handle_sent h @ map (\<lambda>j. sig j p) [i ..< i + k] \<and>
    (out = None \<longrightarrow> k = length steps \<and> handle_id E h' = Some p) \<and> (out \<noteq> None \<longrightarrow> 0 < k)"
  using assms(2,3)
proof (induction steps arbitrary: i ds h)
  case Nil
  then show ?case by auto
next
  case (Cons step steps)
  obtain out1 ds1 h1 where p: "attempt_graceful_phase E (signal_label step) (step_timeout step) ds (send i) h = (out1, ds1, h1)"
    by (metis prod_cases3)
  note sent1 = phase_sent [OF keeps p Cons.prems(2)]
  show ?case
  proof (cases out1)
    case None
    then have rest: "graceful_phases E send (Suc i) steps ds1 h1 = (out, ds', h')"
      using Cons.prems(1) p by simp
    from Cons.IH [OF rest] sent1 None obtain k where k: "k \<le> length steps"
      "handle_sent h' = handle_sent h1 @ map (\<lambda>j. sig j p) [Suc i ..< Suc i + k]"
      "out = None \<longrightarrow> k = length steps \<and> handle_id E h' = Some p" by auto
    have "[i ..< i + Suc k] = i # [Suc i ..< Suc i + k]" using upt_rec by simp
    then show ?thesis using k sent1 by (intro exI [of _ "Suc k"]) simp
  next
    case (Some st)
    then show ?thesis using Cons.prems(1) p sent1 by (intro exI [of _ 1]) auto
  qed
qed

text \<open>The signals of a run, in order: the phases' signals one after the other and the kill last.\<close>

lemma run_loop_sent:
  assumes "steps \<noteq> []" and keeps: "keeps_id E" and "run_termination_loop E steps try_reap send h = Inr (r, h')"
    and "handle_id E h = Some p"
  defines "all \<equiv> map (\<lambda>j. sig j p) [0 ..< length steps] @ [kill_call (target (ph_group h)) (job (ph_group h)) p]"
  shows "\<exists>now. handle_sent h' = handle_sent h @ now \<and> prefix now all \<and>
    (now = [] \<longleftrightarrow> (\<exists>st. fst (try_reap h) = Inr (Some st))) \<and> (\<forall>e. r = Inl e \<longrightarrow> now = all)"
  using assms(1)
proof (cases rule: run_loop_cases [of _ h])
  case (exited st h1)
  then show ?thesis using assms(3) reap_frame [OF exited(1)] by (intro exI [of _ "[]"]) auto
next
  case (phase c h1 ds st ds2 h2)
  have id: "handle_id E h1 = Some p" using reap_id [OF keeps phase(1)] phase(2) assms(4) by simp
  obtain k where k: "k \<le> length steps" "0 < k" "handle_sent h2 = handle_sent h1 @ map (\<lambda>j. sig j p) [0 ..< k]"
    using phases_sent [OF keeps phase(3) id] by auto
  have "[0 ..< length steps] = [0 ..< k] @ [k ..< length steps]" 
    using upt_add_eq_append [of 0 k "length steps - k"] k(1) by simp
  then have "prefix (map (\<lambda>j. sig j p) [0 ..< k]) all" by (simp add: all_def)
  then show ?thesis
    using assms(3) phase k reap_frame [OF phase(1)]
    by (intro exI [of _ "map (\<lambda>j. sig j p) [0 ..< k]"]) auto
next
  case (killed c h1 ds ds2 h2 r' h3)
  have id: "handle_id E h1 = Some p" using reap_id [OF keeps killed(1)] killed(2) assms(4) by simp
  have sent2: "handle_sent h2 = handle_sent h1 @ map (\<lambda>j. sig j p) [0 ..< length steps]" "handle_id E h2 = Some p"
    using phases_sent [OF keeps killed(3) id] by auto
  have frame: "handle_frame h h2" using reap_frame [OF killed(1)] phases_effect [OF killed(3)] handle_frame_trans by blast
  have "handle_sent h3 = handle_sent h2 @ [kill_call (target (ph_group h2)) (job (ph_group h2)) p]"
    using forceful_kill_effect [of E ds2 h2] killed(4) sent2(2) by auto
  then have "handle_sent h' = handle_sent h @ all"
    using sent2 frame assms(3) killed(5) reap_frame [OF killed(1)]
    by (auto simp: all_def handle_frame_def split: sum.splits)
  then show ?thesis using killed by (intro exI [of _ all]) (auto simp: all_def)
qed

end

section \<open>The hooks of terminate\<close>

abbreviation unix_sender :: "'c child_ops \<Rightarrow> unix_graceful_shutdown \<Rightarrow> ('c, 'o, 'e) sender" where
  "unix_sender E u \<equiv> \<lambda>index. send_unix_signal E (phase_signal (phases u ! index))"

definition unix_call :: "unix_graceful_signal \<Rightarrow> pid \<Rightarrow> os_call" where
  "unix_call s p = CallKillpg (sint p) (case s of Interrupt \<Rightarrow> SIGINT | Terminate \<Rightarrow> SIGTERM)"

lemma on_group_conv: "on_group f h = (r, h') \<longleftrightarrow> (\<exists>g. f (ph_group h) = (r, g) \<and> h' = h\<lparr>ph_group := g\<rparr>)"
  by (auto simp: on_group_def split: prod.splits)

lemma on_group_frame:
  assumes "on_group (send_interrupt E) h = (r, h') \<or> on_group (send_terminate E) h = (r, h') \<or>
    on_group (send_ctrl_break E) h = (r, h')"
  shows "handle_frame h h' \<and> drop_mode h' = drop_mode h \<and> std_in h' = std_in h \<and> handle_clock h' = handle_clock h"
proof -
  obtain g where g: "send_interrupt E (ph_group h) = (r, g) \<or> send_terminate E (ph_group h) = (r, g) \<or>
    send_ctrl_break E (ph_group h) = (r, g)" "h' = h\<lparr>ph_group := g\<rparr>"
    using assms unfolding on_group_conv by blast
  from send_signal_effect [OF g(1)] g(2) show ?thesis by (simp add: handle_frame_def)
qed

lemma on_group_sent:
  assumes "handle_id E h = Some p"
  shows "on_group (send_interrupt E) h = (r, h') \<Longrightarrow> handle_sent h' = handle_sent h @ [CallKillpg (sint p) SIGINT]"
    "on_group (send_terminate E) h = (r, h') \<Longrightarrow> handle_sent h' = handle_sent h @ [CallKillpg (sint p) SIGTERM]"
    "on_group (send_ctrl_break E) h = (r, h') \<Longrightarrow> handle_sent h' = handle_sent h @ [CallCtrlBreak p]"
  using assms unfolding on_group_conv handle_id_def
  by (auto dest: send_signal_sent(1) send_signal_sent(2) send_signal_sent(3))

lemma send_unix_frame:
  "send_unix_signal E s h = (r, h') \<Longrightarrow>
   handle_frame h h' \<and> drop_mode h' = drop_mode h \<and> std_in h' = std_in h \<and> handle_clock h' = handle_clock h"
  using on_group_frame [of E h r h'] by (cases s) (simp_all add: send_unix_signal_def)

lemma send_unix_sent:
  assumes "keeps_id E" "send_unix_signal E s h = (r, h')" "handle_id E h = Some p"
  shows "handle_sent h' = handle_sent h @ [unix_call s p] \<and> handle_id E h' = Some p"
  using assms(2) on_group_sent [OF assms(3), of r h'] send_keeps_id [OF assms(1,3), of r h']
  by (cases s) (simp_all add: send_unix_signal_def unix_call_def)

lemma try_reap_frame:
  "try_reap_exit_status E h = (c, h') \<Longrightarrow>
   handle_frame h h' \<and> drop_mode h' = drop_mode h \<and> handle_clock h' = handle_clock h \<and> handle_sent h' = handle_sent h"
  using try_reap_effect [of E h c h'] by simp

interpretation unix_hooks: addressed_hooks E "try_reap_exit_status E" "unix_sender E u"
  "\<lambda>i. unix_call (phase_signal (phases u ! i))" for E :: "'c child_ops" and u :: unix_graceful_shutdown
proof unfold_locales
qed (use send_unix_frame try_reap_frame try_reap_observed send_unix_sent try_reap_keeps_id in metis)+

interpretation windows_hooks: addressed_hooks E "try_reap_exit_status E" "\<lambda>_. on_group (send_ctrl_break E)"
  "\<lambda>_. CallCtrlBreak" for E :: "'c child_ops"
proof unfold_locales
qed (use on_group_frame try_reap_frame try_reap_observed on_group_sent(3) send_keeps_id(3) try_reap_keeps_id in metis)+

section \<open>The contract of terminate\<close>

text \<open>The steps and the sender the loop is given.\<close>

definition shutdown_steps :: "graceful_shutdown \<Rightarrow> termination_step list" where
  "shutdown_steps sd =
     (case sd of
        ShutdownOnUnix u \<Rightarrow>
          map (\<lambda>phase. \<lparr>signal_label = label (phase_signal phase), step_timeout = phase_timeout phase\<rparr>) (phases u)
      | ShutdownOnWindows w \<Rightarrow> [\<lparr>signal_label = ''CTRL_BREAK_EVENT'', step_timeout = windows_timeout w\<rparr>])"

lemma shutdown_steps_simps [simp]:
  "map step_timeout (shutdown_steps sd) = phase_timeouts sd"
  "length (shutdown_steps sd) = length (phase_timeouts sd)"
  "shutdown_steps sd = [] \<longleftrightarrow> \<not> shutdown_ok sd"
  by (auto simp: shutdown_steps_def phase_timeouts_def shutdown_ok_def comp_def split: graceful_shutdown.splits)

lemma map_shutdown_steps:
  "map (\<lambda>s. f (step_timeout s)) (shutdown_steps sd) = map f (phase_timeouts sd)"
  by (simp add: shutdown_steps_simps(1) [symmetric] comp_def del: shutdown_steps_simps)

lemma terminate_unfold:
  "terminate E h (ShutdownOnUnix u) =
     run_termination_loop E (shutdown_steps (ShutdownOnUnix u)) (try_reap_exit_status E) (unix_sender E u) h"
  "terminate E h (ShutdownOnWindows w) =
     run_termination_loop E (shutdown_steps (ShutdownOnWindows w)) (try_reap_exit_status E)
       (\<lambda>_. on_group (send_ctrl_break E)) h"
  by (simp_all add: terminate_def terminate_with_hooks_unix_def terminate_with_hooks_windows_def shutdown_steps_def)

lemma terminate_result:
  assumes "shutdown_ok sd"
  shows "\<exists>r h'. terminate E h sd = Inr (r, h') \<and> handle_frame h h' \<and>
    (case r of
       Inr st \<Rightarrow> is_drop_disarmed h' \<and> exit_observed E st h'
     | Inl e \<Rightarrow> drop_mode h' = drop_mode h \<and>
         (\<exists>errs. e = TerminationFailed (ph_name h) errs \<and> length (phase_timeouts sd) < length errs))"
proof -
  have steps: "shutdown_steps sd \<noteq> []" using assms by simp
  show ?thesis
  proof (cases sd)
    case (ShutdownOnUnix u)
    then show ?thesis using unix_hooks.run_loop_outcome [OF steps, of E u h] by (simp add: terminate_unfold cong: sum.case_cong)
  next
    case (ShutdownOnWindows w)
    then show ?thesis using windows_hooks.run_loop_outcome [OF steps, of E h] by (simp add: terminate_unfold cong: sum.case_cong)
  qed
qed

lemma drop_result:
  "is_drop_armed h \<Longrightarrow> fst (process_handle_drop E panicking h) = Inr () \<longleftrightarrow> panicking"
  "drop_mode h = Disarmed \<Longrightarrow> fst (process_handle_drop E panicking h) = Inr () \<and>
     sent (fst (snd (process_handle_drop E panicking h))) = handle_sent h"
proof -
  have "drop_mode (snd (send_kill_signal E h)) = drop_mode h"
    using send_kill_signal_effect(2) [of E h] by (metis prod.collapse)
  then show "is_drop_armed h \<Longrightarrow> fst (process_handle_drop E panicking h) = Inr () \<longleftrightarrow> panicking"
    by (auto simp: process_handle_drop_def panic_on_drop_drop_def is_drop_armed_def Let_def split: drop_mode.splits)
  show "drop_mode h = Disarmed \<Longrightarrow> fst (process_handle_drop E panicking h) = Inr () \<and>
     sent (fst (snd (process_handle_drop E panicking h))) = handle_sent h"
    by (simp add: process_handle_drop_def into_leader_def job_drop_def split: option.splits)
qed

text \<open>C2: \<open>terminate\<close> always returns, and without panicking.  \<open>Ok\<close> carries the exit status the child last
  reported, and the handle can then be dropped without a panic or another signal; \<open>Err\<close> is a
  \<open>TerminationFailed\<close> that names the process and holds more attempt errors than the sequence has phases
  (each phase and the kill left one), and dropping a handle that was armed before panics unless the
  thread unwinds already.  The rest of the handle (name, streams, group) is untouched.\<close>

theorem terminate_outcome:
  assumes "shutdown_ok sd" "is_drop_armed h"
  shows "\<exists>r h'. terminate E h sd = Inr (r, h') \<and> handle_frame h h' \<and>
    (case r of
       Inr st \<Rightarrow> exit_observed E st h' \<and> fst (process_handle_drop E panicking h') = Inr () \<and>
         sent (fst (snd (process_handle_drop E panicking h'))) = handle_sent h'
     | Inl e \<Rightarrow> (\<exists>errs. e = TerminationFailed (ph_name h) errs \<and> length (phase_timeouts sd) < length errs) \<and>
         (fst (process_handle_drop E panicking h') = Inr () \<longleftrightarrow> panicking))"
proof -
  obtain r h' where t: "terminate E h sd = Inr (r, h')" "handle_frame h h'"
    and r: "case r of
       Inr st \<Rightarrow> is_drop_disarmed h' \<and> exit_observed E st h'
     | Inl e \<Rightarrow> drop_mode h' = drop_mode h \<and>
         (\<exists>errs. e = TerminationFailed (ph_name h) errs \<and> length (phase_timeouts sd) < length errs)"
    using terminate_result [OF assms(1), of E h] by blast
  show ?thesis
  proof (cases r)
    case (Inl e)
    then have "is_drop_armed h'" using r assms(2) is_drop_armed_cong by auto
    then show ?thesis using t r Inl drop_result(1) by auto
  next
    case (Inr st)
    then show ?thesis using t r drop_result(2) by auto
  qed
qed

text \<open>The calls that send the signals of a sequence.\<close>

definition phase_calls :: "graceful_shutdown \<Rightarrow> pid \<Rightarrow> os_call list" where
  "phase_calls sd p =
     (case sd of ShutdownOnUnix u \<Rightarrow> map (\<lambda>ph. unix_call (phase_signal ph) p) (phases u)
      | ShutdownOnWindows _ \<Rightarrow> [CallCtrlBreak p])"

lemma phase_calls_conv:
  "phase_calls (ShutdownOnUnix u) p =
     map (\<lambda>j. unix_call (phase_signal (phases u ! j)) p) [0 ..< length (phase_timeouts (ShutdownOnUnix u))]"
  "phase_calls (ShutdownOnWindows w) p = map (\<lambda>_. CallCtrlBreak p) [0 ..< length (phase_timeouts (ShutdownOnWindows w))]"
  by (auto intro!: nth_equalityI simp: phase_calls_def phase_timeouts_def)

text \<open>C6: Escalation order.  For a child that has a PID, the signals one call of \<open>terminate\<close> sends are a
  prefix of the configured phases in order followed by one kill of the group; none is sent exactly when
  the preflight poll reports the exit, and all are sent when the call fails.\<close>

theorem terminate_signal_order:
  assumes "shutdown_ok sd" "keeps_id E" "handle_id E h = Some p" "terminate E h sd = Inr (r, h')"
  shows "\<exists>now. handle_sent h' = handle_sent h @ now \<and>
    prefix now (phase_calls sd p @ [kill_call (target (ph_group h)) (job (ph_group h)) p]) \<and>
    (now = [] \<longleftrightarrow> (\<exists>st. fst (try_reap_exit_status E h) = Inr (Some st))) \<and>
    (\<forall>e. r = Inl e \<longrightarrow> now = phase_calls sd p @ [kill_call (target (ph_group h)) (job (ph_group h)) p])"
proof -
  have steps: "shutdown_steps sd \<noteq> []" using assms(1) by simp
  show ?thesis
  proof (cases sd)
    case (ShutdownOnUnix u)
    then show ?thesis
      using unix_hooks.run_loop_sent [OF steps assms(2) _ assms(3), of u r h'] assms(4)
      by (simp add: terminate_unfold phase_calls_conv)
  next
    case (ShutdownOnWindows w)
    then show ?thesis
      using windows_hooks.run_loop_sent [OF steps assms(2) _ assms(3), of r h'] assms(4)
      by (simp add: terminate_unfold phase_calls_conv)
  qed
qed

lemma terminate_clock:
  fixes h :: "('c, 'o, 'e) process_handle"
  assumes "shutdown_ok sd" "terminate E h sd = Inr (r, h')"
    and "grace = REAP_AFTER_SIGNAL_FAILURE_GRACE \<or>
      (\<forall>q signal s. fst (os_killpg E q signal s) = Inr ()) \<and> (\<forall>q s. fst (win_ctrl_break E q s))"
  shows "handle_clock h' \<le> handle_clock h + sum_list (map (\<lambda>t. max t grace) (phase_timeouts sd))
    + FORCE_KILL_WAIT_TIMEOUT"
proof -
  have steps: "shutdown_steps sd \<noteq> []" using assms(1) by simp
  have sends: "grace = REAP_AFTER_SIGNAL_FAILURE_GRACE \<or>
      fst (on_group (send_interrupt E) k) = Inr () \<and> fst (on_group (send_terminate E) k) = Inr () \<and>
      fst (on_group (send_ctrl_break E) k) = Inr ()" for k :: "('c, 'o, 'e) process_handle"
    using assms(3)
    by (auto simp: on_group_def send_interrupt_def send_terminate_def send_ctrl_break_def on_leader_def
        send_to_process_group_def Let_def split: option.splits prod.splits sum.splits) (metis fst_conv sum.simps(4))+
  show ?thesis
  proof (cases sd)
    case (ShutdownOnUnix u)
    have "\<forall>j (k :: ('c, 'o, 'e) process_handle).
      fst (unix_sender E u j k) = Inr () \<or> grace = REAP_AFTER_SIGNAL_FAILURE_GRACE"
      using sends by (auto simp: send_unix_signal_def split: unix_graceful_signal.splits)
    then show ?thesis
      using unix_hooks.run_loop_clock [OF steps, of E u h r h' grace] assms(2) ShutdownOnUnix
      by (simp add: terminate_unfold map_shutdown_steps [of "\<lambda>t. max t grace"])
  next
    case (ShutdownOnWindows w)
    then show ?thesis
      using windows_hooks.run_loop_clock [OF steps, of E h r h' grace] assms(2) sends
      by (auto simp: terminate_unfold map_shutdown_steps [of "\<lambda>t. max t grace"])
  qed
qed

text \<open>C18: Time.  The graceful phases and the kill take at most the phase timeouts, each replaced by the
  100 ms grace where that is longer, plus 3 seconds; when no signal send fails they take at most
  \<open>total_timeout\<close> plus 3 seconds.\<close>

theorem terminate_time_bound:
  assumes "shutdown_ok sd" "terminate E h sd = Inr (r, h')"
  shows "handle_clock h' \<le> handle_clock h
      + sum_list (map (\<lambda>t. max t REAP_AFTER_SIGNAL_FAILURE_GRACE) (phase_timeouts sd)) + FORCE_KILL_WAIT_TIMEOUT \<and>
    ((\<forall>q signal s. fst (os_killpg E q signal s) = Inr ()) \<and> (\<forall>q s. fst (win_ctrl_break E q s)) \<and>
       total_timeout sd = Inr T \<longrightarrow> handle_clock h' \<le> handle_clock h + T + FORCE_KILL_WAIT_TIMEOUT)"
proof -
  have "total_timeout sd = Inr T \<Longrightarrow> T = sum_list (phase_timeouts sd)"
    by (cases sd) (auto simp: total_timeout_def unix_total_timeout_def phase_timeouts_def duration_sum_conv
        split: if_splits)
  then show ?thesis
    using terminate_clock [OF assms, of REAP_AFTER_SIGNAL_FAILURE_GRACE] terminate_clock [OF assms, of 0] by auto
qed

section \<open>Liveness: a killable child is terminated\<close>

text \<open>A set \<open>K\<close> of states of a Unix child that is closed under everything that happens to it, and in which
  \<open>SIGKILL\<close> can be sent to a child with a PID and makes \<open>wait\<close> report an exit within 3 seconds.\<close>

definition dies_soon :: "'c child_ops \<Rightarrow> 'c \<Rightarrow> bool" where
  "dies_soon E s \<longleftrightarrow> (\<exists>d st s'. child_wait E s = Some (d, Inr st, s') \<and> d \<le> FORCE_KILL_WAIT_TIMEOUT)"

definition killable :: "'c child_ops \<Rightarrow> ('c \<Rightarrow> bool) \<Rightarrow> bool" where
  "killable E K \<longleftrightarrow>
     (\<forall>s. K s \<longrightarrow> K (snd (child_try_wait E s))) \<and>
     (\<forall>s d r s'. K s \<and> child_wait E s = Some (d, r, s') \<longrightarrow> K s') \<and>
     (\<forall>s t. K s \<longrightarrow> K (child_elapse E t s)) \<and>
     (\<forall>s q signal. K s \<longrightarrow> K (snd (os_killpg E q signal s))) \<and>
     (\<forall>s. K s \<longrightarrow> (case child_id E s of
        Some p \<Rightarrow> fst (os_killpg E (sint p) SIGKILL s) = Inr () \<and> dies_soon E (snd (os_killpg E (sint p) SIGKILL s))
      | None \<Rightarrow> dies_soon E s))"

lemma killableD:
  assumes "killable E K"
  shows "K s \<Longrightarrow> K (snd (child_try_wait E s))"
    "K s \<Longrightarrow> child_wait E s = Some (d, r, s') \<Longrightarrow> K s'"
    "K s \<Longrightarrow> K (child_elapse E t s)"
    "K s \<Longrightarrow> K (snd (os_killpg E q signal s))"
    "K s \<Longrightarrow> child_id E s = Some p \<Longrightarrow>
      fst (os_killpg E (sint p) SIGKILL s) = Inr () \<and> dies_soon E (snd (os_killpg E (sint p) SIGKILL s))"
    "K s \<Longrightarrow> child_id E s = None \<Longrightarrow> dies_soon E s"
proof -
  note k = assms [unfolded killable_def]
  show "K s \<Longrightarrow> K (snd (child_try_wait E s))" using k by simp
  show "K s \<Longrightarrow> child_wait E s = Some (d, r, s') \<Longrightarrow> K s'" using k [THEN conjunct2, THEN conjunct1] by blast
  show "K s \<Longrightarrow> K (child_elapse E t s)" using k by simp
  show "K s \<Longrightarrow> K (snd (os_killpg E q signal s))" using k by simp
  have c: "K s \<Longrightarrow> case child_id E s of
        Some p \<Rightarrow> fst (os_killpg E (sint p) SIGKILL s) = Inr () \<and> dies_soon E (snd (os_killpg E (sint p) SIGKILL s))
      | None \<Rightarrow> dies_soon E s"
    using k [THEN conjunct2, THEN conjunct2, THEN conjunct2, THEN conjunct2] by blast
  show "K s \<Longrightarrow> child_id E s = Some p \<Longrightarrow>
      fst (os_killpg E (sint p) SIGKILL s) = Inr () \<and> dies_soon E (snd (os_killpg E (sint p) SIGKILL s))"
    using c by simp
  show "K s \<Longrightarrow> child_id E s = None \<Longrightarrow> dies_soon E s" using c by simp
qed

abbreviation handle_os :: "('c, 'o, 'e) process_handle \<Rightarrow> 'c" where
  "handle_os h \<equiv> os_state (leader (ph_group h))"

lemma wait_for_exit_killable:
  assumes "killable E K" "K (handle_os h)" "wait_for_exit_after_signal E h t = (r, h')"
  shows "K (handle_os h')"
  using assms(3) killableD(2,3) [OF assms(1), of "handle_os h"] assms(2)
  by (auto simp: wait_for_exit_after_signal_def wait_for_completion_inner_def wait_with_timeout_def
      handle_wait_def handle_wait_pending_def group_wait_def group_wait_pending_def close_stdin_def Let_def
      split: option.splits prod.splits sum.splits if_splits)

lemma send_unix_killable:
  assumes "killable E K" "K (handle_os h)" "send_unix_signal E s h = (r, h')"
  shows "K (handle_os h')"
  using assms(3) killableD(4) [OF assms(1,2)] assms(2)
  by (auto simp: send_unix_signal_def on_group_def send_interrupt_def send_terminate_def on_leader_def
      send_to_process_group_def Let_def
      split: unix_graceful_signal.splits option.splits prod.splits sum.splits) (metis snd_conv)+

lemma phase_killable:
  assumes "killable E K" "K (handle_os h)"
    "attempt_graceful_phase E name t ds (send_unix_signal E s) h = (out, ds', h')"
  shows "K (handle_os h')"
proof -
  obtain r hs where s: "send_unix_signal E s h = (r, hs)" by fastforce
  define T where "T = (case r of Inr _ \<Rightarrow> t | Inl _ \<Rightarrow> REAP_AFTER_SIGNAL_FAILURE_GRACE)"
  obtain w hw where w: "wait_for_exit_after_signal E hs T = (w, hw)" by fastforce
  have "h' = hw"
    using assms(3) s w
    by (auto simp: attempt_graceful_phase_def T_def Let_def split: sum.splits option.splits prod.splits)
  then show ?thesis using wait_for_exit_killable [OF assms(1) send_unix_killable [OF assms(1,2) s] w] by simp
qed

lemma phases_killable:
  assumes "killable E K" "K (handle_os h)" "graceful_phases E (unix_sender E u) i steps ds h = (out, ds', h')"
  shows "K (handle_os h')"
  using assms(2,3)
proof (induction steps arbitrary: i ds h)
  case (Cons step steps)
  obtain out1 ds1 h1 where p: "attempt_graceful_phase E (signal_label step) (step_timeout step) ds (unix_sender E u i) h = (out1, ds1, h1)"
    by (metis prod_cases3)
  have "(out, ds', h') = (out1, ds1, h1) \<or> graceful_phases E (unix_sender E u) (i + 1) steps ds1 h1 = (out, ds', h')"
    using Cons.prems(2) p by (auto split: option.splits)
  then show ?case using Cons.IH phase_killable [OF assms(1) Cons.prems(1) p] by auto
qed simp

lemma wait_for_exit_dies:
  assumes "dies_soon E (handle_os h)"
  shows "\<exists>st h'. wait_for_exit_after_signal E h FORCE_KILL_WAIT_TIMEOUT = (Inr (Some st), h')"
  using assms
  by (auto simp: dies_soon_def wait_for_exit_after_signal_def wait_for_completion_inner_def
      wait_with_timeout_def handle_wait_def group_wait_def close_stdin_def Let_def)

lemma forceful_kill_succeeds:
  assumes "killable E K" "K (handle_os h)" "target (ph_group h) = Unix"
  shows "\<exists>st h'. attempt_forceful_kill E ds h = Inr (Inr st, h')"
proof -
  obtain r hk where k: "send_kill_signal E h = (r, hk)" by fastforce
  have "r = Inr () \<and> dies_soon E (handle_os hk)"
    using k assms(3) killableD(5,6) [OF assms(1,2)]
    by (auto simp: send_kill_signal_def on_group_def send_kill_def on_leader_def group_id_def
        send_kill_to_process_group_def send_to_process_group_def Let_def
        split: option.splits prod.splits sum.splits)
  then show ?thesis using k wait_for_exit_dies [of E hk] by (auto simp: attempt_forceful_kill_def)
qed

text \<open>C17: Liveness.  A Unix child for which \<open>SIGKILL\<close> works is always terminated: whatever it does with the
  graceful signals, and whatever errors sending them and waiting gives, \<open>terminate\<close> returns \<open>Ok\<close> with the
  exit status the child reported.\<close>

theorem terminate_kills_killable:
  assumes "killable E K" "K (handle_os h)" "target (ph_group h) = Unix" "shutdown_ok (ShutdownOnUnix u)"
  shows "\<exists>st h'. terminate E h (ShutdownOnUnix u) = Inr (Inr st, h') \<and> is_drop_disarmed h' \<and> exit_observed E st h'"
proof -
  have steps: "shutdown_steps (ShutdownOnUnix u) \<noteq> []" using assms(4) by simp
  have "\<exists>st h'. terminate E h (ShutdownOnUnix u) = Inr (Inr st, h')"
    using steps
  proof (cases rule: unix_hooks.run_loop_cases [of _ E h u])
    case (killed c h1 ds ds2 h2 r h3)
    have "K (handle_os h1)" using killableD(1) [OF assms(1,2)] try_reap_effect(8) [OF killed(1)] by simp
    then have "K (handle_os h2)" using phases_killable [OF assms(1) _ killed(3)] by simp
    moreover have "target (ph_group h2) = Unix"
      using try_reap_effect(1) [OF killed(1)] unix_hooks.phases_effect [OF killed(3)] assms(3)
      by (simp add: handle_frame_def)
    ultimately obtain st where "r = Inr st" using forceful_kill_succeeds [OF assms(1), of h2 ds2] killed(4) by auto
    then show ?thesis using killed(5) by (simp add: terminate_unfold)
  qed (auto simp: terminate_unfold)
  then obtain st h' where t: "terminate E h (ShutdownOnUnix u) = Inr (Inr st, h')" by blast
  have "drop_mode h' = Disarmed \<and> exit_observed E st h'"
    using t unix_hooks.run_loop_outcome [OF steps, of E u h] by (simp add: terminate_unfold)
  then show ?thesis using t by simp
qed

section \<open>The contract on the simulated child\<close>

definition sim_shutdown :: graceful_shutdown where
  "sim_shutdown = ShutdownOnUnix (terminate_only (from_secs 2))"

text \<open>The stubborn child survives \<open>SIGTERM\<close> and dies of \<open>SIGKILL\<close>; the handle afterwards, written out.\<close>

definition sim_terminated :: "(sim_child, unit, unit) process_handle" where
  "sim_terminated = (sim_handle sim_stubborn)\<lparr>std_in := StdinClosed, drop_mode := Disarmed,
     ph_group := \<lparr>target = Unix,
       leader = \<lparr>os_state = sim_stubborn\<lparr>sim_exits_in := Some 0, sim_pid := None\<rparr>, clock = from_secs 2 + 5,
         calls = [CallTryWait, CallKillpg 7 SIGTERM, CallWait, CallKillpg 7 SIGKILL, CallWait]\<rparr>,
       job = None\<rparr>\<rparr>"

lemmas handle_eval = try_reap_exit_status_def on_group_def group_try_wait_def send_kill_signal_def send_kill_def
  send_interrupt_def send_terminate_def on_leader_def send_kill_to_process_group_def
  send_to_process_group_def group_id_def handle_id_def wait_for_exit_after_signal_def
  wait_for_completion_inner_def wait_with_timeout_def handle_wait_def handle_wait_pending_def
  group_wait_def group_wait_pending_def close_stdin_def stdin_close_def log_call_def Let_def

lemmas terminate_eval = terminate_def terminate_with_hooks_unix_def run_termination_loop_def
  attempt_graceful_phase_def attempt_forceful_kill_def disarm_after_successful_termination_def
  send_unix_signal_def handle_eval

lemmas sim_eval = sim_handle_def sim_group_def sim_stubborn_def earlier_def

lemma sim_terminate:
  "terminate sim_ops (sim_handle sim_stubborn) sim_shutdown = Inr (Inr sim_status, sim_terminated)"
  by (simp add: terminate_eval sim_eval sim_shutdown_def terminate_only_def single_phase_def
      phase_terminate_def FORCE_KILL_WAIT_TIMEOUT_def from_secs_def sim_terminated_def)

lemma sim_shutdown_ok [simp]: "shutdown_ok sim_shutdown" "phase_timeouts sim_shutdown = [from_secs 2]"
  by (simp_all add: sim_shutdown_def shutdown_ok_def phase_timeouts_def terminate_only_def single_phase_def
      phase_terminate_def)

lemma sim_keeps_id: "keeps_id sim_ops"
  by (auto simp: keeps_id_def sim_ops_def split: if_splits option.splits)

theorem terminate_outcome_witness:
  "shutdown_ok sim_shutdown \<and> is_drop_armed (sim_handle sim_stubborn) \<and>
   terminate sim_ops (sim_handle sim_stubborn) sim_shutdown = Inr (Inr sim_status, sim_terminated) \<and>
   fst (process_handle_drop sim_ops False sim_terminated) = Inr ()"
proof -
  have "is_drop_armed (sim_handle sim_stubborn)"
    by (simp add: is_drop_armed_def sim_handle_def new_armed_drop_mode_def armed_panic_guard_def)
  then show ?thesis using terminate_outcome [of sim_shutdown "sim_handle sim_stubborn" sim_ops False] sim_terminate by auto
qed

theorem terminate_signal_order_witness:
  "handle_id sim_ops (sim_handle sim_stubborn) = Some 7 \<and>
   prefix (handle_sent sim_terminated) [CallKillpg 7 SIGTERM, CallKillpg 7 SIGKILL]"
  using terminate_signal_order [OF sim_shutdown_ok(1) sim_keeps_id _ sim_terminate, of 7]
  by (auto simp: sim_eval handle_id_def group_id_def sent_def phase_calls_def sim_shutdown_def unix_call_def
      terminate_only_def single_phase_def phase_terminate_def)

theorem terminate_time_bound_witness:
  "terminate sim_ops (sim_handle sim_stubborn) sim_shutdown = Inr (Inr sim_status, sim_terminated) \<and>
   handle_clock sim_terminated \<le> from_secs 2 + FORCE_KILL_WAIT_TIMEOUT"
  using terminate_time_bound [OF sim_shutdown_ok(1) sim_terminate, of 0] sim_terminate
  by (simp add: sim_eval REAP_AFTER_SIGNAL_FAILURE_GRACE_def from_secs_def from_millis_def)

definition sim_killable :: "sim_child \<Rightarrow> bool" where
  "sim_killable s \<longleftrightarrow> \<not> sim_denied s \<and> (\<exists>d \<le> FORCE_KILL_WAIT_TIMEOUT. sim_reaction s SIGKILL = Some d) \<and>
     (sim_pid s = None \<longrightarrow> sim_exits_in s = Some 0)"

lemma killable_sim: "killable sim_ops sim_killable"
  by (auto simp: killable_def sim_killable_def dies_soon_def earlier_def min_def split: option.splits if_splits)

theorem terminate_kills_killable_witness:
  "killable sim_ops sim_killable \<and> sim_killable (handle_os (sim_handle sim_stubborn)) \<and>
   (\<exists>st h'. terminate sim_ops (sim_handle sim_stubborn) sim_shutdown = Inr (Inr st, h') \<and> exit_observed sim_ops st h')"
  using terminate_kills_killable [OF killable_sim, of "sim_handle sim_stubborn" "terminate_only (from_secs 2)"]
    killable_sim sim_shutdown_ok(1)
  by (auto simp: sim_eval sim_killable_def sim_shutdown_def FORCE_KILL_WAIT_TIMEOUT_def from_secs_def)

text \<open>The grace period after a failed send is not part of \<open>total_timeout\<close>: a child that refuses signals keeps
  a sequence of one phase of 10 ms for 100 ms.\<close>

theorem grace_exceeds_total_timeout:
  defines "u \<equiv> terminate_only (from_millis 10)"
    and "h \<equiv> sim_handle (sim_stubborn\<lparr>sim_denied := True\<rparr>)"
  shows "total_timeout (ShutdownOnUnix u) = Inr (from_millis 10) \<and>
    (case graceful_phases sim_ops (unix_sender sim_ops u) 0 (shutdown_steps (ShutdownOnUnix u)) [] h of
       (out, _, h') \<Rightarrow> out = None \<and> handle_clock h' = handle_clock h + from_millis 100)"
  by (simp add: u_def h_def total_timeout_def unix_total_timeout_def duration_max_def shutdown_steps_def
      terminate_only_def single_phase_def phase_terminate_def from_millis_def terminate_eval sim_eval
      REAP_AFTER_SIGNAL_FAILURE_GRACE_def)

section \<open>Killing and manual signals\<close>

lemma handle_frame_close [simp]: "handle_frame (close_stdin h) h' = handle_frame h h'"
  by (simp add: handle_frame_def close_stdin_def)

lemma close_stdin_simps [simp]:
  "ph_group (close_stdin h) = ph_group h" "drop_mode (close_stdin h) = drop_mode h"
  "std_in (close_stdin h) = StdinClosed" "handle_id E (close_stdin h) = handle_id E h"
  by (simp_all add: close_stdin_def stdin_close_def handle_id_def)

lemma wait_unbounded_effect:
  assumes "wait_for_completion_unbounded E h = Some (r, h')"
  shows "handle_frame h h'" "handle_sent h' = handle_sent h" "std_in h' = StdinClosed"
    "case r of Inr st \<Rightarrow> drop_mode h' = Disarmed \<and> exit_observed E st h' | Inl _ \<Rightarrow> drop_mode h' = drop_mode h"
  using assms
  by (fastforce simp: wait_for_completion_unbounded_def handle_wait_def group_wait_def exit_observed_def
      handle_frame_def close_stdin_def stdin_close_def Let_def
      split: option.splits prod.splits sum.splits)+

lemma start_kill_result:
  "\<exists>r h'. start_kill E h = Inr (r, h') \<and> handle_frame h h' \<and> std_in h' = StdinClosed \<and>
      (\<forall>p. handle_id E h = Some p \<longrightarrow>
         handle_sent h' = handle_sent h @ [kill_call (target (ph_group h)) (job (ph_group h)) p]) \<and>
      (case r of Inr _ \<Rightarrow> is_drop_disarmed h'
       | Inl e \<Rightarrow> drop_mode h' = drop_mode h \<and>
           (\<exists>errs. e = TerminationFailed (ph_name h) errs \<and> errs \<noteq> []))"
proof -
  obtain k hk where k: "send_kill_signal E (close_stdin h) = (k, hk)" by fastforce
  note kf = send_kill_signal_effect [OF k, simplified]
  obtain c hc where c: "try_reap_exit_status E hk = (c, hc)" by fastforce
  note cf = try_reap_effect(1-4) [OF c]
  have names: "ph_name hk = ph_name h" "ph_name hc = ph_name h" "handle_frame h hc"
    using kf(1) cf(1) by (auto simp: handle_frame_def)
  show ?thesis
    using k c kf cf names
    by (cases k; cases c) (auto simp: start_kill_def Let_def split: option.splits)
qed

lemma start_kill_ok:
  assumes "start_kill E h = Inr (r, h')"
  shows "r = Inr () \<longleftrightarrow> fst (send_kill_signal E (close_stdin h)) = Inr () \<or>
    (\<exists>st. fst (try_reap_exit_status E (snd (send_kill_signal E (close_stdin h)))) = Inr (Some st))"
  using assms by (auto simp: start_kill_def Let_def split: prod.splits sum.splits option.splits)

lemma kill_hangs:
  "kill E h = None \<Longrightarrow> fst (send_kill_signal E (close_stdin h)) = Inr () \<and> (\<exists>s. child_wait E s = None)"
  by (auto simp: kill_def Let_def wait_for_completion_unbounded_def handle_wait_def group_wait_def
      split: sum.splits option.splits prod.splits)

lemma kill_returns:
  assumes "kill E h = Some res"
  shows "\<exists>r h'. res = Inr (r, h') \<and> handle_frame h h' \<and> std_in h' = StdinClosed \<and>
    (\<forall>p. handle_id E h = Some p \<longrightarrow>
       handle_sent h' = handle_sent h @ [kill_call (target (ph_group h)) (job (ph_group h)) p]) \<and>
    (case r of
       Inr _ \<Rightarrow> fst (send_kill_signal E (close_stdin h)) = Inr () \<and> is_drop_disarmed h' \<and> (\<exists>st. exit_observed E st h')
     | Inl e \<Rightarrow> drop_mode h' = drop_mode h \<and> (\<exists>errs. e = TerminationFailed (ph_name h) errs \<and> errs \<noteq> []))"
proof -
  obtain k hk where k: "send_kill_signal E (close_stdin h) = (k, hk)" by fastforce
  note kf = send_kill_signal_effect [OF k, simplified]
  have names: "ph_name hk = ph_name h" using kf(1) by (simp add: handle_frame_def)
  show ?thesis
  proof (cases k)
    case (Inl err)
    then show ?thesis using assms k kf names by (auto simp: kill_def Let_def)
  next
    case (Inr u)
    then obtain w hw where w: "wait_for_completion_unbounded E hk = Some (w, hw)"
      using assms k by (auto simp: kill_def Let_def split: option.splits)
    note wf = wait_unbounded_effect [OF w]
    have "handle_frame h hw" "ph_name hw = ph_name h"
      using kf(1) wf(1) handle_frame_trans handle_frame_name by metis+
    then show ?thesis using assms k Inr w wf kf by (cases w) (auto simp: kill_def Let_def)
  qed
qed

text \<open>C22: \<open>start_kill\<close> and \<open>kill\<close>.  Both close stdin, send exactly one kill to a group that has a PID, on every
  path, and keep the guard in step with the result: on \<open>Ok\<close> the handle is disarmed, on \<open>Err\<close> the guard is as it
  was and the error names the process and holds at least one attempt.  \<open>start_kill\<close> always returns, and \<open>Ok\<close>
  exactly if the kill was delivered or the child turns out to have exited.  \<open>kill\<close> hangs only if the kill
  was delivered and waiting for the child never ends; its \<open>Ok\<close> means that the kill was delivered and that
  the child reported its exit.\<close>

theorem kill_contract:
  "(\<exists>r h'. start_kill E h = Inr (r, h') \<and> handle_frame h h' \<and> std_in h' = StdinClosed \<and>
      (\<forall>p. handle_id E h = Some p \<longrightarrow>
         handle_sent h' = handle_sent h @ [kill_call (target (ph_group h)) (job (ph_group h)) p]) \<and>
      (case r of Inr _ \<Rightarrow> is_drop_disarmed h'
       | Inl e \<Rightarrow> drop_mode h' = drop_mode h \<and>
           (\<exists>errs. e = TerminationFailed (ph_name h) errs \<and> errs \<noteq> [])) \<and>
      (r = Inr () \<longleftrightarrow> fst (send_kill_signal E (close_stdin h)) = Inr () \<or>
         (\<exists>st. fst (try_reap_exit_status E (snd (send_kill_signal E (close_stdin h)))) = Inr (Some st)))) \<and>
   (kill E h = None \<longrightarrow> fst (send_kill_signal E (close_stdin h)) = Inr () \<and> (\<exists>s. child_wait E s = None)) \<and>
   (\<forall>res. kill E h = Some res \<longrightarrow>
      (\<exists>r h'. res = Inr (r, h') \<and> handle_frame h h' \<and> std_in h' = StdinClosed \<and>
         (\<forall>p. handle_id E h = Some p \<longrightarrow>
            handle_sent h' = handle_sent h @ [kill_call (target (ph_group h)) (job (ph_group h)) p]) \<and>
         (case r of
            Inr _ \<Rightarrow> fst (send_kill_signal E (close_stdin h)) = Inr () \<and> is_drop_disarmed h' \<and> (\<exists>st. exit_observed E st h')
          | Inl e \<Rightarrow> drop_mode h' = drop_mode h \<and>
              (\<exists>errs. e = TerminationFailed (ph_name h) errs \<and> errs \<noteq> []))))"
  using start_kill_result [of E h] start_kill_ok [of E h] kill_hangs [of E h] kill_returns [of E h] by fastforce

theorem kill_contract_witness:
  "handle_id sim_ops (sim_handle sim_stubborn) = Some 7 \<and>
   (\<exists>r h'. start_kill sim_ops (sim_handle sim_stubborn) = Inr (r, h') \<and> handle_sent h' = [CallKillpg 7 SIGKILL]) \<and>
   (\<exists>h'. kill sim_ops (sim_handle sim_stubborn) = Some (Inr (Inr (), h')) \<and> handle_sent h' = [CallKillpg 7 SIGKILL])"
proof -
  have id: "handle_id sim_ops (sim_handle sim_stubborn) = Some 7" by (simp add: sim_eval handle_id_def group_id_def)
  have "\<exists>h'. kill sim_ops (sim_handle sim_stubborn) = Some (Inr (Inr (), h'))"
    by (simp add: kill_def wait_for_completion_unbounded_def sim_eval handle_eval Let_def)
  then show ?thesis
    using kill_contract [of sim_ops "sim_handle sim_stubborn"] id
    by (auto simp: sim_eval handle_id_def group_id_def sent_def)
qed

text \<open>The three public senders.\<close>

datatype manual_signal = ManualInterrupt | ManualTerminate | ManualCtrlBreak

fun send_manual ::
  "'c child_ops \<Rightarrow> manual_signal \<Rightarrow> ('c, 'o, 'e) process_handle
   \<Rightarrow> ((termination_error + unit) \<times> ('c, 'o, 'e) process_handle) outcome" where
  "send_manual E ManualInterrupt h = send_interrupt_signal E h"
| "send_manual E ManualTerminate h = send_terminate_signal E h"
| "send_manual E ManualCtrlBreak h = send_ctrl_break_signal E h"

text \<open>What each of them does: the send it makes, its name in diagnostics, and the call that send makes.\<close>

fun manual_send ::
  "'c child_ops \<Rightarrow> manual_signal \<Rightarrow> ('c, 'o, 'e) process_handle \<Rightarrow> (io_error + unit) \<times> ('c, 'o, 'e) process_handle" where
  "manual_send E ManualInterrupt = on_group (send_interrupt E)"
| "manual_send E ManualTerminate = on_group (send_terminate E)"
| "manual_send E ManualCtrlBreak = on_group (send_ctrl_break E)"

fun manual_label :: "manual_signal \<Rightarrow> string" where
  "manual_label ManualInterrupt = ''SIGINT''"
| "manual_label ManualTerminate = ''SIGTERM''"
| "manual_label ManualCtrlBreak = ''CTRL_BREAK_EVENT''"

fun manual_call :: "manual_signal \<Rightarrow> pid \<Rightarrow> os_call" where
  "manual_call ManualInterrupt p = CallKillpg (sint p) SIGINT"
| "manual_call ManualTerminate p = CallKillpg (sint p) SIGTERM"
| "manual_call ManualCtrlBreak p = CallCtrlBreak p"

lemma send_manual_conv:
  "send_manual E m h = send_signal_with_reaper (manual_label m) (manual_send E m) (try_reap_exit_status E) h"
  by (cases m) (simp_all add: send_interrupt_signal_def send_terminate_signal_def send_ctrl_break_signal_def)

lemma manual_send_effect:
  assumes "manual_send E m h = (r, h')"
  shows "handle_frame h h'" "drop_mode h' = drop_mode h" "std_in h' = std_in h"
    "handle_id E h = Some p \<Longrightarrow> handle_sent h' = handle_sent h @ [manual_call m p]"
  using assms on_group_frame [of E h r h'] on_group_sent [of E h p r h'] by (cases m; simp)+

text \<open>C23: Sending a signal by hand never panics.  The exit of the process is polled first: an exit that is seen
  is \<open>Ok\<close> and disarms the guard, a poll that fails is an error, and in both cases nothing is sent.  Otherwise
  exactly one signal is sent to a group that has a PID.  A send that succeeds is \<open>Ok\<close> and leaves the guard
  alone.  After a send that fails the result is \<open>Ok\<close> exactly if a second poll sees the exit, which disarms
  the guard; else it is an error whose first attempt is that send with its cause, followed by the
  second poll if that failed, too.  Every error names the process and leaves the guard alone; stdin
  stays as it is.\<close>

theorem manual_signal_contract:
  "\<exists>r h'. send_manual E m h = Inr (r, h') \<and> handle_frame h h' \<and> std_in h' = std_in h \<and>
     (\<forall>st. fst (try_reap_exit_status E h) = Inr (Some st) \<longrightarrow>
        r = Inr () \<and> is_drop_disarmed h' \<and> handle_sent h' = handle_sent h) \<and>
     (\<forall>e. fst (try_reap_exit_status E h) = Inl e \<longrightarrow> handle_sent h' = handle_sent h \<and> drop_mode h' = drop_mode h \<and>
        r = Inl (SignalFailed (ph_name h) [\<lparr>action = CheckStatus, attempt_source = IoSource e\<rparr>])) \<and>
     (\<forall>h1 h2. try_reap_exit_status E h = (Inr None, h1) \<and> manual_send E m h1 = (Inr (), h2) \<longrightarrow>
        r = Inr () \<and> drop_mode h' = drop_mode h) \<and>
     (\<forall>h1 h2 e. try_reap_exit_status E h = (Inr None, h1) \<and> manual_send E m h1 = (Inl e, h2) \<longrightarrow>
        (r = Inr () \<longleftrightarrow> (\<exists>st. fst (try_reap_exit_status E h2) = Inr (Some st))) \<and>
        (if r = Inr () then is_drop_disarmed h'
         else drop_mode h' = drop_mode h \<and>
           r = Inl (SignalFailed (ph_name h) (\<lparr>action = SendSignal (manual_label m), attempt_source = IoSource e\<rparr> #
             (case fst (try_reap_exit_status E h2) of
                Inl e' \<Rightarrow> [\<lparr>action = CheckStatus, attempt_source = IoSource e'\<rparr>] | Inr _ \<Rightarrow> []))))) \<and>
     (\<forall>p. fst (try_reap_exit_status E h) = Inr None \<and> keeps_id E \<and> handle_id E h = Some p \<longrightarrow>
        handle_sent h' = handle_sent h @ [manual_call m p])"
proof -
  obtain c1 h1 where c1: "try_reap_exit_status E h = (c1, h1)" by fastforce
  obtain s h2 where s: "manual_send E m h1 = (s, h2)" by fastforce
  obtain c3 h3 where c3: "try_reap_exit_status E h2 = (c3, h3)" by fastforce
  note f1 = try_reap_effect(1-4) [OF c1] and f3 = try_reap_effect(1-4) [OF c3] and sf = manual_send_effect [OF s]
  have frames: "handle_frame h h1" "handle_frame h h2" "handle_frame h h3"
    using f1(1) f3(1) sf(1) handle_frame_trans by blast+
  have modes: "drop_mode h2 = drop_mode h" "drop_mode h3 = drop_mode h" "std_in h2 = std_in h" "std_in h3 = std_in h"
    "handle_sent h3 = handle_sent h2"
    using f1 f3 sf by simp_all
  have sent2: "c1 = Inr None \<Longrightarrow> keeps_id E \<Longrightarrow> handle_id E h = Some p \<Longrightarrow>
      handle_sent h2 = handle_sent h @ [manual_call m p]" for p
    using sf(4) [of p] try_reap_keeps_id [OF _ c1] f1(4) by simp
  note names = frames [THEN handle_frame_name]
  note defs = send_manual_conv send_signal_with_reaper_def record_attempt_def into_signal_failed_def
  consider (status) e where "c1 = Inl e" | (exited) st where "c1 = Inr (Some st)" | (run) "c1 = Inr None"
    by (cases c1) (auto intro: option.exhaust)
  then show ?thesis
  proof cases
    case run
    note ctx = c1 s c3 run frames modes names sent2
    show ?thesis
    proof (cases s)
      case (Inl e)
      then show ?thesis using ctx by (cases c3) (auto simp: defs split: option.splits)
    qed (use ctx in \<open>auto simp: defs\<close>)
  qed (use c1 f1 frames names in \<open>auto simp: defs\<close>)
qed

theorem manual_signal_contract_witness:
  "fst (try_reap_exit_status sim_ops (sim_handle sim_stubborn)) = Inr None \<and> keeps_id sim_ops \<and>
   (\<exists>r h'. send_manual sim_ops ManualInterrupt (sim_handle sim_stubborn) = Inr (r, h') \<and>
      r = Inr () \<and> handle_sent h' = [CallKillpg 7 SIGINT])"
  using manual_signal_contract [of sim_ops ManualInterrupt "sim_handle sim_stubborn"] sim_keeps_id
  by (auto simp: sim_eval handle_eval sent_def)

end
