(* ===== verification/Collect.thy ===== *)
theory Collect
  imports Visitors
begin

text \<open>
  The collecting sinks and visitors of \<open>visitors/collect.rs\<close>: \<open>CollectedBytes\<close> and \<open>CollectedLines\<close> with
  their size limits and overflow behaviours, and the visitors that feed them.

  The locale \<open>bounded_collector\<close> states what a bounded sink promises: pushing keeps exactly the part
  \<open>keep\<close> selects of what it holds and what is new, and the truncation flag records whether anything
  was ever left out.  It is interpreted on both sinks under all their options; \<open>keep\<close> is then
  \<^const>\<open>take\<close> or \<^const>\<open>last_n\<close> for bytes, and for lines the longest fitting suffix or the greedy
  selection.
\<close>

section \<open>Options\<close>

datatype collection_overflow_behavior = CollectDropAdditional | CollectDropOldest

datatype raw_collection_options =
    RawBounded num_bytes collection_overflow_behavior
  | RawTrustedUnbounded

datatype line_collection_options =
    LineBounded num_bytes usize collection_overflow_behavior
  | LineTrustedUnbounded

section \<open>Collected bytes\<close>

record collected_bytes =
  cb_bytes :: bytes
  cb_truncated :: bool

definition collected_bytes_new :: collected_bytes where
  "collected_bytes_new = \<lparr>cb_bytes = [], cb_truncated = False\<rparr>"

text \<open>\<open>Vec::drain(0..n)\<close>, which panics when the range is out of bounds.\<close>

definition drain_front :: "nat \<Rightarrow> 'a list \<Rightarrow> 'a list outcome" where
  "drain_front n xs = (if n \<le> length xs then Inr (drop n xs) else Inl (ExplicitPanic ''range out of bounds''))"

fun push_chunk :: "collected_bytes \<Rightarrow> bytes \<Rightarrow> raw_collection_options \<Rightarrow> collected_bytes outcome" where
  "push_chunk self chunk RawTrustedUnbounded = Inr (self\<lparr>cb_bytes := cb_bytes self @ chunk\<rparr>)"
| "push_chunk self chunk (RawBounded limit_b CollectDropAdditional) =
     (let max_bytes = bytes limit_b;
          remaining = saturating_sub max_bytes (length (cb_bytes self));
          self1 = (if remaining < length chunk then self\<lparr>cb_truncated := True\<rparr> else self)
      in Inr (self1\<lparr>cb_bytes := cb_bytes self1 @ take (min remaining (length chunk)) chunk\<rparr>))"
| "push_chunk self chunk (RawBounded limit_b CollectDropOldest) =
     (let max_bytes = bytes limit_b in
      if max_bytes < length chunk then
        Inr (self\<lparr>cb_bytes := drop (saturating_sub (length chunk) max_bytes) chunk, cb_truncated := True\<rparr>)
      else
        (let required = length (cb_bytes self) + length chunk in
         case (if max_bytes < required
               then (case usize_sub required max_bytes of
                       Inl e \<Rightarrow> Inl e
                     | Inr n \<Rightarrow> (case drain_front n (cb_bytes self) of
                                   Inl e \<Rightarrow> Inl e
                                 | Inr bs \<Rightarrow> Inr (self\<lparr>cb_bytes := bs, cb_truncated := True\<rparr>)))
               else Inr self) of
           Inl e \<Rightarrow> Inl e
         | Inr self1 \<Rightarrow> Inr (self1\<lparr>cb_bytes := cb_bytes self1 @ chunk\<rparr>)))"

text \<open>\<open>CollectedBytes::collector\<close> is the closure that pushes each chunk with fixed options.\<close>

definition bytes_collector :: "raw_collection_options \<Rightarrow> collected_bytes \<Rightarrow> bytes \<Rightarrow> collected_bytes outcome" where
  "bytes_collector options sink chunk = push_chunk sink chunk options"

section \<open>Collected lines\<close>

record collected_lines =
  cl_lines :: "bytes list"
  cl_truncated :: bool
  retained_bytes :: usize

definition collected_lines_new :: collected_lines where
  "collected_lines_new = \<lparr>cl_lines = [], cl_truncated = False, retained_bytes = 0\<rparr>"

definition into_parts :: "collected_lines \<Rightarrow> bytes list \<times> bool" where
  "into_parts self = (cl_lines self, cl_truncated self)"

definition cl_push_back :: "collected_lines \<Rightarrow> bytes \<Rightarrow> collected_lines" where
  "cl_push_back self line =
     self\<lparr>retained_bytes := retained_bytes self + length line, cl_lines := cl_lines self @ [line]\<rparr>"

definition cl_pop_front :: "collected_lines \<Rightarrow> (bytes option \<times> collected_lines) outcome" where
  "cl_pop_front self =
     (case cl_lines self of
        [] \<Rightarrow> Inr (None, self)
      | line # rest \<Rightarrow>
          (case usize_sub (retained_bytes self) (length line) of
             Inl e \<Rightarrow> Inl e
           | Inr n \<Rightarrow> Inr (Some line, self\<lparr>cl_lines := rest, retained_bytes := n\<rparr>)))"

function evict_loop :: "nat \<Rightarrow> nat \<Rightarrow> nat \<Rightarrow> collected_lines \<Rightarrow> collected_lines outcome" where
  "evict_loop line_len max_bytes max_lines self =
     (if max_lines \<le> length (cl_lines self) \<or> saturating_sub max_bytes (retained_bytes self) < line_len
      then (case cl_pop_front self of
              Inl e \<Rightarrow> Inl e
            | Inr (None, self') \<Rightarrow> Inl (ExpectFailed ''line buffer to contain an evictable line'')
            | Inr (Some _, self') \<Rightarrow> evict_loop line_len max_bytes max_lines (self'\<lparr>cl_truncated := True\<rparr>))
      else Inr self)"
  by pat_completeness auto
termination
  by (relation "measure (\<lambda>(ll, mb, ml, self). length (cl_lines self))")
    (auto simp: cl_pop_front_def split: list.splits sum.splits)

declare evict_loop.simps [simp del]

fun push_line :: "collected_lines \<Rightarrow> bytes \<Rightarrow> line_collection_options \<Rightarrow> collected_lines outcome" where
  "push_line self line LineTrustedUnbounded = Inr (cl_push_back self line)"
| "push_line self line (LineBounded limit_b max_lines CollectDropAdditional) =
     (let line_len = length line; max_bytes = bytes limit_b in
      if max_lines \<le> length (cl_lines self) \<or> max_bytes < line_len
         \<or> saturating_sub max_bytes (retained_bytes self) < line_len
      then Inr (self\<lparr>cl_truncated := True\<rparr>)
      else Inr (cl_push_back self line))"
| "push_line self line (LineBounded limit_b max_lines CollectDropOldest) =
     (let line_len = length line; max_bytes = bytes limit_b in
      if max_lines = 0 then Inr (self\<lparr>cl_truncated := True\<rparr>)
      else if max_bytes < line_len then Inr (self\<lparr>cl_truncated := True\<rparr>)
      else (case evict_loop line_len max_bytes max_lines self of
              Inl e \<Rightarrow> Inl e
            | Inr self' \<Rightarrow> Inr (cl_push_back self' line)))"

definition line_collector ::
  "line_collection_options \<Rightarrow> bytes \<Rightarrow> collected_lines \<Rightarrow> (next_t \<times> collected_lines) outcome" where
  "line_collector options line sink =
     (case push_line sink line options of Inl e \<Rightarrow> Inl e | Inr sink' \<Rightarrow> Inr (Continue, sink'))"

section \<open>The collecting visitors\<close>

text \<open>\<open>CollectChunks\<close> holds the sink and the closure; the closure's captured state is part of the
  sink's type here.  Its \<open>on_gap\<close> and \<open>on_eof\<close> are the trait's defaults.\<close>

definition collect_chunks_visitor :: "('t \<Rightarrow> bytes \<Rightarrow> 't outcome) \<Rightarrow> ('t, 't) stream_visitor" where
  "collect_chunks_visitor f =
     \<lparr>on_chunk = (\<lambda>sink chunk. case f sink chunk of Inl e \<Rightarrow> Inl e | Inr sink' \<Rightarrow> Inr (Continue, sink')),
      on_gap = (\<lambda>sink. sink), on_eof = Inr, into_output = (\<lambda>sink. sink)\<rparr>"

definition collect_chunks_async_visitor ::
  "('t \<Rightarrow> bytes \<Rightarrow> (next_t \<times> 't) outcome) \<Rightarrow> ('t, 't) stream_visitor" where
  "collect_chunks_async_visitor f =
     \<lparr>on_chunk = f, on_gap = (\<lambda>sink. sink), on_eof = Inr, into_output = (\<lambda>sink. sink)\<rparr>"

definition collect_lines_visitor ::
  "(bytes \<Rightarrow> 't \<Rightarrow> (next_t \<times> 't) outcome) \<Rightarrow> ('t, 't) line_visitor" where
  "collect_lines_visitor f =
     \<lparr>on_line = (\<lambda>sink line. f line sink),
      line_on_gap = (\<lambda>sink. sink), line_on_eof = Inr, line_into_output = (\<lambda>sink. sink)\<rparr>"

definition collect_lines_async_visitor ::
  "(bytes \<Rightarrow> 't \<Rightarrow> (next_t \<times> 't) outcome) \<Rightarrow> ('t, 't) line_visitor" where
  "collect_lines_async_visitor f =
     \<lparr>on_line = (\<lambda>sink line. f line sink),
      line_on_gap = (\<lambda>sink. sink), line_on_eof = Inr, line_into_output = (\<lambda>sink. sink)\<rparr>"

section \<open>Bounded collectors\<close>

locale bounded_collector =
  fixes new :: 'c and push :: "'c \<Rightarrow> 'a \<Rightarrow> 'c outcome"
    and content :: "'c \<Rightarrow> 'b list" and truncated :: "'c \<Rightarrow> bool" and inv :: "'c \<Rightarrow> bool"
    and add :: "'a \<Rightarrow> 'b list" and keep :: "'b list \<Rightarrow> 'b list"
  assumes new: "inv new" "content new = []" "\<not> truncated new"
    and push: "inv c \<Longrightarrow> \<exists>c'. push c a = Inr c' \<and> inv c' \<and> content c' = keep (content c @ add a) \<and>
                 (truncated c' \<longleftrightarrow> truncated c \<or> keep (content c @ add a) \<noteq> content c @ add a)"
    and keep_Nil: "keep [] = []"
    and keep_keep: "keep (keep xs @ add a) = keep (xs @ add a)"
    and keep_grows: "keep xs \<noteq> xs \<Longrightarrow> keep (xs @ add a) \<noteq> xs @ add a"
begin

lemma push_all_from:
  assumes "inv c" and "content c = keep xs" and "truncated c \<longleftrightarrow> keep xs \<noteq> xs"
  shows "\<exists>c'. push_all push c as = Inr c' \<and> inv c' \<and>
     content c' = keep (xs @ concat (map add as)) \<and>
     (truncated c' \<longleftrightarrow> keep (xs @ concat (map add as)) \<noteq> xs @ concat (map add as))"
  using assms
proof (induction as arbitrary: c xs)
  case (Cons a as)
  obtain c' where c': "push c a = Inr c'" "inv c'" "content c' = keep (content c @ add a)"
      "truncated c' \<longleftrightarrow> truncated c \<or> keep (content c @ add a) \<noteq> content c @ add a"
    using push [OF Cons.prems(1)] by blast
  have "content c' = keep (xs @ add a)" using c'(3) Cons.prems(2) keep_keep by simp
  moreover have "truncated c' \<longleftrightarrow> keep (xs @ add a) \<noteq> xs @ add a"
    using c'(4) Cons.prems(2,3) keep_keep keep_grows [of xs a] by auto
  ultimately show ?case using Cons.IH [OF c'(2), of "xs @ add a"] c'(1) by simp
qed simp

text \<open>Collecting never panics; what is retained depends only on everything that was pushed, and the
  flag is set exactly when something is missing.\<close>

lemma collected:
  "\<exists>c. push_all push new as = Inr c \<and> inv c \<and> content c = keep (concat (map add as)) \<and>
     (truncated c \<longleftrightarrow> keep (concat (map add as)) \<noteq> concat (map add as))"
  using push_all_from [of new "[]" as] new keep_Nil by simp

end

subsection \<open>Bytes\<close>

fun keep_bytes :: "raw_collection_options \<Rightarrow> bytes \<Rightarrow> bytes" where
  "keep_bytes RawTrustedUnbounded xs = xs"
| "keep_bytes (RawBounded limit_b CollectDropAdditional) xs = take (bytes limit_b) xs"
| "keep_bytes (RawBounded limit_b CollectDropOldest) xs = last_n (bytes limit_b) xs"

fun within_bytes :: "raw_collection_options \<Rightarrow> collected_bytes \<Rightarrow> bool" where
  "within_bytes RawTrustedUnbounded c = True"
| "within_bytes (RawBounded limit_b _) c = (length (cb_bytes c) \<le> bytes limit_b)"

lemma last_n_eq_iff: "last_n n xs = xs \<longleftrightarrow> length xs \<le> n"
  by (auto dest: arg_cong [of _ _ length])

lemma push_chunk_kept:
  assumes "within_bytes options c"
  shows "\<exists>c'. push_chunk c chunk options = Inr c' \<and> within_bytes options c' \<and>
     cb_bytes c' = keep_bytes options (cb_bytes c @ chunk) \<and>
     (cb_truncated c' \<longleftrightarrow> cb_truncated c \<or> keep_bytes options (cb_bytes c @ chunk) \<noteq> cb_bytes c @ chunk)"
proof (cases options)
  case (RawBounded m b)
  show ?thesis
  proof (cases b)
    case CollectDropAdditional
    then show ?thesis using assms RawBounded by (auto simp: Let_def min_def)
  next
    case CollectDropOldest
    let ?m = "bytes m"
    show ?thesis
    proof (cases "?m < length chunk")
      case True
      then have "last_n ?m (cb_bytes c @ chunk) = drop (length chunk - ?m) chunk"
        by (simp add: last_n_append) (simp add: last_n_def)
      then show ?thesis
        using True RawBounded CollectDropOldest last_n_eq_iff [of ?m "cb_bytes c @ chunk"] by (auto simp: Let_def)
    next
      case False
      then have "last_n ?m (cb_bytes c @ chunk) = drop (length (cb_bytes c) + length chunk - ?m) (cb_bytes c) @ chunk"
        by (simp add: last_n_def)
      moreover have "length (cb_bytes c) + length chunk - ?m \<le> length (cb_bytes c)" using False by simp
      ultimately show ?thesis
        using False RawBounded CollectDropOldest last_n_eq_iff [of ?m "cb_bytes c @ chunk"]
        by (auto simp: Let_def drain_front_def)
    qed
  qed
qed simp

interpretation byte_sink: bounded_collector collected_bytes_new "\<lambda>c chunk. push_chunk c chunk options"
  cb_bytes cb_truncated "within_bytes options" "\<lambda>chunk. chunk" "keep_bytes options"
  for options
proof
  show "within_bytes options collected_bytes_new" "keep_bytes options [] = []"
    by (cases "(options, [] :: bytes)" rule: keep_bytes.cases; simp add: collected_bytes_new_def last_n_def)+
  show "keep_bytes options (keep_bytes options xs @ a) = keep_bytes options (xs @ a)" for xs a
    by (cases "(options, xs)" rule: keep_bytes.cases) (auto simp: last_n_append_last_n min_def)
  show "keep_bytes options xs \<noteq> xs \<Longrightarrow> keep_bytes options (xs @ a) \<noteq> xs @ a" for xs a
    by (cases "(options, xs)" rule: keep_bytes.cases) (auto simp: last_n_eq_iff dest: arg_cong [of _ _ length])
qed (simp_all add: collected_bytes_new_def push_chunk_kept)

subsection \<open>Lines\<close>

definition lines_fit :: "nat \<Rightarrow> nat \<Rightarrow> bytes list \<Rightarrow> bool" where
  "lines_fit max_bytes max_lines ls \<longleftrightarrow> length ls \<le> max_lines \<and> sum_list (map length ls) \<le> max_bytes"

fun longest_suffix :: "('a list \<Rightarrow> bool) \<Rightarrow> 'a list \<Rightarrow> 'a list" where
  "longest_suffix P [] = []"
| "longest_suffix P (x # xs) = (if P (x # xs) then x # xs else longest_suffix P xs)"

definition greedy :: "('a list \<Rightarrow> bool) \<Rightarrow> 'a list \<Rightarrow> 'a list" where
  "greedy P xs = foldl (\<lambda>acc x. if P (acc @ [x]) then acc @ [x] else acc) [] xs"

fun keep_lines :: "line_collection_options \<Rightarrow> bytes list \<Rightarrow> bytes list" where
  "keep_lines LineTrustedUnbounded ls = ls"
| "keep_lines (LineBounded limit_b max_lines CollectDropAdditional) ls =
     greedy (lines_fit (bytes limit_b) max_lines) ls"
| "keep_lines (LineBounded limit_b max_lines CollectDropOldest) ls =
     longest_suffix (lines_fit (bytes limit_b) max_lines) (filter (\<lambda>l. length l \<le> bytes limit_b) ls)"

lemma lines_fit_append:
  "lines_fit mb ml (xs @ ys) \<Longrightarrow> lines_fit mb ml xs" "lines_fit mb ml (xs @ ys) \<Longrightarrow> lines_fit mb ml ys"
  "lines_fit mb ml []"
  by (auto simp: lines_fit_def)

lemma lines_fit_small: "lines_fit mb ml ls \<Longrightarrow> l \<in> set ls \<Longrightarrow> length l \<le> mb"
  unfolding lines_fit_def using member_le_sum_list [of "length l" "map length ls"] by auto

lemma longest_suffix_holds: "P [] \<Longrightarrow> P (longest_suffix P xs)"
  by (induction xs) auto

lemma longest_suffix_suffix: "suffix (longest_suffix P xs) xs"
  by (induction xs) (auto intro: suffix_ConsI)

lemma longest_suffix_append:
  assumes "\<And>xs ys. P (xs @ ys) \<Longrightarrow> P xs"
  shows "longest_suffix P (longest_suffix P xs @ ys) = longest_suffix P (xs @ ys)"
proof (induction xs)
  case (Cons x xs)
  then show ?case using assms [of "x # xs" ys] by auto
qed simp

lemma longest_suffix_id: "P xs \<Longrightarrow> longest_suffix P xs = xs"
  by (cases xs) auto

lemma longest_suffix_eq_iff: "P [] \<Longrightarrow> longest_suffix P xs = xs \<longleftrightarrow> P xs"
  using longest_suffix_holds [of P xs] longest_suffix_id [of P xs] by auto

lemma greedy_snoc: "greedy P (xs @ [x]) = (if P (greedy P xs @ [x]) then greedy P xs @ [x] else greedy P xs)"
  by (simp add: greedy_def)

lemma greedy_Nil [simp]: "greedy P [] = []"
  by (simp add: greedy_def)

lemma greedy_holds: "P [] \<Longrightarrow> P (greedy P xs)"
  by (induction xs rule: rev_induct) (auto simp: greedy_snoc)

lemma greedy_subseq: "subseq (greedy P xs) xs"
  by (induction xs rule: rev_induct) (auto simp: greedy_snoc intro: subseq_append_iff [THEN iffD2] subseq_rev_drop_many)

lemma greedy_id:
  assumes "\<And>xs ys. P (xs @ ys) \<Longrightarrow> P xs"
  shows "P xs \<Longrightarrow> greedy P xs = xs"
proof (induction xs rule: rev_induct)
  case (snoc x xs)
  then show ?case using assms [of xs "[x]"] by (simp add: greedy_snoc)
qed simp

lemma greedy_eq_iff:
  assumes "\<And>xs ys. P (xs @ ys) \<Longrightarrow> P xs" and "P []"
  shows "greedy P xs = xs \<longleftrightarrow> P xs"
  using greedy_id [of P xs, OF assms(1)] greedy_holds [of P xs, OF assms(2)] by auto

definition lines_counted :: "collected_lines \<Rightarrow> bool" where
  "lines_counted c \<longleftrightarrow> retained_bytes c = sum_list (map length (cl_lines c))"

fun within_lines :: "line_collection_options \<Rightarrow> collected_lines \<Rightarrow> bool" where
  "within_lines LineTrustedUnbounded c = lines_counted c"
| "within_lines (LineBounded limit_b max_lines _) c =
     (lines_counted c \<and> lines_fit (bytes limit_b) max_lines (cl_lines c))"

lemma fits_one_more:
  "lines_counted c \<Longrightarrow> lines_fit mb ml (cl_lines c) \<Longrightarrow>
   lines_fit mb ml (cl_lines c @ [l]) \<longleftrightarrow>
     \<not> (ml \<le> length (cl_lines c) \<or> mb - retained_bytes c < length l)"
  by (auto simp: lines_fit_def lines_counted_def)

lemma evict_loop_suffix:
  assumes "length l \<le> mb" and "ml \<noteq> 0"
  shows "lines_counted c \<Longrightarrow> lines_fit mb ml (cl_lines c) \<Longrightarrow>
    \<exists>c'. evict_loop (length l) mb ml c = Inr c' \<and> lines_counted c' \<and>
      cl_lines c' @ [l] = longest_suffix (lines_fit mb ml) (cl_lines c @ [l]) \<and>
      (cl_truncated c' \<longleftrightarrow> cl_truncated c \<or> cl_lines c' \<noteq> cl_lines c)"
proof (induction "cl_lines c" arbitrary: c)
  case Nil
  then have "\<not> (ml \<le> length (cl_lines c) \<or> mb - retained_bytes c < length l)"
    using assms by (auto simp: lines_counted_def)
  moreover have "lines_fit mb ml [l]" using assms by (simp add: lines_fit_def)
  ultimately show ?case using Nil.prems Nil.hyps [symmetric] by (subst evict_loop.simps) simp
next
  case (Cons x xs)
  show ?case
  proof (cases "lines_fit mb ml (cl_lines c @ [l])")
    case True
    then have "\<not> (ml \<le> length (cl_lines c) \<or> mb - retained_bytes c < length l)"
      using fits_one_more [OF Cons.prems] by blast
    then show ?thesis
      using Cons.prems longest_suffix_id [of "lines_fit mb ml", OF True] by (subst evict_loop.simps) simp
  next
    case False
    let ?c = "c\<lparr>cl_lines := xs, retained_bytes := retained_bytes c - length x, cl_truncated := True\<rparr>"
    have c: "lines_counted ?c" "length x \<le> retained_bytes c"
      using Cons.prems Cons.hyps(2) [symmetric] by (simp_all add: lines_counted_def)
    then have step: "evict_loop (length l) mb ml c = evict_loop (length l) mb ml ?c"
      using False fits_one_more [OF Cons.prems] Cons.hyps(2) [symmetric]
      by (subst evict_loop.simps) (auto simp: cl_pop_front_def)
    obtain c' where c': "evict_loop (length l) mb ml ?c = Inr c'" "lines_counted c'"
        "cl_lines c' @ [l] = longest_suffix (lines_fit mb ml) (xs @ [l])" "cl_truncated c'"
      using Cons.hyps(1) [of ?c] c(1) Cons.prems(2) Cons.hyps(2) [symmetric]
      by (auto simp: lines_fit_def)
    have "suffix (cl_lines c' @ [l]) (xs @ [l])"
      unfolding c'(3) by (rule longest_suffix_suffix)
    then have "cl_lines c' \<noteq> cl_lines c"
      using Cons.hyps(2) [symmetric] by (auto dest: suffix_length_le)
    then show ?thesis
      using step c' False Cons.hyps(2) [symmetric] by auto
  qed
qed

lemma push_line_oldest:
  assumes "lines_counted c" and "lines_fit (bytes m) ml (cl_lines c)"
  shows "\<exists>c'. push_line c l (LineBounded m ml CollectDropOldest) = Inr c' \<and> lines_counted c' \<and>
     cl_lines c' = keep_lines (LineBounded m ml CollectDropOldest) (cl_lines c @ [l]) \<and>
     (cl_truncated c' \<longleftrightarrow> cl_truncated c \<or> cl_lines c' \<noteq> cl_lines c @ [l])"
proof -
  have small: "filter (\<lambda>l. length l \<le> bytes m) (cl_lines c) = cl_lines c"
    using lines_fit_small [OF assms(2)] by (simp add: filter_id_conv)
  show ?thesis
  proof (cases "ml = 0 \<or> bytes m < length l")
    case True
    have id: "longest_suffix (lines_fit (bytes m) ml) (cl_lines c) = cl_lines c"
      by (rule longest_suffix_id [of "lines_fit (bytes m) ml", OF assms(2)])
    have "longest_suffix (lines_fit (bytes m) ml) [l] = []" if "ml = 0"
      using that by (simp add: lines_fit_def)
    moreover have "cl_lines c = []" if "ml = 0" using assms(2) that by (simp add: lines_fit_def)
    ultimately show ?thesis
      using True assms(1) small id by (auto simp: Let_def lines_counted_def)
  next
    case False
    obtain c' where c': "evict_loop (length l) (bytes m) ml c = Inr c'" "lines_counted c'"
      "cl_lines c' @ [l] = longest_suffix (lines_fit (bytes m) ml) (cl_lines c @ [l])"
      "cl_truncated c' \<longleftrightarrow> cl_truncated c \<or> cl_lines c' \<noteq> cl_lines c"
      using evict_loop_suffix [of l "bytes m" ml c] False assms by auto
    from c'(2) have "lines_counted (cl_push_back c' l)"
      by (simp add: cl_push_back_def lines_counted_def)
    then show ?thesis
      using False small c'(1,4) c'(3) [symmetric]
      by (intro exI [of _ "cl_push_back c' l"]) (simp add: Let_def, auto simp: cl_push_back_def)
  qed
qed

lemma push_line_kept:
  assumes "within_lines options c"
  shows "\<exists>c'. push_line c l options = Inr c' \<and> within_lines options c' \<and>
     cl_lines c' = keep_lines options (cl_lines c @ [l]) \<and>
     (cl_truncated c' \<longleftrightarrow> cl_truncated c \<or> keep_lines options (cl_lines c @ [l]) \<noteq> cl_lines c @ [l])"
proof (cases "(options, cl_lines c)" rule: keep_lines.cases)
  case (2 m ml ls)
  then have fit: "lines_fit (bytes m) ml (cl_lines c)" and cnt: "lines_counted c"
    using assms by auto
  have id: "greedy (lines_fit (bytes m) ml) (cl_lines c) = cl_lines c"
    using greedy_id [of "lines_fit (bytes m) ml", OF lines_fit_append(1) fit] .
  have "lines_fit (bytes m) ml (cl_lines c @ [l]) \<longleftrightarrow>
     \<not> (ml \<le> length (cl_lines c) \<or> bytes m < length l \<or> bytes m - retained_bytes c < length l)"
    using cnt fit by (auto simp: lines_fit_def lines_counted_def)
  then show ?thesis
    using 2 fit cnt id by (auto simp: Let_def cl_push_back_def greedy_snoc lines_counted_def)
next
  case (3 m ml ls)
  then obtain c' where c': "push_line c l (LineBounded m ml CollectDropOldest) = Inr c'" "lines_counted c'"
     "cl_lines c' = keep_lines (LineBounded m ml CollectDropOldest) (cl_lines c @ [l])"
     "cl_truncated c' \<longleftrightarrow> cl_truncated c \<or> cl_lines c' \<noteq> cl_lines c @ [l]"
    using push_line_oldest [of c m ml l] assms by auto
  moreover have "lines_fit (bytes m) ml (cl_lines c')"
    unfolding c'(3) by (simp del: filter_append) (rule longest_suffix_holds, rule lines_fit_append(3))
  ultimately show ?thesis using 3 by (intro exI [of _ c']) simp
qed (use assms in \<open>auto simp: cl_push_back_def lines_counted_def\<close>)

lemma keep_lines_step: "keep_lines options (keep_lines options xs @ [l]) = keep_lines options (xs @ [l])"
proof (cases "(options, xs)" rule: keep_lines.cases)
  case (2 m ml ls)
  then show ?thesis
    using greedy_id [of "lines_fit (bytes m) ml" "greedy (lines_fit (bytes m) ml) xs", OF lines_fit_append(1)]
      greedy_holds [of "lines_fit (bytes m) ml" xs, OF lines_fit_append(3)]
    by (simp add: greedy_snoc)
next
  case (3 m ml ls)
  let ?P = "lines_fit (bytes m) ml" and ?F = "filter (\<lambda>l. length l \<le> bytes m)"
  have "?F (longest_suffix ?P (?F xs)) = longest_suffix ?P (?F xs)"
    using set_mono_suffix [OF longest_suffix_suffix [of ?P "?F xs"]] by (auto simp: filter_id_conv)
  then show ?thesis
    using 3 longest_suffix_append [of ?P "?F xs", OF lines_fit_append(1)] by simp
qed simp

lemma keep_lines_grows: "keep_lines options xs \<noteq> xs \<Longrightarrow> keep_lines options (xs @ [l]) \<noteq> xs @ [l]"
proof (cases "(options, xs)" rule: keep_lines.cases)
  case (2 m ml ls)
  let ?P = "lines_fit (bytes m) ml"
  have iff: "greedy ?P ys = ys \<longleftrightarrow> ?P ys" for ys
    by (rule greedy_eq_iff [of ?P, OF lines_fit_append(1) lines_fit_append(3)])
  assume "keep_lines options xs \<noteq> xs"
  then show ?thesis
    using 2 iff [of xs] iff [of "xs @ [l]"] lines_fit_append(1) [of "bytes m" ml xs "[l]"]
    by (auto simp del: greedy_snoc)
next
  case (3 m ml ls)
  let ?P = "lines_fit (bytes m) ml" and ?F = "filter (\<lambda>l. length l \<le> bytes m)"
  have whole: "longest_suffix ?P (?F ys) = ys \<longleftrightarrow> ?P ys" for ys
  proof
    assume "longest_suffix ?P (?F ys) = ys"
    then show "?P ys" using longest_suffix_holds [of ?P "?F ys", OF lines_fit_append(3)] by simp
  next
    assume "?P ys"
    moreover from this have "?F ys = ys" using lines_fit_small [of "bytes m" ml ys] by (simp add: filter_id_conv)
    ultimately show "longest_suffix ?P (?F ys) = ys" using longest_suffix_id [of ?P ys] by simp
  qed
  assume "keep_lines options xs \<noteq> xs"
  then show ?thesis
    using 3 whole [of xs] whole [of "xs @ [l]"] lines_fit_append(1) [of "bytes m" ml xs "[l]"]
    by (simp del: filter_append) blast
qed simp

interpretation line_sink: bounded_collector collected_lines_new "\<lambda>c line. push_line c line options"
  cl_lines cl_truncated "within_lines options" "\<lambda>line. [line]" "keep_lines options"
  for options
proof
  show "within_lines options collected_lines_new"
    by (cases options) (simp_all add: collected_lines_new_def lines_counted_def lines_fit_def)
  show "keep_lines options [] = []"
    by (cases "(options, [] :: bytes list)" rule: keep_lines.cases) auto
qed (simp_all add: collected_lines_new_def push_line_kept keep_lines_step keep_lines_grows)

section \<open>Collecting a stream\<close>

fun input_bytes :: "input list \<Rightarrow> bytes" where
  "input_bytes [] = []"
| "input_bytes (InChunk c # is) = c @ input_bytes is"
| "input_bytes (InGap # is) = input_bytes is"

fun input_chunks :: "input list \<Rightarrow> bytes list" where
  "input_chunks [] = []"
| "input_chunks (InChunk c # is) = c # input_chunks is"
| "input_chunks (InGap # is) = input_chunks is"

lemma concat_input_chunks: "concat (input_chunks is) = input_bytes is"
  by (induction "is" rule: input_chunks.induct) simp_all

abbreviation stream_polls :: "input list \<Rightarrow> poll list" where
  "stream_polls is \<equiv> map (Event \<circ> Some \<circ> input_event) is"

lemma consume_collect_chunks:
  "push_all f sink (input_chunks is) = Inr c \<Longrightarrow>
   consume_sync (collect_chunks_visitor f) sink (stream_polls is @ Event (Some Eof) # ps) = Inr (Finished c)"
proof (induction "is" arbitrary: sink rule: input_chunks.induct)
  case (2 c' "is")
  then show ?case by (cases "f sink c'") (simp_all add: collect_chunks_visitor_def)
qed (simp_all add: collect_chunks_visitor_def)

lemma visit_lines_collector:
  "visit_lines (collect_lines_visitor (line_collector options)) sink ls =
     (case push_all (\<lambda>c line. push_line c line options) sink ls of
        Inl e \<Rightarrow> Inl e | Inr c \<Rightarrow> Inr (Continue, c))"
  by (induction ls arbitrary: sink)
    (simp_all add: collect_lines_visitor_def line_collector_def split: sum.split)

lemma visit_stream_collector:
  "push_all (\<lambda>c line. push_line c line options) sink (complete @ trailing) = Inr c \<Longrightarrow>
   visit_stream (collect_lines_visitor (line_collector options)) sink complete trailing = Inr c"
  by (auto simp: visit_stream_def close_lines_def visit_lines_collector push_all_append
      split: sum.splits) (simp_all add: collect_lines_visitor_def)

lemma parse_lines_new_ok:
  "0 < limit options \<Longrightarrow>
   parse_lines_new options inner = Inr \<lparr>pl_parser = line_parser_new, pl_options = options, pl_inner = inner\<rparr>"
  by (simp add: parse_lines_new_def assert_max_line_length_non_zero_def)

lemma concat_singletons: "concat (map (\<lambda>x. [x]) xs) = xs"
  by (induction xs) simp_all

lemma keep_lines_ok:
  "subseq (keep_lines options ls) ls"
  "options = LineBounded m ml b \<Longrightarrow> lines_fit (bytes m) ml (keep_lines options ls)"
proof -
  show "subseq (keep_lines options ls) ls"
  proof (cases "(options, ls)" rule: keep_lines.cases)
    case (2 m ml ls)
    then show ?thesis by (auto intro: greedy_subseq)
  next
    case (3 m ml ls')
    let ?F = "filter (\<lambda>l. length l \<le> bytes m) ls"
    have "subseq (longest_suffix (lines_fit (bytes m) ml) ?F) ?F"
      using longest_suffix_suffix by (rule suffix_imp_subseq)
    also have "subseq ?F ls" by (rule subseq_filter_left)
    finally show ?thesis using 3 by simp
  qed simp
  show "options = LineBounded m ml b \<Longrightarrow> lines_fit (bytes m) ml (keep_lines options ls)"
    using greedy_holds [of "lines_fit (bytes m) ml", OF lines_fit_append(3)]
      longest_suffix_holds [of "lines_fit (bytes m) ml", OF lines_fit_append(3)]
    by (cases b) simp_all
qed

section \<open>Properties of collecting\<close>

text \<open>C26: collecting a stream's chunks until its end never panics and retains exactly the part of
  the delivered bytes the options ask for: everything, the first \<open>max_bytes\<close> bytes, or the last
  \<open>max_bytes\<close> bytes, however the stream was chunked; \<open>truncated\<close> is set exactly when bytes are missing.\<close>

theorem collect_chunks_retains:
  "\<exists>c. consume_sync (collect_chunks_visitor (bytes_collector options)) collected_bytes_new
         (stream_polls is @ Event (Some Eof) # ps) = Inr (Finished c) \<and>
       cb_bytes c = keep_bytes options (input_bytes is) \<and>
       (cb_truncated c \<longleftrightarrow> cb_bytes c \<noteq> input_bytes is)"
proof -
  obtain c where "push_all (\<lambda>c chunk. push_chunk c chunk options) collected_bytes_new (input_chunks is) = Inr c"
      "cb_bytes c = keep_bytes options (input_bytes is)"
      "cb_truncated c \<longleftrightarrow> keep_bytes options (input_bytes is) \<noteq> input_bytes is"
    using byte_sink.collected [of options "input_chunks is"] by (auto simp: concat_input_chunks)
  moreover have "bytes_collector options = (\<lambda>c chunk. push_chunk c chunk options)"
    by (simp add: fun_eq_iff bytes_collector_def)
  ultimately show ?thesis
    using consume_collect_chunks [of "bytes_collector options" collected_bytes_new "is" c ps] by auto
qed

text \<open>The run of the line collector over a stream with gaps, and over a whole one.\<close>

lemma collect_inputs_run:
  assumes "byte_deps_ok d" and "0 < limit options"
    and "ls = map decode_line_lossy (fst (run_inputs options (ReadingLine, []) is) @ flush (snd (run_inputs options (ReadingLine, []) is)))"
  shows "\<exists>v c. parse_lines_new options collected_lines_new = Inr v \<and>
     consume_sync (parse_lines_visitor d (collect_lines_visitor (line_collector copts))) v
       (stream_polls is @ Event (Some Eof) # ps) = Inr (Finished c) \<and>
     cl_lines c = keep_lines copts ls \<and> (cl_truncated c \<longleftrightarrow> cl_lines c \<noteq> ls)"
proof -
  let ?L = "collect_lines_visitor (line_collector copts)"
  let ?v = "\<lparr>pl_parser = line_parser_new, pl_options = options, pl_inner = collected_lines_new\<rparr>"
  let ?r = "run_inputs options (ReadingLine, []) is"
  have l: "lstate line_parser_new = (ReadingLine, [])" by (simp add: line_parser_new_def)
  obtain c where c: "push_all (\<lambda>c line. push_line c line copts) collected_lines_new ls = Inr c"
      "cl_lines c = keep_lines copts ls" "cl_truncated c \<longleftrightarrow> keep_lines copts ls \<noteq> ls"
    using line_sink.collected [of copts ls] unfolding concat_singletons by blast
  have lines: "map decode_line_lossy (fst ?r) @ map decode_line_lossy (flush (snd ?r)) = ls" using assms(3) by simp
  have "consume_sync (parse_lines_visitor d ?L) ?v (stream_polls is @ Event (Some Eof) # ps) = Inr (Finished c)"
    using consume_parsed_lines [OF assms(1), of ?L "Some Eof" ?v ?r "is" ps] visit_stream_collector [OF c(1) [folded lines]] l
    by simp (simp add: collect_lines_visitor_def line_parser_new_def)
  then show ?thesis
    using c(2,3) parse_lines_new_ok [OF assms(2), of collected_lines_new] by (intro exI [of _ ?v] exI [of _ c]) simp
qed

lemma collect_lines_run:
  assumes "byte_deps_ok d" and "0 < limit options"
  shows "\<exists>v c. parse_lines_new options collected_lines_new = Inr v \<and>
     consume_sync (parse_lines_visitor d (collect_lines_visitor (line_collector copts))) v
       (map (Event \<circ> Some \<circ> Chunk) chunks @ Event (Some Eof) # ps) = Inr (Finished c) \<and>
     cl_lines c = keep_lines copts (map decode_line_lossy (spec_lines options (concat chunks))) \<and>
     (cl_truncated c \<longleftrightarrow> cl_lines c \<noteq> map decode_line_lossy (spec_lines options (concat chunks)))"
proof -
  let ?r = "run_inputs options (ReadingLine, []) (map InChunk chunks)"
  have "map decode_line_lossy (spec_lines options (concat chunks)) = map decode_line_lossy (fst ?r @ flush (snd ?r))"
    using run_lines_spec [of options "concat chunks", symmetric] by (simp add: run_lines_def run_inputs_chunks case_prod_beta)
  from collect_inputs_run [OF assms this, of copts ps] show ?thesis by (simp add: comp_def)
qed

text \<open>C7: collecting a stream's lines until its end never panics and retains exactly what the
  collection options keep of the stream's decoded lines, in order; \<open>truncated\<close> is set exactly when a
  line is missing.\<close>

theorem collect_lines_retains:
  assumes "byte_deps_ok d" and "0 < limit options"
  shows "\<exists>v c. parse_lines_new options collected_lines_new = Inr v \<and>
     consume_sync (parse_lines_visitor d (collect_lines_visitor (line_collector copts))) v
       (map (Event \<circ> Some \<circ> Chunk) chunks @ Event (Some Eof) # ps) = Inr (Finished c) \<and>
     cl_lines c = keep_lines copts (map decode_line_lossy (spec_lines options (concat chunks))) \<and>
     (cl_truncated c \<longleftrightarrow> cl_lines c \<noteq> map decode_line_lossy (spec_lines options (concat chunks)))"
  by (rule collect_lines_run [OF assms])

theorem collect_lines_retains_witness:
  "\<exists>v c. parse_lines_new line_parsing_options_default collected_lines_new = Inr v \<and>
     consume_sync (parse_lines_visitor example_deps (collect_lines_visitor
         (line_collector (LineBounded (NumBytes 3) 2 CollectDropOldest)))) v
       (map (Event \<circ> Some \<circ> Chunk) [''a'', [newline, CHR ''b'', newline], ''c''] @ [Event (Some Eof)]) = Inr (Finished c) \<and>
     cl_lines c = [''b'', ''c''] \<and> cl_truncated c"
proof -
  have ls: "map decode_line_lossy (spec_lines line_parsing_options_default
       (concat [''a'', [newline, CHR ''b'', newline], ''c''])) = [''a'', ''b'', ''c'']"
    by code_simp
  have pos: "0 < limit line_parsing_options_default" by code_simp
  have keep: "keep_lines (LineBounded (NumBytes 3) 2 CollectDropOldest) [''a'', ''b'', ''c''] = [''b'', ''c'']"
    by code_simp
  show ?thesis
    using collect_lines_retains [OF example_deps_ok pos, of "LineBounded (NumBytes 3) 2 CollectDropOldest"
      "[''a'', [newline, CHR ''b'', newline], ''c'']" "[]"] unfolding ls keep by auto
qed

text \<open>C37: however many lines are pushed, a bounded line sink holds at most \<open>max_lines\<close> lines and
  \<open>max_bytes\<close> bytes, its byte counter is exact, pushing never panics, and what it holds is a
  subsequence of what was pushed.\<close>

theorem collected_lines_bounded:
  "\<exists>c. push_all (\<lambda>c line. push_line c line (LineBounded m ml b)) collected_lines_new ls = Inr c \<and>
     length (cl_lines c) \<le> ml \<and> retained_bytes c = sum_list (map length (cl_lines c)) \<and>
     retained_bytes c \<le> bytes m \<and> subseq (cl_lines c) ls"
proof -
  obtain c where "push_all (\<lambda>c line. push_line c line (LineBounded m ml b)) collected_lines_new ls = Inr c"
      "within_lines (LineBounded m ml b) c" "cl_lines c = keep_lines (LineBounded m ml b) ls"
    using line_sink.collected [of "LineBounded m ml b" ls] unfolding concat_singletons by blast
  then show ?thesis
    using keep_lines_ok(1) [of "LineBounded m ml b" ls] by (auto simp: lines_counted_def lines_fit_def)
qed

end
