(* ===== verification/Output_Collection.thy ===== *)
theory Output_Collection
  imports Termination_Contract Collect
begin

text \<open>
  Waiting for a process together with its output: the rest of \<open>wait.rs\<close>, \<open>output_collection/mod.rs\<close>,
  \<open>output_collection/options.rs\<close> and \<open>output_collection/drain.rs\<close>.

  A collector is a consumer handle; how its task ends is an argument.  Two tasks race in the drain, so
  what the code observes of the race is an argument too: whose wait resolved first, how each race
  between task and deadline ended, and what a single poll of the other wait gives.  Every function
  returns the effects it had on each collector's task.
\<close>

section \<open>Waiting with termination\<close>

definition terminate_after_wait_timeout ::
  "'c child_ops \<Rightarrow> ('c, 'o, 'e) process_handle \<Rightarrow> duration \<Rightarrow> graceful_shutdown
   \<Rightarrow> ((wait_or_terminate_error + exit_status wait_for_completion_or_terminate_result)
        \<times> ('c, 'o, 'e) process_handle) outcome" where
  "terminate_after_wait_timeout E h wait_timeout shutdown =
     (let process_name = ph_name h
      in (case terminate E h shutdown of
            Inl p \<Rightarrow> Inl p
          | Inr (Inr status, h) \<Rightarrow> Inr (Inr (TerminatedAfterTimeout status wait_timeout), h)
          | Inr (Inl err, h) \<Rightarrow> Inr (Inl (TerminationAfterTimeoutFailed process_name wait_timeout err), h)))"

definition terminate_after_wait_error ::
  "'c child_ops \<Rightarrow> ('c, 'o, 'e) process_handle \<Rightarrow> wait_error \<Rightarrow> graceful_shutdown
   \<Rightarrow> ((wait_or_terminate_error + exit_status wait_for_completion_or_terminate_result)
        \<times> ('c, 'o, 'e) process_handle) outcome" where
  "terminate_after_wait_error E h wait_error shutdown =
     (let process_name = ph_name h
      in (case terminate E h shutdown of
            Inl p \<Rightarrow> Inl p
          | Inr (Inr status, h) \<Rightarrow> Inr (Inl (WaitFailedTerminated process_name wait_error status), h)
          | Inr (Inl err, h) \<Rightarrow> Inr (Inl (WaitFailedTerminationFailed process_name wait_error err), h)))"

definition wait_for_completion_or_terminate_inner ::
  "'c child_ops \<Rightarrow> ('c, 'o, 'e) process_handle \<Rightarrow> duration \<Rightarrow> graceful_shutdown
   \<Rightarrow> ((wait_or_terminate_error + exit_status wait_for_completion_or_terminate_result)
        \<times> ('c, 'o, 'e) process_handle) outcome" where
  "wait_for_completion_or_terminate_inner E h wait_timeout shutdown =
     (case wait_for_completion_inner E h wait_timeout of
        (Inr (Completed status), h) \<Rightarrow> Inr (Inr (CompletedInTime status), h)
      | (Inr (WaitTimedOut timeout), h) \<Rightarrow> terminate_after_wait_timeout E h timeout shutdown
      | (Inl wait_error, h) \<Rightarrow> terminate_after_wait_error E h wait_error shutdown)"

section \<open>Options and results\<close>

definition DEFAULT_OUTPUT_EOF_TIMEOUT :: duration where
  "DEFAULT_OUTPUT_EOF_TIMEOUT = from_secs 3"

record line_output_options =
  stdout_line_options :: line_collection_options
  stderr_line_options :: line_collection_options

definition line_symmetric :: "line_collection_options \<Rightarrow> line_output_options" where
  "line_symmetric options = \<lparr>stdout_line_options = options, stderr_line_options = options\<rparr>"

record raw_output_options =
  stdout_raw_options :: raw_collection_options
  stderr_raw_options :: raw_collection_options

definition raw_symmetric :: "raw_collection_options \<Rightarrow> raw_output_options" where
  "raw_symmetric options = \<lparr>stdout_raw_options = options, stderr_raw_options = options\<rparr>"

record ('so, 'se) process_output =
  po_status :: exit_status
  po_stdout :: 'so
  po_stderr :: 'se

section \<open>Spawning the collectors\<close>

definition spawn_line_collector ::
  "byte_deps \<Rightarrow> string \<Rightarrow> line_parsing_options \<Rightarrow> line_collection_options
   \<Rightarrow> (consumer \<times> (collected_lines parse_lines, collected_lines) driver_task) outcome" where
  "spawn_line_collector d stream_name parsing_options collection_options =
     (case parse_lines_new parsing_options collected_lines_new of
        Inl p \<Rightarrow> Inl p
      | Inr visitor \<Rightarrow>
          Inr (spawn_consumer_sync stream_name
                (parse_lines_visitor d (collect_lines_visitor
                   (\<lambda>line sink. case push_line sink line collection_options of
                                  Inl p \<Rightarrow> Inl p | Inr sink \<Rightarrow> Inr (Continue, sink))))
                visitor))"

definition spawn_chunk_collector ::
  "string \<Rightarrow> raw_collection_options \<Rightarrow> (consumer \<times> (collected_bytes, collected_bytes) driver_task) outcome" where
  "spawn_chunk_collector stream_name options =
     Inr (spawn_consumer_sync stream_name
       (collect_chunks_visitor (\<lambda>sink chunk. push_chunk sink chunk options)) collected_bytes_new)"

text \<open>The streams' answers to \<open>try_subscribe\<close> and their names are arguments; the result carries the effects on
  a stdout collector that had to be aborted.\<close>

definition try_spawn_output_collectors ::
  "('c, 'o, 'e) process_handle \<Rightarrow> string \<Rightarrow> 'start + 'so \<Rightarrow> string \<Rightarrow> 'start + 'se
   \<Rightarrow> (string \<Rightarrow> 'so \<Rightarrow> (consumer \<times> 't1) outcome) \<Rightarrow> (string \<Rightarrow> 'se \<Rightarrow> (consumer \<times> 't2) outcome)
   \<Rightarrow> (('start wait_with_output_error + (consumer \<times> 't1) \<times> (consumer \<times> 't2)) \<times> effect list) outcome" where
  "try_spawn_output_collectors h out_name out_subscribe err_name err_subscribe spawn_stdout spawn_stderr =
     (case out_subscribe of
        Inl source \<Rightarrow> Inr (Inl (OutputCollectionStartFailed (ph_name h) source), [])
      | Inr out_subscription \<Rightarrow>
          (case spawn_stdout out_name out_subscription of
             Inl p \<Rightarrow> Inl p
           | Inr out_collector \<Rightarrow>
               (case err_subscribe of
                  Inl source \<Rightarrow>
                    (case consumer_abort (fst out_collector) of
                       Inl p \<Rightarrow> Inl p
                     | Inr es \<Rightarrow> Inr (Inl (OutputCollectionStartFailed (ph_name h) source), es))
                | Inr err_subscription \<Rightarrow>
                    (case spawn_stderr err_name err_subscription of
                       Inl p \<Rightarrow> Inl p
                     | Inr err_collector \<Rightarrow> Inr (Inr (out_collector, err_collector), [])))))"

section \<open>Draining two collectors\<close>

datatype consumer_drain_error = DrainTimeout | DrainCollection consumer_error

definition into_wait_with_output_error ::
  "consumer_drain_error \<Rightarrow> string \<Rightarrow> duration \<Rightarrow> 'start wait_with_output_error" where
  "into_wait_with_output_error e process_name eof_timeout =
     (case e of
        DrainCollection source \<Rightarrow> OutputCollectionFailed process_name source
      | DrainTimeout \<Rightarrow> OutputCollectionTimeout process_name eof_timeout)"

text \<open>What one poll of a wait whose deadline has passed finds: the task has ended, the abort is done, the
  abort has been requested and the task has not ended yet, or nothing.\<close>

datatype 's sibling_poll = SibJoined "'s join_result" | SibAborted | SibAborting | SibIdle

definition poll_wait_until ::
  "wait_guard \<Rightarrow> string \<Rightarrow> 's sibling_poll
   \<Rightarrow> ((consumer_error + 's option) poll_result \<times> wait_guard \<times> effect list) outcome" where
  "poll_wait_until g stream_name p =
     (case p of
        SibIdle \<Rightarrow> Inr (Pending, g, [])
      | SibAborting \<Rightarrow>
          Inr (Pending, g\<lparr>wg_termination_sender := False\<rparr>,
               (if wg_termination_sender g then [SendTermination] else []) @ (if wg_task g then [AbortTask] else []))
      | SibAborted \<Rightarrow>
          (case wait_until g stream_name (None :: 's join_result option) of
             Inl e \<Rightarrow> Inl e | Inr (r, g, es) \<Rightarrow> Inr (Ready r, g, es))
      | SibJoined joined \<Rightarrow>
          (case wait_until g stream_name (Some joined) of
             Inl e \<Rightarrow> Inl e | Inr (r, g, es) \<Rightarrow> Inr (Ready r, g, es)))"

definition take_ready_error_or_timeout ::
  "wait_guard \<Rightarrow> string \<Rightarrow> 's sibling_poll \<Rightarrow> (consumer_drain_error \<times> wait_guard \<times> effect list) outcome" where
  "take_ready_error_or_timeout g stream_name p =
     (case poll_wait_until g stream_name p of
        Inl e \<Rightarrow> Inl e
      | Inr (Ready (Inl err), g, es) \<Rightarrow> Inr (DrainCollection err, g, es)
      | Inr (_, g, es) \<Rightarrow> Inr (DrainTimeout, g, es))"

definition drain_remaining_consumer ::
  "wait_guard \<Rightarrow> string \<Rightarrow> 's join_result option
   \<Rightarrow> ((consumer_drain_error + 's) \<times> wait_guard \<times> effect list) outcome" where
  "drain_remaining_consumer g stream_name raced =
     (case wait_until g stream_name raced of
        Inl e \<Rightarrow> Inl e
      | Inr (Inr (Some sink), g, es) \<Rightarrow> Inr (Inr sink, g, es)
      | Inr (Inl err, g, es) \<Rightarrow> Inr (Inl (DrainCollection err), g, es)
      | Inr (Inr None, g, es) \<Rightarrow> Inr (Inl DrainTimeout, g, es))"

text \<open>\<open>TimedDrainAction\<close>: the drain is done, or the sibling must be aborted.\<close>

datatype 'r timed_drain_action = DrainDone "consumer_drain_error + 'r" | AbortSibling consumer_drain_error

text \<open>The two arms of the \<open>select!\<close> are the same code with the roles of the streams exchanged: \<open>first\<close> is
  the wait that resolved first, \<open>second\<close> its sibling.\<close>

definition drain_arm ::
  "wait_guard \<Rightarrow> string \<Rightarrow> 'f join_result option \<Rightarrow> wait_guard \<Rightarrow> string \<Rightarrow> 's join_result option
   \<Rightarrow> 's sibling_poll
   \<Rightarrow> (('f \<times> 's) timed_drain_action \<times> (wait_guard \<times> effect list) \<times> (wait_guard \<times> effect list)) outcome" where
  "drain_arm g1 name1 raced1 g2 name2 raced2 p2 =
     (case wait_until g1 name1 raced1 of
        Inl e \<Rightarrow> Inl e
      | Inr (Inr (Some first), g1, es1) \<Rightarrow>
          (case drain_remaining_consumer g2 name2 raced2 of
             Inl e \<Rightarrow> Inl e
           | Inr (Inl err, g2, es2) \<Rightarrow> Inr (DrainDone (Inl err), (g1, es1), (g2, es2))
           | Inr (Inr second, g2, es2) \<Rightarrow> Inr (DrainDone (Inr (first, second)), (g1, es1), (g2, es2)))
      | Inr (Inl err, g1, es1) \<Rightarrow> Inr (AbortSibling (DrainCollection err), (g1, es1), (g2, []))
      | Inr (Inr None, g1, es1) \<Rightarrow>
          (case take_ready_error_or_timeout g2 name2 p2 of
             Inl e \<Rightarrow> Inl e
           | Inr (err, g2, es2) \<Rightarrow> Inr (AbortSibling err, (g1, es1), (g2, es2))))"

definition drain_two ::
  "consumer \<Rightarrow> 'f join_result option \<Rightarrow> consumer \<Rightarrow> 's join_result option \<Rightarrow> 's sibling_poll
   \<Rightarrow> ((consumer_drain_error + 'f \<times> 's) \<times> effect list \<times> effect list) outcome" where
  "drain_two c1 raced1 c2 raced2 p2 =
     (case (into_wait c1, into_wait c2) of
        ((g1, c1'), (g2, c2')) \<Rightarrow>
          (case drain_arm g1 (c_stream_name c1) raced1 g2 (c_stream_name c2) raced2 p2 of
             Inl e \<Rightarrow> Inl e
           | Inr (act, (g1, es1), (g2, es2)) \<Rightarrow>
               (case act of
                  DrainDone result \<Rightarrow>
                    Inr (result, consumer_drop c1' @ es1 @ guard_drop g1, consumer_drop c2' @ es2 @ guard_drop g2)
                | AbortSibling err \<Rightarrow>
                    (case guard_abort g2 of
                       Inl e \<Rightarrow> Inl e
                     | Inr (g2, es2') \<Rightarrow>
                         Inr (Inl err, consumer_drop c1' @ es1 @ guard_drop g1,
                              consumer_drop c2' @ es2 @ es2' @ guard_drop g2)))))"

text \<open>What happens in a drain: who resolves first, how the races end, and what a poll of the other gives.\<close>

datatype ('so, 'se) drain_run =
    StdoutFirst "'so join_result option" "'se join_result option" "'se sibling_poll"
  | StderrFirst "'se join_result option" "'so join_result option" "'so sibling_poll"

definition wait_for_output_consumers ::
  "consumer \<Rightarrow> consumer \<Rightarrow> ('so, 'se) drain_run
   \<Rightarrow> ((consumer_drain_error + 'so \<times> 'se) \<times> effect list \<times> effect list) outcome" where
  "wait_for_output_consumers stdout_collector stderr_collector race =
     (case race of
        StdoutFirst raced_out raced_err p \<Rightarrow> drain_two stdout_collector raced_out stderr_collector raced_err p
      | StderrFirst raced_err raced_out p \<Rightarrow>
          (case drain_two stderr_collector raced_err stdout_collector raced_out p of
             Inl e \<Rightarrow> Inl e
           | Inr (r, es_err, es_out) \<Rightarrow>
               Inr (case r of Inl err \<Rightarrow> Inl err | Inr (stderr, stdout) \<Rightarrow> Inr (stdout, stderr), es_out, es_err)))"

section \<open>Waiting with collectors\<close>

text \<open>An error of the wait returns at once and drops both collectors.\<close>

definition wait_for_completion_with_collectors ::
  "'c child_ops \<Rightarrow> ('c, 'o, 'e) process_handle \<Rightarrow> duration \<Rightarrow> duration \<Rightarrow> consumer \<Rightarrow> consumer \<Rightarrow> ('so, 'se) drain_run
   \<Rightarrow> (('start wait_with_output_error + ('so, 'se) process_output wait_for_completion_result)
        \<times> ('c, 'o, 'e) process_handle \<times> effect list \<times> effect list) outcome" where
  "wait_for_completion_with_collectors E h proc_timeout eof_timeout stdout_collector stderr_collector race =
     (case wait_for_completion_inner E h proc_timeout of
        (Inl err, h) \<Rightarrow>
          Inr (Inl (OutputWaitFailed err), h, consumer_drop stdout_collector, consumer_drop stderr_collector)
      | (Inr (WaitTimedOut timeout), h) \<Rightarrow>
          (case (consumer_abort stdout_collector, consumer_abort stderr_collector) of
             (Inr es_out, Inr es_err) \<Rightarrow> Inr (Inr (WaitTimedOut timeout), h, es_out, es_err)
           | (Inl e, _) \<Rightarrow> Inl e
           | (_, Inl e) \<Rightarrow> Inl e)
      | (Inr (Completed status), h) \<Rightarrow>
          (case wait_for_output_consumers stdout_collector stderr_collector race of
             Inl e \<Rightarrow> Inl e
           | Inr (Inl err, es_out, es_err) \<Rightarrow>
               Inr (Inl (into_wait_with_output_error err (ph_name h) eof_timeout), h, es_out, es_err)
           | Inr (Inr (stdout, stderr), es_out, es_err) \<Rightarrow>
               Inr (Inr (Completed \<lparr>po_status = status, po_stdout = stdout, po_stderr = stderr\<rparr>), h, es_out, es_err)))"

definition wait_for_completion_or_terminate_with_collectors ::
  "'c child_ops \<Rightarrow> ('c, 'o, 'e) process_handle \<Rightarrow> duration \<Rightarrow> graceful_shutdown \<Rightarrow> duration \<Rightarrow> consumer \<Rightarrow> consumer
   \<Rightarrow> ('so, 'se) drain_run
   \<Rightarrow> (('start wait_with_output_error + ('so, 'se) process_output wait_for_completion_or_terminate_result)
        \<times> ('c, 'o, 'e) process_handle \<times> effect list \<times> effect list) outcome" where
  "wait_for_completion_or_terminate_with_collectors E h wait_timeout shutdown eof_timeout
       stdout_collector stderr_collector race =
     (case wait_for_completion_or_terminate_inner E h wait_timeout shutdown of
        Inl p \<Rightarrow> Inl p
      | Inr (Inl err, h) \<Rightarrow>
          Inr (Inl (OutputWaitOrTerminateFailed err), h, consumer_drop stdout_collector, consumer_drop stderr_collector)
      | Inr (Inr res, h) \<Rightarrow>
          (case wait_for_output_consumers stdout_collector stderr_collector race of
             Inl e \<Rightarrow> Inl e
           | Inr (Inl err, es_out, es_err) \<Rightarrow>
               Inr (Inl (into_wait_with_output_error err (ph_name h) eof_timeout), h, es_out, es_err)
           | Inr (Inr (stdout, stderr), es_out, es_err) \<Rightarrow>
               Inr (Inr (map_result (\<lambda>status. \<lparr>po_status = status, po_stdout = stdout, po_stderr = stderr\<rparr>) res),
                    h, es_out, es_err)))"

section \<open>The drain's contract\<close>

text \<open>How a race is to be read: the sink, the collector's error, or the deadline.\<close>

fun raced_result :: "string \<Rightarrow> 's join_result option \<Rightarrow> consumer_drain_error + 's" where
  "raced_result name None = Inl DrainTimeout"
| "raced_result name (Some (Inl err)) = Inl (DrainCollection (TaskJoin name err))"
| "raced_result name (Some (Inr (Inl err))) = Inl (DrainCollection (StreamRead err))"
| "raced_result name (Some (Inr (Inr sink))) = Inr sink"

text \<open>What a poll of the sibling after the deadline turns the error into.\<close>

fun polled_error :: "string \<Rightarrow> 's sibling_poll \<Rightarrow> consumer_drain_error" where
  "polled_error name (SibJoined (Inl err)) = DrainCollection (TaskJoin name err)"
| "polled_error name (SibJoined (Inr (Inl err))) = DrainCollection (StreamRead err)"
| "polled_error name _ = DrainTimeout"

fun drain_spec ::
  "string \<Rightarrow> 'f join_result option \<Rightarrow> string \<Rightarrow> 's join_result option \<Rightarrow> 's sibling_poll \<Rightarrow> consumer_drain_error + 'f \<times> 's" where
  "drain_spec name1 raced1 name2 raced2 p =
     (case raced_result name1 raced1 of
        Inl DrainTimeout \<Rightarrow> Inl (polled_error name2 p)
      | Inl err \<Rightarrow> Inl err
      | Inr first \<Rightarrow> (case raced_result name2 raced2 of Inl err \<Rightarrow> Inl err | Inr second \<Rightarrow> Inr (first, second)))"

text \<open>The one panic: the deadline passed for the first wait and the single poll of the second found that its
  task had panicked or been cancelled; aborting it then awaits a join handle that has already answered.\<close>

fun drain_panics :: "'f join_result option \<Rightarrow> 's sibling_poll \<Rightarrow> bool" where
  "drain_panics None (SibJoined (Inl _)) = True"
| "drain_panics _ _ = False"

definition fresh :: "consumer \<Rightarrow> bool" where
  "fresh c \<longleftrightarrow> c_task c \<and> c_termination_sender c"

lemmas drain_defs = drain_two_def drain_arm_def drain_remaining_consumer_def take_ready_error_or_timeout_def
  poll_wait_until_def wait_until_def guard_wait_def guard_abort_def guard_drop_def into_wait_def consumer_drop_def

lemma drain_two_result:
  fixes raced1 :: "'f join_result option" and raced2 :: "'s join_result option"
  assumes "fresh c1" "fresh c2"
  shows "if drain_panics raced1 p then drain_two c1 raced1 c2 raced2 p = Inl join_again
    else \<exists>es1 es2. drain_two c1 raced1 c2 raced2 p
        = Inr (drain_spec (c_stream_name c1) raced1 (c_stream_name c2) raced2 p, es1, es2) \<and>
      AwaitTask \<in> set es1 \<and> AwaitTask \<in> set es2"
proof -
  have f: "c_task c1" "c_termination_sender c1" "c_task c2" "c_termination_sender c2"
    using assms by (simp_all add: fresh_def)
  consider "raced1 = None" | err where "raced1 = Some (Inl err)" | err where "raced1 = Some (Inr (Inl err))"
    | sink where "raced1 = Some (Inr (Inr sink))" by (metis option.exhaust sum.exhaust)
  then show ?thesis
  proof cases
    case 1
    consider "p = SibIdle" | "p = SibAborting" | "p = SibAborted" | err where "p = SibJoined (Inl err)"
      | err where "p = SibJoined (Inr (Inl err))" | sink where "p = SibJoined (Inr (Inr sink))"
      by (metis sibling_poll.exhaust sum.exhaust)
    then show ?thesis using 1 f by cases (simp_all add: drain_defs)
  next
    case (4 sink)
    consider "raced2 = None" | err where "raced2 = Some (Inl err)" | err where "raced2 = Some (Inr (Inl err))"
      | sink2 where "raced2 = Some (Inr (Inr sink2))" by (metis option.exhaust sum.exhaust)
    then show ?thesis using 4 f by cases (simp_all add: drain_defs)
  qed (use f in \<open>simp_all add: drain_defs\<close>)
qed

fun race_out :: "('so, 'se) drain_run \<Rightarrow> 'so join_result option" where
  "race_out (StdoutFirst o' e p) = o'" | "race_out (StderrFirst e o' p) = o'"

fun race_err :: "('so, 'se) drain_run \<Rightarrow> 'se join_result option" where
  "race_err (StdoutFirst o' e p) = e" | "race_err (StderrFirst e o' p) = e"

fun race_panics :: "('so, 'se) drain_run \<Rightarrow> bool" where
  "race_panics (StdoutFirst o' e p) = drain_panics o' p" | "race_panics (StderrFirst e o' p) = drain_panics e p"

lemma drain_spec_success:
  "drain_spec n1 raced1 n2 raced2 p = Inr (a, b) \<longleftrightarrow> raced1 = Some (Inr (Inr a)) \<and> raced2 = Some (Inr (Inr b))"
  by (cases raced1 rule: option.exhaust; cases raced2 rule: option.exhaust)
    (auto split: sum.splits elim: raced_result.elims consumer_drain_error.exhaust
      dest: raced_result.elims simp: raced_result.simps split: consumer_drain_error.splits)

definition race_spec :: "string \<Rightarrow> string \<Rightarrow> ('so, 'se) drain_run \<Rightarrow> consumer_drain_error + 'so \<times> 'se" where
  "race_spec out_name err_name race =
     (case race of
        StdoutFirst ro re p \<Rightarrow> drain_spec out_name ro err_name re p
      | StderrFirst re ro p \<Rightarrow> map_sum id prod.swap (drain_spec err_name re out_name ro p))"

lemma race_spec_success:
  "race_spec n1 n2 race = Inr (a, b) \<longleftrightarrow> race_out race = Some (Inr (Inr a)) \<and> race_err race = Some (Inr (Inr b))"
proof (cases race)
  case (StderrFirst re ro p)
  then show ?thesis
    using drain_spec_success [of n2 re n1 ro p b a]
    by (cases "drain_spec n2 re n1 ro p") (auto simp: race_spec_def simp del: drain_spec.simps)
qed (simp add: race_spec_def drain_spec_success del: drain_spec.simps)

lemma drain_result:
  fixes race :: "('so, 'se) drain_run"
  assumes "fresh out" "fresh err"
  shows "race_panics race \<Longrightarrow> wait_for_output_consumers out err race = Inl join_again"
    and "\<not> race_panics race \<Longrightarrow> \<exists>es_out es_err. wait_for_output_consumers out err race
      = Inr (race_spec (c_stream_name out) (c_stream_name err) race, es_out, es_err) \<and>
    AwaitTask \<in> set es_out \<and> AwaitTask \<in> set es_err"
proof -
  have swap: "(case r of Inl e \<Rightarrow> Inl e | Inr (x, y) \<Rightarrow> Inr (y, x)) = map_sum id prod.swap r"
    for r :: "consumer_drain_error + 'se \<times> 'so" by (auto split: sum.splits)
  note d = wait_for_output_consumers_def race_spec_def
  show "race_panics race \<Longrightarrow> wait_for_output_consumers out err race = Inl join_again"
  proof (cases race)
    case (StdoutFirst ro re p)
    then show "race_panics race \<Longrightarrow> ?thesis" using drain_two_result [OF assms, of ro p re] by (simp add: d)
  next
    case (StderrFirst re ro p)
    then show "race_panics race \<Longrightarrow> ?thesis" using drain_two_result [OF assms(2,1), of re p ro] by (simp add: d)
  qed
  show "\<not> race_panics race \<Longrightarrow> \<exists>es_out es_err. wait_for_output_consumers out err race
      = Inr (race_spec (c_stream_name out) (c_stream_name err) race, es_out, es_err) \<and>
    AwaitTask \<in> set es_out \<and> AwaitTask \<in> set es_err"
  proof (cases race)
    case (StdoutFirst ro re p)
    then show "\<not> race_panics race \<Longrightarrow> ?thesis"
      using drain_two_result [OF assms, of ro p re] by (auto simp: d simp del: drain_spec.simps)
  next
    case (StderrFirst re ro p)
    then show "\<not> race_panics race \<Longrightarrow> ?thesis"
      using drain_two_result [OF assms(2,1), of re p ro] by (auto simp: d swap simp del: drain_spec.simps)
  qed
qed

text \<open>C9: Draining the collectors of a finished process.  When the deadline is the drain's only trouble, or a
  collector's error, or nothing, the drain ends without a panic, both collector tasks have been awaited
  (none is left running), and the outputs are returned exactly if both tasks delivered them in time;
  otherwise the error is the first failure seen, a collector's error being preferred over the timeout.
  In the remaining case (the deadline passed for one collector while a poll of the other finds that its
  task panicked or was cancelled) the drain panics, because it awaits a finished join handle again.\<close>

theorem drain_contract:
  fixes race :: "('so, 'se) drain_run"
  assumes "fresh out" "fresh err"
  shows "(race_panics race \<longrightarrow> wait_for_output_consumers out err race = Inl join_again) \<and>
    (\<not> race_panics race \<longrightarrow>
      (\<exists>r es_out es_err. wait_for_output_consumers out err race = Inr (r, es_out, es_err) \<and>
        AwaitTask \<in> set es_out \<and> AwaitTask \<in> set es_err \<and>
        (\<forall>a b. r = Inr (a, b) \<longleftrightarrow> race_out race = Some (Inr (Inr a)) \<and> race_err race = Some (Inr (Inr b))) \<and>
        r = race_spec (c_stream_name out) (c_stream_name err) race))"
  using drain_result [OF assms, of race] by (auto simp: race_spec_success)

definition example_collector :: "string \<Rightarrow> consumer" where
  "example_collector name = \<lparr>c_stream_name = name, c_task = True, c_termination_sender = True\<rparr>"

theorem drain_contract_witness:
  "fresh (example_collector ''stdout'') \<and> fresh (example_collector ''stderr'') \<and>
   (\<exists>es_out es_err. wait_for_output_consumers (example_collector ''stdout'') (example_collector ''stderr'')
      (StdoutFirst (Some (Inr (Inr (1 :: nat)))) (None :: nat join_result option) SibIdle)
      = Inr (Inl DrainTimeout, es_out, es_err) \<and> AwaitTask \<in> set es_err)"
proof -
  have f: "fresh (example_collector n)" for n by (simp add: fresh_def example_collector_def)
  show ?thesis
    using drain_contract [OF f f, of "StdoutFirst (Some (Inr (Inr (1 :: nat)))) (None :: nat join_result option) SibIdle"
        "''stdout''" "''stderr''"] f by (auto simp: race_spec_def)
qed

text \<open>The panic of the drain, on a concrete race.\<close>

theorem drain_can_panic:
  "wait_for_output_consumers (example_collector ''stdout'') (example_collector ''stderr'')
     (StdoutFirst (None :: nat join_result option) (None :: nat join_result option) (SibJoined (Inl TaskPanicked)))
   = Inl (ExplicitPanic ''JoinHandle polled after completion'')"
  by (simp add: wait_for_output_consumers_def drain_defs example_collector_def join_again_def)

section \<open>The contract of waiting with termination\<close>

text \<open>C19: Waiting with termination.  The call returns without a panic.  A child that exits in time is
  \<open>Completed\<close> and no signal is sent; after a timeout the outcome is the terminated status with that
  timeout, and after a wait error it is always an error that carries the wait error, also when the
  cleanup termination succeeded.  The drop guard is disarmed exactly when the process's end was
  observed: on every \<open>Ok\<close> and on \<open>WaitFailed\<close> with a status; on the other errors it is as it was.\<close>

theorem wait_or_terminate_contract:
  assumes "shutdown_ok sd" "wait_with_timeout E t h = (w, h1)"
  shows "\<exists>r h'. wait_for_completion_or_terminate_inner E h t sd = Inr (r, h') \<and> handle_frame h h' \<and>
    (case w of
       Some (Inr st) \<Rightarrow> r = Inr (CompletedInTime st) \<and> h' = h1 \<and> handle_sent h' = handle_sent h \<and> is_drop_disarmed h'
     | None \<Rightarrow>
         (\<exists>st. r = Inr (TerminatedAfterTimeout st t) \<and> is_drop_disarmed h' \<and> exit_observed E st h') \<or>
         (\<exists>e. r = Inl (TerminationAfterTimeoutFailed (ph_name h) t e) \<and> drop_mode h' = drop_mode h)
     | Some (Inl err) \<Rightarrow>
         (\<exists>st. r = Inl (WaitFailedTerminated (ph_name h) (WaitIoError (ph_name h) err) st) \<and> is_drop_disarmed h' \<and>
            exit_observed E st h') \<or>
         (\<exists>e. r = Inl (WaitFailedTerminationFailed (ph_name h) (WaitIoError (ph_name h) err) e) \<and>
            drop_mode h' = drop_mode h))"
proof -
  note wf = wait_with_timeout_effect [OF assms(2)]
  have name: "ph_name h1 = ph_name h" using wf(1) by (rule handle_frame_name)
  obtain r2 h2 where t: "terminate E h1 sd = Inr (r2, h2)" "handle_frame h1 h2"
    and r2: "case r2 of Inr st \<Rightarrow> is_drop_disarmed h2 \<and> exit_observed E st h2
     | Inl e \<Rightarrow> drop_mode h2 = drop_mode h1 \<and>
         (\<exists>errs. e = TerminationFailed (ph_name h1) errs \<and> length (phase_timeouts sd) < length errs)"
    using terminate_result [OF assms(1), of E h1] by blast
  have frame: "handle_frame h h2" using wf(1) t(2) handle_frame_trans by blast
  consider st where "w = Some (Inr st)" | err where "w = Some (Inl err)" | "w = None"
    by (metis option.exhaust sum.exhaust)
  then show ?thesis
  proof cases
    case 1
    then show ?thesis
      using wf assms(2) by (simp add: wait_for_completion_or_terminate_inner_def wait_for_completion_inner_def)
  next
    case 2
    then show ?thesis
      using wf assms(2) t r2 frame name
      by (cases r2) (auto simp: wait_for_completion_or_terminate_inner_def wait_for_completion_inner_def
          terminate_after_wait_error_def)
  next
    case 3
    then show ?thesis
      using wf assms(2) t r2 frame name
      by (cases r2) (auto simp: wait_for_completion_or_terminate_inner_def wait_for_completion_inner_def
          terminate_after_wait_timeout_def)
  qed
qed

theorem wait_or_terminate_contract_witness:
  "shutdown_ok sim_shutdown \<and> fst (wait_with_timeout sim_ops 4 (sim_handle sim_stubborn)) = None \<and>
   (\<exists>r h'. wait_for_completion_or_terminate_inner sim_ops (sim_handle sim_stubborn) 4 sim_shutdown = Inr (r, h') \<and>
      handle_frame (sim_handle sim_stubborn) h')"
proof -
  have n: "fst (wait_with_timeout sim_ops 4 (sim_handle sim_stubborn)) = None"
    by (simp add: handle_eval sim_eval)
  show ?thesis
    using wait_or_terminate_contract [OF sim_shutdown_ok(1), of sim_ops 4 "sim_handle sim_stubborn" None
        "snd (wait_with_timeout sim_ops 4 (sim_handle sim_stubborn))"] n
    by (metis prod.collapse sim_shutdown_ok(1))
qed

end
