(* ===== verification/Wait_Builder.thy ===== *)
theory Wait_Builder
  imports Output_Collection
begin

text \<open>
  The staged wait of \<open>wait_builder.rs\<close>.  The two state axes are type parameters of the builder, and the six
  \<open>IntoFuture\<close> implementations are six definitions on the builder types that have them.  The streams of
  the handle are given by their names and their answers to \<open>try_subscribe\<close>; the race of the collectors
  is the argument of the drain.
\<close>

section \<open>States\<close>

datatype no_output = NoOutput

record line_output =
  line_eof_timeout :: duration
  line_parsing_options :: line_parsing_options
  line_options :: line_output_options

record raw_output =
  raw_eof_timeout :: duration
  raw_options :: raw_output_options

datatype no_terminate = NoTerminate
datatype with_terminate = WithTerminate (shutdown_of: graceful_shutdown)

record ('h, 'output, 'terminate) wait_for_completion_builder =
  wb_handle :: 'h
  wb_timeout :: duration
  wb_output :: 'output
  wb_terminate :: 'terminate

definition wait_for_completion ::
  "('c, 'o, 'e) process_handle \<Rightarrow> duration \<Rightarrow> (('c, 'o, 'e) process_handle, no_output, no_terminate) wait_for_completion_builder" where
  "wait_for_completion h timeout =
     \<lparr>wb_handle = h, wb_timeout = timeout, wb_output = NoOutput, wb_terminate = NoTerminate\<rparr>"

definition with_line_output ::
  "('h, no_output, no_terminate) wait_for_completion_builder \<Rightarrow> duration \<Rightarrow> line_parsing_options \<Rightarrow> line_output_options
   \<Rightarrow> ('h, line_output, no_terminate) wait_for_completion_builder" where
  "with_line_output b eof_timeout parsing options =
     \<lparr>wb_handle = wb_handle b, wb_timeout = wb_timeout b,
      wb_output = \<lparr>line_eof_timeout = eof_timeout, line_parsing_options = parsing, line_options = options\<rparr>,
      wb_terminate = NoTerminate\<rparr>"

definition with_raw_output ::
  "('h, no_output, no_terminate) wait_for_completion_builder \<Rightarrow> duration \<Rightarrow> raw_output_options
   \<Rightarrow> ('h, raw_output, no_terminate) wait_for_completion_builder" where
  "with_raw_output b eof_timeout options =
     \<lparr>wb_handle = wb_handle b, wb_timeout = wb_timeout b,
      wb_output = \<lparr>raw_eof_timeout = eof_timeout, raw_options = options\<rparr>, wb_terminate = NoTerminate\<rparr>"

definition or_terminate ::
  "('h, 'output, no_terminate) wait_for_completion_builder \<Rightarrow> graceful_shutdown
   \<Rightarrow> ('h, 'output, with_terminate) wait_for_completion_builder" where
  "or_terminate b shutdown =
     \<lparr>wb_handle = wb_handle b, wb_timeout = wb_timeout b, wb_output = wb_output b,
      wb_terminate = WithTerminate shutdown\<rparr>"

section \<open>Awaiting the builder\<close>

definition await_plain ::
  "'c child_ops \<Rightarrow> (('c, 'o, 'e) process_handle, no_output, no_terminate) wait_for_completion_builder
   \<Rightarrow> (wait_error + exit_status wait_for_completion_result) \<times> ('c, 'o, 'e) process_handle" where
  "await_plain E b = wait_for_completion_inner E (wb_handle b) (wb_timeout b)"

definition await_or_terminate ::
  "'c child_ops \<Rightarrow> (('c, 'o, 'e) process_handle, no_output, with_terminate) wait_for_completion_builder
   \<Rightarrow> ((wait_or_terminate_error + exit_status wait_for_completion_or_terminate_result)
        \<times> ('c, 'o, 'e) process_handle) outcome" where
  "await_or_terminate E b =
     wait_for_completion_or_terminate_inner E (wb_handle b) (wb_timeout b) (shutdown_of (wb_terminate b))"

text \<open>The streams of a handle: their names and what subscribing to them gives.\<close>

record ('start, 'so, 'se) handle_streams =
  out_name :: string
  err_name :: string
  out_subscribe :: "'start + 'so"
  err_subscribe :: "'start + 'se"

text \<open>How the two collector tasks run while the drain waits: what their subscriptions deliver before the
  deadline, whose wait resolves first, and what a poll of the other finds once the deadline has passed.
  A task that panicked is joined with that error.\<close>

datatype sibling_progress = EndedAfter "poll list" | AbortDone | AbortRequested | NotDue

record collector_schedule =
  out_polls :: "poll list"
  err_polls :: "poll list"
  stdout_resolves_first :: bool
  sibling_progress :: sibling_progress

definition task_join :: "('v, 'out) driver_task \<Rightarrow> poll list \<Rightarrow> 'out join_result option" where
  "task_join task polls =
     (case task polls of Inl _ \<Rightarrow> Some (Inl TaskPanicked) | Inr ds \<Rightarrow> driver_join ds)"

definition sibling_poll_of :: "('v, 'out) driver_task \<Rightarrow> sibling_progress \<Rightarrow> 'out sibling_poll" where
  "sibling_poll_of task progress =
     (case progress of
        EndedAfter polls \<Rightarrow> (case task_join task polls of Some j \<Rightarrow> SibJoined j | None \<Rightarrow> SibIdle)
      | AbortDone \<Rightarrow> SibAborted
      | AbortRequested \<Rightarrow> SibAborting
      | NotDue \<Rightarrow> SibIdle)"

definition drain_race ::
  "collector_schedule \<Rightarrow> ('v, 'so) driver_task \<Rightarrow> ('w, 'se) driver_task \<Rightarrow> ('so, 'se) drain_run" where
  "drain_race sch out_task err_task =
     (let raced_out = task_join out_task (out_polls sch); raced_err = task_join err_task (err_polls sch)
      in if stdout_resolves_first sch
         then StdoutFirst raced_out raced_err (sibling_poll_of err_task (sibling_progress sch))
         else StderrFirst raced_err raced_out (sibling_poll_of out_task (sibling_progress sch)))"

lemma drain_race_results [simp]:
  "race_out (drain_race sch t1 t2) = task_join t1 (out_polls sch)"
  "race_err (drain_race sch t1 t2) = task_join t2 (err_polls sch)"
  by (simp_all add: drain_race_def Let_def)

text \<open>The common start of the collecting variants: spawn the collectors or return the refusal.\<close>

definition start_collectors ::
  "('c, 'o, 'e) process_handle \<Rightarrow> ('start, 'so, 'se) handle_streams
   \<Rightarrow> (string \<Rightarrow> 'so \<Rightarrow> (consumer \<times> 't1) outcome) \<Rightarrow> (string \<Rightarrow> 'se \<Rightarrow> (consumer \<times> 't2) outcome)
   \<Rightarrow> (consumer \<times> 't1 \<Rightarrow> consumer \<times> 't2 \<Rightarrow>
        (('start wait_with_output_error + 'r) \<times> ('c, 'o, 'e) process_handle \<times> effect list \<times> effect list) outcome)
   \<Rightarrow> (('start wait_with_output_error + 'r) \<times> ('c, 'o, 'e) process_handle \<times> effect list \<times> effect list) outcome" where
  "start_collectors h S spawn_out spawn_err continue =
     (case try_spawn_output_collectors h (out_name S) (out_subscribe S) (err_name S) (err_subscribe S) spawn_out spawn_err of
        Inl p \<Rightarrow> Inl p
      | Inr (Inl e, es_out) \<Rightarrow> Inr (Inl e, h, es_out, [])
      | Inr (Inr (out_collector, err_collector), _) \<Rightarrow> continue out_collector err_collector)"

definition await_line_output ::
  "'c child_ops \<Rightarrow> byte_deps \<Rightarrow> ('start, 'so, 'se) handle_streams \<Rightarrow> collector_schedule
   \<Rightarrow> (('c, 'o, 'e) process_handle, line_output, no_terminate) wait_for_completion_builder
   \<Rightarrow> (('start wait_with_output_error + (collected_lines, collected_lines) process_output wait_for_completion_result)
        \<times> ('c, 'o, 'e) process_handle \<times> effect list \<times> effect list) outcome" where
  "await_line_output E d S sch b =
     (let out = wb_output b; options = line_options out; parsing = line_parsing_options out
      in start_collectors (wb_handle b) S
           (\<lambda>name _. spawn_line_collector d name parsing (stdout_line_options options))
           (\<lambda>name _. spawn_line_collector d name parsing (stderr_line_options options))
           (\<lambda>(oc, out_task) (ec, err_task). wait_for_completion_with_collectors E (wb_handle b) (wb_timeout b) (line_eof_timeout out) oc ec
             (drain_race sch out_task err_task)))"

definition await_raw_output ::
  "'c child_ops \<Rightarrow> ('start, 'so, 'se) handle_streams \<Rightarrow> collector_schedule
   \<Rightarrow> (('c, 'o, 'e) process_handle, raw_output, no_terminate) wait_for_completion_builder
   \<Rightarrow> (('start wait_with_output_error + (collected_bytes, collected_bytes) process_output wait_for_completion_result)
        \<times> ('c, 'o, 'e) process_handle \<times> effect list \<times> effect list) outcome" where
  "await_raw_output E S sch b =
     (let out = wb_output b; options = raw_options out
      in start_collectors (wb_handle b) S
           (\<lambda>name _. spawn_chunk_collector name (stdout_raw_options options))
           (\<lambda>name _. spawn_chunk_collector name (stderr_raw_options options))
           (\<lambda>(oc, out_task) (ec, err_task). wait_for_completion_with_collectors E (wb_handle b) (wb_timeout b) (raw_eof_timeout out) oc ec
             (drain_race sch out_task err_task)))"

definition await_line_output_or_terminate ::
  "'c child_ops \<Rightarrow> byte_deps \<Rightarrow> ('start, 'so, 'se) handle_streams \<Rightarrow> collector_schedule
   \<Rightarrow> (('c, 'o, 'e) process_handle, line_output, with_terminate) wait_for_completion_builder
   \<Rightarrow> (('start wait_with_output_error + (collected_lines, collected_lines) process_output wait_for_completion_or_terminate_result)
        \<times> ('c, 'o, 'e) process_handle \<times> effect list \<times> effect list) outcome" where
  "await_line_output_or_terminate E d S sch b =
     (let out = wb_output b; options = line_options out; parsing = line_parsing_options out
      in start_collectors (wb_handle b) S
           (\<lambda>name _. spawn_line_collector d name parsing (stdout_line_options options))
           (\<lambda>name _. spawn_line_collector d name parsing (stderr_line_options options))
           (\<lambda>(oc, out_task) (ec, err_task). wait_for_completion_or_terminate_with_collectors E (wb_handle b) (wb_timeout b)
                      (shutdown_of (wb_terminate b)) (line_eof_timeout out) oc ec
             (drain_race sch out_task err_task)))"

definition await_raw_output_or_terminate ::
  "'c child_ops \<Rightarrow> ('start, 'so, 'se) handle_streams \<Rightarrow> collector_schedule
   \<Rightarrow> (('c, 'o, 'e) process_handle, raw_output, with_terminate) wait_for_completion_builder
   \<Rightarrow> (('start wait_with_output_error + (collected_bytes, collected_bytes) process_output wait_for_completion_or_terminate_result)
        \<times> ('c, 'o, 'e) process_handle \<times> effect list \<times> effect list) outcome" where
  "await_raw_output_or_terminate E S sch b =
     (let out = wb_output b; options = raw_options out
      in start_collectors (wb_handle b) S
           (\<lambda>name _. spawn_chunk_collector name (stdout_raw_options options))
           (\<lambda>name _. spawn_chunk_collector name (stderr_raw_options options))
           (\<lambda>(oc, out_task) (ec, err_task). wait_for_completion_or_terminate_with_collectors E (wb_handle b) (wb_timeout b)
                      (shutdown_of (wb_terminate b)) (raw_eof_timeout out) oc ec
             (drain_race sch out_task err_task)))"

section \<open>Waiting for the output\<close>

text \<open>What a stream delivers to a collector: its chunks and the end of the stream.\<close>

definition whole_stream :: "bytes list \<Rightarrow> poll list" where
  "whole_stream chunks = map (Event \<circ> Some \<circ> Chunk) chunks @ [Event (Some Eof)]"

text \<open>A line collector is spawned, and its task run over a whole stream delivers the kept lines.\<close>

lemma line_collector_task:
  assumes "byte_deps_ok d" "0 < limit parsing"
  shows "\<exists>task c. spawn_line_collector d name parsing copts
        = Inr (\<lparr>c_stream_name = name, c_task = True, c_termination_sender = True\<rparr>, task) \<and>
     task (whole_stream chunks) = Inr (Finished c) \<and>
     cl_lines c = keep_lines copts (map decode_line_lossy (spec_lines parsing (concat chunks)))"
proof -
  have f: "(\<lambda>line sink. case push_line sink line copts of Inl p \<Rightarrow> Inl p | Inr sink \<Rightarrow> Inr (Continue, sink))
      = line_collector copts"
    by (simp add: fun_eq_iff line_collector_def)
  obtain v c where "parse_lines_new parsing collected_lines_new = Inr v"
    "consume_sync (parse_lines_visitor d (collect_lines_visitor (line_collector copts))) v (whole_stream chunks)
      = Inr (Finished c)"
    "cl_lines c = keep_lines copts (map decode_line_lossy (spec_lines parsing (concat chunks)))"
    using collect_lines_run [OF assms, of copts chunks "[]"] unfolding whole_stream_def by blast
  then show ?thesis
    unfolding spawn_line_collector_def f by (simp add: spawn_consumer_sync_def)
qed

text \<open>C3: Waiting with line output, end to end.  If both streams accept a subscription, the child exits within
  the timeout with status \<open>st\<close>, and each collector task sees its whole stream and ends before the deadline,
  then awaiting the builder returns \<open>Completed\<close> with that status and, for each stream, exactly the lines
  the collection options keep of the stream's decoded lines.  The drop guard is disarmed, stdin is
  closed, no signal was sent and both collector tasks were awaited.\<close>

theorem wait_with_line_output_result:
  assumes "byte_deps_ok d" "0 < limit parsing" "wait_with_timeout E t h = (Some (Inr st), h')"
    and "out_subscribe S = Inr so" "err_subscribe S = Inr se"
    and "out_polls sch = whole_stream chunks1" "err_polls sch = whole_stream chunks2"
  shows "\<exists>out err es_out es_err.
     await_line_output E d S sch (with_line_output (wait_for_completion h t) eof parsing options)
       = Inr (Inr (Completed \<lparr>po_status = st, po_stdout = out, po_stderr = err\<rparr>), h', es_out, es_err) \<and>
     cl_lines out = keep_lines (stdout_line_options options) (map decode_line_lossy (spec_lines parsing (concat chunks1))) \<and>
     cl_lines err = keep_lines (stderr_line_options options) (map decode_line_lossy (spec_lines parsing (concat chunks2))) \<and>
     is_drop_disarmed h' \<and> std_in h' = StdinClosed \<and> handle_sent h' = handle_sent h \<and>
     AwaitTask \<in> set es_out \<and> AwaitTask \<in> set es_err"
proof -
  let ?c = "\<lambda>name. \<lparr>c_stream_name = name, c_task = True, c_termination_sender = True\<rparr>"
  obtain task1 out where out: "spawn_line_collector d (out_name S) parsing (stdout_line_options options) = Inr (?c (out_name S), task1)"
    "task1 (whole_stream chunks1) = Inr (Finished out)"
    "cl_lines out = keep_lines (stdout_line_options options) (map decode_line_lossy (spec_lines parsing (concat chunks1)))"
    using line_collector_task [OF assms(1,2)] by blast
  obtain task2 err where err: "spawn_line_collector d (err_name S) parsing (stderr_line_options options) = Inr (?c (err_name S), task2)"
    "task2 (whole_stream chunks2) = Inr (Finished err)"
    "cl_lines err = keep_lines (stderr_line_options options) (map decode_line_lossy (spec_lines parsing (concat chunks2)))"
    using line_collector_task [OF assms(1,2)] by blast
  let ?race = "drain_race sch task1 task2"
  have fresh: "fresh (?c (out_name S))" "fresh (?c (err_name S))" by (simp_all add: fresh_def)
  have races: "race_out ?race = Some (Inr (Inr out))" "race_err ?race = Some (Inr (Inr err))"
    using assms(6,7) out(2) err(2) by (simp_all add: task_join_def)
  then have "\<not> race_panics ?race" by (cases ?race) simp_all
  then obtain es_out es_err where
    drain: "wait_for_output_consumers (?c (out_name S)) (?c (err_name S)) ?race = Inr (Inr (out, err), es_out, es_err)"
      "AwaitTask \<in> set es_out" "AwaitTask \<in> set es_err"
    using drain_result(2) [OF fresh, of ?race] race_spec_success [of "out_name S" "err_name S" ?race out err] races
    by auto
  have "await_line_output E d S sch (with_line_output (wait_for_completion h t) eof parsing options)
       = Inr (Inr (Completed \<lparr>po_status = st, po_stdout = out, po_stderr = err\<rparr>), h', es_out, es_err)"
    using assms(3-5) out(1) err(1) drain(1)
    by (simp add: await_line_output_def with_line_output_def wait_for_completion_def start_collectors_def
        try_spawn_output_collectors_def wait_for_completion_with_collectors_def wait_for_completion_inner_def)
  then show ?thesis
    using out(3) err(3) drain(2,3) wait_with_timeout_effect(2-4) [OF assms(3)] by auto
qed

text \<open>A child that exits after 3 ns, and its streams.\<close>

definition sim_quick :: sim_child where
  "sim_quick = sim_stubborn\<lparr>sim_exits_in := Some 3\<rparr>"

definition sim_streams :: "(unit, unit, unit) handle_streams" where
  "sim_streams = \<lparr>out_name = ''stdout'', err_name = ''stderr'', out_subscribe = Inr (), err_subscribe = Inr ()\<rparr>"

definition sim_schedule :: collector_schedule where
  "sim_schedule = \<lparr>out_polls = whole_stream [''a'', [newline, CHR ''b'', newline], ''c''], err_polls = whole_stream [],
     stdout_resolves_first = True, sibling_progress = NotDue\<rparr>"

theorem wait_with_line_output_result_witness:
  "\<exists>out err h' es_out es_err.
     await_line_output sim_ops example_deps sim_streams sim_schedule
       (with_line_output (wait_for_completion (sim_handle sim_quick) 4) 1 line_parsing_options_default
          (line_symmetric (LineBounded (NumBytes 3) 2 CollectDropOldest)))
       = Inr (Inr (Completed \<lparr>po_status = sim_status, po_stdout = out, po_stderr = err\<rparr>), h', es_out, es_err) \<and>
     cl_lines out = [''b'', ''c''] \<and> cl_lines err = [] \<and> is_drop_disarmed h'"
proof -
  let ?opts = "LineBounded (NumBytes 3) 2 CollectDropOldest"
  let ?chunks = "[''a'', [newline, CHR ''b'', newline], ''c'']"
  have pos: "0 < limit line_parsing_options_default" by code_simp
  have lines: "map decode_line_lossy (spec_lines line_parsing_options_default (concat ?chunks)) = [''a'', ''b'', ''c'']"
    "map decode_line_lossy (spec_lines line_parsing_options_default (concat [])) = []" by code_simp+
  have keep: "keep_lines ?opts [''a'', ''b'', ''c''] = [''b'', ''c'']" "keep_lines ?opts [] = []" by code_simp+
  obtain h' where w: "wait_with_timeout sim_ops 4 (sim_handle sim_quick) = (Some (Inr sim_status), h')"
    by (simp add: handle_eval sim_eval sim_quick_def)
  have S: "out_subscribe sim_streams = Inr ()" "err_subscribe sim_streams = Inr ()"
    "out_polls sim_schedule = whole_stream ?chunks" "err_polls sim_schedule = whole_stream []"
    by (simp_all add: sim_streams_def sim_schedule_def)
  show ?thesis
    using wait_with_line_output_result [OF example_deps_ok pos w S, of 1 "line_symmetric ?opts"] lines keep
    by (simp add: line_symmetric_def) blast
qed

end
