(* ===== verification/Termination_Interrupt.thy ===== *)
theory Termination_Interrupt
  imports Termination_Contract
begin

text \<open>
  A termination whose runtime is shut down meanwhile.  \<open>terminate\<close> awaits in one place only, the timed waits
  of \<open>wait_for_exit_after_signal\<close>; when the runtime has been shut down, the timer of such a wait panics.
  The definitions below give the handle the future leaves behind then: it has sent the signals up to
  that wait, has polled the wait of the child (which closes stdin), and has observed no exit.
  \<open>T\<close> is the time of the shutdown on the clock of the group's leader.
\<close>

section \<open>The awaits of terminate\<close>

text \<open>The wait of the child, bounded by a timeout, when the timers fail from \<open>T\<close> on: \<open>None\<close> if it ends before.
  \<open>timeout\<close> polls the wait before its timer, so an exit at \<open>T\<close> is still seen, but no deadline.\<close>

definition resolves_within :: "'c child_ops \<Rightarrow> duration \<Rightarrow> ('c, 'o, 'e) process_handle \<Rightarrow> bool" where
  "resolves_within E d h = (case handle_wait E h of Some (d', _) \<Rightarrow> d' \<le> d | None \<Rightarrow> False)"

definition wait_interrupted ::
  "'c child_ops \<Rightarrow> duration \<Rightarrow> duration \<Rightarrow> ('c, 'o, 'e) process_handle \<Rightarrow> ('c, 'o, 'e) process_handle option" where
  "wait_interrupted E T timeout h =
     (let left = T - handle_clock h
      in if timeout < left \<or> resolves_within E (min timeout left) h then None
         else Some (handle_wait_pending E left h))"

text \<open>The wait after a signal: its handle and its timeout.\<close>

definition wait_after ::
  "(io_error + unit) \<times> ('c, 'o, 'e) process_handle \<Rightarrow> duration \<Rightarrow> ('c, 'o, 'e) process_handle \<times> duration" where
  "wait_after signalled timeout =
     (case signalled of (Inr _, h) \<Rightarrow> (h, timeout) | (Inl _, h) \<Rightarrow> (h, REAP_AFTER_SIGNAL_FAILURE_GRACE))"

fun phases_interrupted ::
  "'c child_ops \<Rightarrow> duration \<Rightarrow> ('c, 'o, 'e) sender \<Rightarrow> nat \<Rightarrow> termination_step list
   \<Rightarrow> ('c, 'o, 'e) process_handle \<Rightarrow> ('c, 'o, 'e) process_handle option" where
  "phases_interrupted E T send_signal index [] h =
     (case wait_after (send_kill_signal E h) FORCE_KILL_WAIT_TIMEOUT of (h, t) \<Rightarrow> wait_interrupted E T t h)"
| "phases_interrupted E T send_signal index (step # steps) h =
     (case wait_after (send_signal index h) (step_timeout step) of
        (h, t) \<Rightarrow>
          (case wait_interrupted E T t h of
             Some h \<Rightarrow> Some h
           | None \<Rightarrow>
               (case wait_for_exit_after_signal E h t of
                  (Inr (Some _), _) \<Rightarrow> None
                | (_, h) \<Rightarrow> phases_interrupted E T send_signal (index + 1) steps h)))"

definition loop_interrupted ::
  "'c child_ops \<Rightarrow> duration \<Rightarrow> termination_step list \<Rightarrow> ('c, 'o, 'e) reaper \<Rightarrow> ('c, 'o, 'e) sender
   \<Rightarrow> ('c, 'o, 'e) process_handle \<Rightarrow> ('c, 'o, 'e) process_handle option" where
  "loop_interrupted E T steps try_reap send_signal h =
     (case try_reap h of
        (Inr (Some _), _) \<Rightarrow> None
      | (_, h) \<Rightarrow> phases_interrupted E T send_signal 0 steps h)"

definition terminate_interrupted ::
  "'c child_ops \<Rightarrow> duration \<Rightarrow> ('c, 'o, 'e) process_handle \<Rightarrow> graceful_shutdown \<Rightarrow> ('c, 'o, 'e) process_handle option" where
  "terminate_interrupted E T h shutdown =
     loop_interrupted E T (shutdown_steps shutdown) (try_reap_exit_status E)
       (case shutdown of ShutdownOnUnix u \<Rightarrow> unix_sender E u | ShutdownOnWindows _ \<Rightarrow> \<lambda>_. on_group (send_ctrl_break E)) h"

section \<open>One wait\<close>

lemma wait_interrupted_effect:
  assumes "wait_interrupted E T t h = Some k"
  shows "handle_frame h k" "drop_mode k = drop_mode h" "handle_sent k = handle_sent h" "keeps_id E \<Longrightarrow> handle_id E k = handle_id E h"
  using assms keeps_idD(3)
  by (auto simp: wait_interrupted_def handle_wait_pending_def group_wait_pending_def close_stdin_def handle_frame_def
      handle_id_def group_id_def Let_def split: if_splits)

text \<open>It is interrupted exactly if it would go on beyond \<open>T\<close>, up to a deadline that is \<open>T\<close> itself.\<close>

lemma wait_interrupted_clock:
  assumes "wait_for_exit_after_signal E h t = (w, h')"
  shows "wait_interrupted E T t h \<noteq> None \<Longrightarrow> T \<le> handle_clock h'"
    and "wait_interrupted E T t h = None \<Longrightarrow> handle_clock h' \<le> max T (handle_clock h)"
    and "handle_clock h \<le> handle_clock h'"
  using assms
  by (auto simp: wait_interrupted_def resolves_within_def wait_for_exit_after_signal_def wait_for_completion_inner_def
      wait_with_timeout_def handle_wait_def handle_wait_pending_def group_wait_def group_wait_pending_def close_stdin_def Let_def
      split: option.splits prod.splits sum.splits if_splits)

section \<open>The loop\<close>

text \<open>The waits are those of the code.\<close>

lemma phase_waits:
  assumes "attempt_graceful_phase E name timeout ds send h = (out, ds', h')" and "wait_after (send h) timeout = (k, t)"
  shows "\<exists>w. wait_for_exit_after_signal E k t = (w, h') \<and> out = (case w of Inr (Some st) \<Rightarrow> Some st | _ \<Rightarrow> None)"
  using assms
  by (auto simp: attempt_graceful_phase_def wait_after_def Let_def split: prod.splits sum.splits option.splits)

lemma kill_waits:
  assumes "attempt_forceful_kill E ds h = Inr (r, h')" and "wait_after (send_kill_signal E h) FORCE_KILL_WAIT_TIMEOUT = (k, t)"
  shows "\<exists>w. wait_for_exit_after_signal E k t = (w, h')"
  using assms
  by (auto simp: attempt_forceful_kill_def wait_after_def Let_def split: prod.splits sum.splits option.splits)

lemma wait_after_handle: "wait_after s timeout = (k, t) \<Longrightarrow> k = snd s"
  by (auto simp: wait_after_def split: prod.splits sum.splits)

text \<open>How far a step of the recursion gets.\<close>

lemma phases_interrupted_step:
  assumes "attempt_graceful_phase E (signal_label step) (step_timeout step) ds (send i) h = (out, ds', h')"
    and "wait_after (send i h) (step_timeout step) = (k, t)"
  shows "phases_interrupted E T send i (step # steps) h =
    (case wait_interrupted E T t k of Some k' \<Rightarrow> Some k'
     | None \<Rightarrow> if out = None then phases_interrupted E T send (Suc i) steps h' else None)"
proof -
  obtain w where "wait_for_exit_after_signal E k t = (w, h')" "out = (case w of Inr (Some st) \<Rightarrow> Some st | _ \<Rightarrow> None)"
    using phase_waits [OF assms] by blast
  then show ?thesis using assms(2) by (cases w) (auto split: option.splits)
qed

context signal_hooks
begin

lemma phases_interrupted_frame:
  assumes "phases_interrupted E T send i steps h = Some k"
  shows "handle_frame h k \<and> drop_mode k = drop_mode h"
  using assms
proof (induction steps arbitrary: i h)
  case Nil
  obtain r hk where s: "send_kill_signal E h = (r, hk)" by fastforce
  obtain k0 t where w: "wait_after (r, hk) FORCE_KILL_WAIT_TIMEOUT = (k0, t)" by fastforce
  then have "k0 = hk" "wait_interrupted E T t hk = Some k" using wait_after_handle [OF w] Nil s by simp_all
  then show ?case using wait_interrupted_effect(1,2) [of E T t hk k] send_kill_signal_effect(1,2) [OF s] handle_frame_trans by auto
next
  case (Cons step steps)
  obtain out ds' h1 where p: "attempt_graceful_phase E (signal_label step) (step_timeout step) [] (send i) h = (out, ds', h1)"
    by (metis prod_cases3)
  obtain r hs where s: "send i h = (r, hs)" by fastforce
  obtain k0 t where w: "wait_after (send i h) (step_timeout step) = (k0, t)" by fastforce
  have k0: "k0 = hs" using wait_after_handle [OF w] s by simp
  consider "wait_interrupted E T t hs = Some k" | "out = None" "phases_interrupted E T send (Suc i) steps h1 = Some k"
    using phases_interrupted_step [where send = send and i = i and T = T and steps = steps, OF p w] Cons.prems k0 by (auto split: option.splits if_splits)
  then show ?case
  proof cases
    case 1
    then show ?thesis using wait_interrupted_effect(1,2) [OF 1] send_frame [OF s] handle_frame_trans by auto
  next
    case 2
    then show ?thesis using Cons.IH [OF 2(2)] phase_effect(1) [OF p] handle_frame_trans by auto
  qed
qed

text \<open>The phases and the kill are interrupted exactly if they would go on beyond \<open>T\<close>.\<close>

lemma phases_interrupted_clock:
  assumes "graceful_phases E send i steps ds h = (out, ds2, h2)"
    and "if out = None then \<exists>r. attempt_forceful_kill E ds2 h2 = Inr (r, h3) else h3 = h2"
  shows "(phases_interrupted E T send i steps h \<noteq> None \<longrightarrow> T \<le> handle_clock h3) \<and>
    (phases_interrupted E T send i steps h = None \<longrightarrow> handle_clock h3 \<le> max T (handle_clock h)) \<and>
    handle_clock h \<le> handle_clock h3"
  using assms
proof (induction steps arbitrary: i ds h)
  case Nil
  then obtain r where a: "attempt_forceful_kill E ds h = Inr (r, h3)" by auto
  obtain q hk where s: "send_kill_signal E h = (q, hk)" by fastforce
  obtain k t where w: "wait_after (send_kill_signal E h) FORCE_KILL_WAIT_TIMEOUT = (k, t)" by fastforce
  have "k = hk" using wait_after_handle [OF w] s by simp
  moreover obtain v where "wait_for_exit_after_signal E k t = (v, h3)" using kill_waits [OF a w] by blast
  ultimately show ?case
    using wait_interrupted_clock(1,2) [of E k t v h3 T] wait_interrupted_clock(3) [of E k t v h3] send_kill_signal_effect(4) [OF s] w by auto
next
  case (Cons step steps)
  obtain out1 ds1 h1 where p: "attempt_graceful_phase E (signal_label step) (step_timeout step) ds (send i) h = (out1, ds1, h1)"
    by (metis prod_cases3)
  obtain r hs where s: "send i h = (r, hs)" by fastforce
  obtain k t where w: "wait_after (send i h) (step_timeout step) = (k, t)" by fastforce
  have k: "k = hs" using wait_after_handle [OF w] s by simp
  obtain v where "wait_for_exit_after_signal E k t = (v, h1)" using phase_waits [OF p w] by blast
  note c = wait_interrupted_clock(1,2) [OF this, of T] wait_interrupted_clock(3) [OF this] and step = phases_interrupted_step [where send = send and i = i and T = T and steps = steps, OF p w]
  have hs: "handle_clock hs = handle_clock h" using send_frame [OF s] by simp
  show ?case
  proof (cases out1)
    case None
    then have "graceful_phases E send (Suc i) steps ds1 h1 = (out, ds2, h2)" using Cons.prems(1) p by simp
    from Cons.IH [OF this Cons.prems(2)] c step None hs k show ?thesis by (auto split: option.splits)
  next
    case (Some st)
    then have "h3 = h1" using Cons.prems p by (auto split: if_splits)
    then show ?thesis using c step Some hs k by (auto split: option.splits)
  qed
qed

text \<open>The same of the whole loop.\<close>

lemma loop_interrupted_effect:
  assumes "steps \<noteq> []" and "run_termination_loop E steps try_reap send h = Inr (r, h')"
  shows "loop_interrupted E T steps try_reap send h = Some k \<Longrightarrow> T \<le> handle_clock h' \<and> handle_frame h k \<and> drop_mode k = drop_mode h"
    and "loop_interrupted E T steps try_reap send h = None \<Longrightarrow> handle_clock h' \<le> max T (handle_clock h)"
proof -
  obtain c h1 where c: "try_reap h = (c, h1)" by fastforce
  note rf = reap_frame [OF c]
  have loop: "loop_interrupted E T steps try_reap send h =
    (if \<exists>st. c = Inr (Some st) then None else phases_interrupted E T send 0 steps h1)"
    using c by (auto simp: loop_interrupted_def split: sum.splits option.splits)
  have clock: "handle_clock h' = handle_clock h" if "\<exists>st. c = Inr (Some st)"
    using assms that c rf by (auto simp: run_termination_loop_def disarm_after_successful_termination_def)
  have phases: "(phases_interrupted E T send 0 steps h1 \<noteq> None \<longrightarrow> T \<le> handle_clock h') \<and>
    (phases_interrupted E T send 0 steps h1 = None \<longrightarrow> handle_clock h' \<le> max T (handle_clock h1))" if "\<nexists>st. c = Inr (Some st)"
    using assms(1)
  proof (cases rule: run_loop_cases [of _ h])
    case (exited st h1')
    then show ?thesis using c that by auto
  next
    case (phase c' h1' ds st ds2 h2)
    then show ?thesis using phases_interrupted_clock [OF phase(3), of h2 T] c assms(2) by auto
  next
    case (killed c' h1' ds ds2 h2 r' h3)
    then show ?thesis using phases_interrupted_clock [OF killed(3), of h3 T] c assms(2) by (auto split: sum.splits)
  qed
  show "loop_interrupted E T steps try_reap send h = Some k \<Longrightarrow> T \<le> handle_clock h' \<and> handle_frame h k \<and> drop_mode k = drop_mode h"
    using loop phases phases_interrupted_frame [of T 0 steps h1 k] rf handle_frame_trans by (auto split: if_splits)
  show "loop_interrupted E T steps try_reap send h = None \<Longrightarrow> handle_clock h' \<le> max T (handle_clock h)"
    using loop phases clock rf by (auto split: if_splits)
qed

end

context addressed_hooks
begin

text \<open>The signals of an interrupted loop: the phases' signals one after the other and the kill last, up to
  the wait that fails.\<close>

lemma phases_interrupted_sent:
  assumes "keeps_id E" and "phases_interrupted E T send i steps h = Some k" and "handle_id E h = Some p"
  defines "kc \<equiv> kill_call (target (ph_group h)) (job (ph_group h)) p"
  shows "(\<exists>n. 0 < n \<and> n \<le> length steps \<and> handle_sent k = handle_sent h @ map (\<lambda>j. sig j p) [i ..< i + n] \<and> handle_id E k = Some p) \<or>
    handle_sent k = handle_sent h @ map (\<lambda>j. sig j p) [i ..< i + length steps] @ [kc]"
  using assms(2,3) unfolding kc_def
proof (induction steps arbitrary: i h)
  case Nil
  obtain r hk where s: "send_kill_signal E h = (r, hk)" by fastforce
  obtain k0 t where w: "wait_after (r, hk) FORCE_KILL_WAIT_TIMEOUT = (k0, t)" by fastforce
  then have "k0 = hk" "wait_interrupted E T t hk = Some k" using wait_after_handle [OF w] Nil s by simp_all
  then show ?case using wait_interrupted_effect(3) [of E T t hk k] send_kill_signal_effect(5) [OF s Nil(2)] by simp
next
  case (Cons step steps)
  obtain out ds' h1 where p: "attempt_graceful_phase E (signal_label step) (step_timeout step) [] (send i) h = (out, ds', h1)"
    by (metis prod_cases3)
  obtain r hs where s: "send i h = (r, hs)" by fastforce
  obtain k0 t where w: "wait_after (send i h) (step_timeout step) = (k0, t)" by fastforce
  have k0: "k0 = hs" using wait_after_handle [OF w] s by simp
  note sent1 = phase_sent [OF assms(1) p Cons.prems(2)] and sent0 = send_sent [OF assms(1) s Cons.prems(2)]
  show ?case
  proof (cases "wait_interrupted E T t hs")
    case None
    then have rest: "phases_interrupted E T send (Suc i) steps h1 = Some k" and out: "out = None"
      using phases_interrupted_step [where send = send and i = i and T = T and steps = steps, OF p w] Cons.prems(1) k0 by (auto split: if_splits)
    have frame: "target (ph_group h1) = target (ph_group h)" "job (ph_group h1) = job (ph_group h)"
      using phase_effect(1) [OF p] by (simp_all add: handle_frame_def)
    have upt: "[i ..< i + Suc n] = i # [Suc i ..< Suc i + n]" for n using upt_rec by simp
    from Cons.IH [OF rest] sent1 out frame consider
      n where "0 < n" "n \<le> length steps" "handle_id E k = Some p"
        "handle_sent k = handle_sent h @ sig i p # map (\<lambda>j. sig j p) [Suc i ..< Suc i + n]"
      | "handle_sent k = handle_sent h @ sig i p # map (\<lambda>j. sig j p) [Suc i ..< Suc i + length steps] @
          [kill_call (target (ph_group h)) (job (ph_group h)) p]" by auto
    then show ?thesis
    proof cases
      case 1
      then show ?thesis by (intro disjI1 exI [of _ "Suc n"]) (simp only: upt, simp)
    next
      case 2
      then show ?thesis by (intro disjI2) (simp only: upt length_Cons list.map append_Cons)
    qed
  next
    case (Some k')
    then have "k' = k" using phases_interrupted_step [where send = send and i = i and T = T and steps = steps, OF p w] Cons.prems(1) k0 by simp
    then show ?thesis using wait_interrupted_effect(3,4) [OF Some] assms(1) sent0 by (intro disjI1 exI [of _ 1]) simp
  qed
qed

lemma loop_interrupted_sent:
  assumes "keeps_id E" and "loop_interrupted E T steps try_reap send h = Some k" and "handle_id E h = Some p"
  defines "all \<equiv> map (\<lambda>j. sig j p) [0 ..< length steps] @ [kill_call (target (ph_group h)) (job (ph_group h)) p]"
  shows "\<exists>now. now \<noteq> [] \<and> prefix now all \<and> handle_sent k = handle_sent h @ now \<and> (handle_id E k = Some p \<or> now = all)"
proof -
  obtain c h1 where c: "try_reap h = (c, h1)" by fastforce
  have c': "\<forall>st. c \<noteq> Inr (Some st)" and k: "phases_interrupted E T send 0 steps h1 = Some k"
    using c assms(2) by (auto simp: loop_interrupted_def split: sum.splits option.splits)
  have same: "handle_id E h1 = Some p" "handle_sent h1 = handle_sent h" "target (ph_group h1) = target (ph_group h)"
    "job (ph_group h1) = job (ph_group h)"
    using reap_id [OF assms(1) c c'] reap_frame [OF c] assms(3) by (simp_all add: handle_frame_def)
  from phases_interrupted_sent [OF assms(1) k same(1)] consider
    n where "0 < n" "n \<le> length steps" "handle_sent k = handle_sent h @ map (\<lambda>j. sig j p) [0 ..< n]" "handle_id E k = Some p"
    | "handle_sent k = handle_sent h @ all"
    unfolding all_def using same by auto
  then show ?thesis
  proof cases
    case 1
    then have "[0 ..< length steps] = [0 ..< n] @ [n ..< length steps]"
      using upt_add_eq_append [of 0 n "length steps - n"] by simp
    then show ?thesis using 1 by (intro exI [of _ "map (\<lambda>j. sig j p) [0 ..< n]"]) (simp add: all_def)
  next
    case 2
    then show ?thesis by (intro exI [of _ all]) (simp add: all_def)
  qed
qed

end

section \<open>The contract of an interrupted termination\<close>

lemma terminate_interrupted_conv:
  "terminate_interrupted E T h (ShutdownOnUnix u) =
     loop_interrupted E T (shutdown_steps (ShutdownOnUnix u)) (try_reap_exit_status E) (unix_sender E u) h"
  "terminate_interrupted E T h (ShutdownOnWindows w) =
     loop_interrupted E T (shutdown_steps (ShutdownOnWindows w)) (try_reap_exit_status E) (\<lambda>_. on_group (send_ctrl_break E)) h"
  by (simp_all add: terminate_interrupted_def)

lemma terminate_interrupted_effect:
  assumes "shutdown_ok sd" and "terminate E h sd = Inr (r, h')"
  shows "terminate_interrupted E T h sd = Some k \<Longrightarrow> T \<le> handle_clock h' \<and> handle_frame h k \<and> drop_mode k = drop_mode h"
    and "terminate_interrupted E T h sd = None \<Longrightarrow> handle_clock h' \<le> max T (handle_clock h)"
proof -
  have steps: "shutdown_steps sd \<noteq> []" using assms(1) by simp
  have both: "(\<forall>k. terminate_interrupted E T h sd = Some k \<longrightarrow> T \<le> handle_clock h' \<and> handle_frame h k \<and> drop_mode k = drop_mode h) \<and>
    (terminate_interrupted E T h sd = None \<longrightarrow> handle_clock h' \<le> max T (handle_clock h))"
  proof (cases sd)
    case (ShutdownOnUnix u)
    then show ?thesis
      using unix_hooks.loop_interrupted_effect [OF steps, of E u h r h' T] assms(2)
      by (simp add: terminate_unfold terminate_interrupted_conv)
  next
    case (ShutdownOnWindows w)
    then show ?thesis
      using windows_hooks.loop_interrupted_effect [OF steps, of E h r h' T] assms(2)
      by (simp add: terminate_unfold terminate_interrupted_conv)
  qed
  then show "terminate_interrupted E T h sd = Some k \<Longrightarrow> T \<le> handle_clock h' \<and> handle_frame h k \<and> drop_mode k = drop_mode h"
    and "terminate_interrupted E T h sd = None \<Longrightarrow> handle_clock h' \<le> max T (handle_clock h)" by blast+
qed

lemma terminate_interrupted_sent:
  assumes "keeps_id E" and "terminate_interrupted E T h sd = Some k" and "handle_id E h = Some p"
  defines "kc \<equiv> kill_call (target (ph_group h)) (job (ph_group h)) p"
  shows "\<exists>now. now \<noteq> [] \<and> prefix now (phase_calls sd p @ [kc]) \<and> handle_sent k = handle_sent h @ now \<and>
    (handle_id E k = Some p \<or> now = phase_calls sd p @ [kc])"
proof (cases sd)
  case (ShutdownOnUnix u)
  then show ?thesis
    using unix_hooks.loop_interrupted_sent [OF assms(1) _ assms(3), of T "shutdown_steps sd" u k] assms(2)
    by (simp add: terminate_interrupted_conv phase_calls_conv kc_def)
next
  case (ShutdownOnWindows w)
  then show ?thesis
    using windows_hooks.loop_interrupted_sent [OF assms(1) _ assms(3), of T "shutdown_steps sd" k] assms(2)
    by (simp add: terminate_interrupted_conv phase_calls_conv kc_def)
qed

end
