(* ===== verification/Terminate_On_Drop.thy ===== *)
theory Terminate_On_Drop
  imports Termination_Interrupt
begin

text \<open>
  Termination in a destructor: \<open>terminate_on_drop.rs\<close>, \<open>async_drop.rs\<close> and the methods of \<open>drop_guard.rs\<close>
  that build the wrapper.  What the thread knows of its Tokio runtime is an argument: whether the thread
  unwinds, the runtime entered on it and its flavour, how the no-op probe task polls, and when, if at
  all, the runtime begins to shut down while the thread blocks on the future.
\<close>

section \<open>Running a future from synchronous code\<close>

datatype unsupported_context = Panicking | NoRuntime | CurrentThreadRuntime | RuntimeShuttingDown

definition describe :: "unsupported_context \<Rightarrow> string" where
  "describe c =
     (case c of
        Panicking \<Rightarrow> ''while the thread was unwinding from a panic''
      | NoRuntime \<Rightarrow> ''outside a tokio runtime context''
      | CurrentThreadRuntime \<Rightarrow> ''inside a current-thread tokio runtime''
      | RuntimeShuttingDown \<Rightarrow> ''while its tokio runtime was shutting down'')"

datatype runtime_flavor = CurrentThread | MultiThread

text \<open>Polling the probe's join handle once.  \<open>timers_fail\<close> is the time from which on the runtime's timers panic,
  because a shutdown began after the probe.\<close>

datatype probe_poll = ProbePending | ProbeDone | ProbeCancelled | ProbePanicked

record runtime_handle =
  flavor :: runtime_flavor
  probe :: probe_poll
  timers_fail :: "duration option"

record thread_context =
  thread_panicking :: bool
  current_runtime :: "runtime_handle option"

definition is_shutting_down :: "runtime_handle \<Rightarrow> bool" where
  "is_shutting_down rt = (case probe rt of ProbeCancelled \<Rightarrow> True | _ \<Rightarrow> False)"

text \<open>The panic of a timer whose runtime has been shut down.\<close>

definition being_shutdown :: panic where
  "being_shutdown = ExplicitPanic ''A Tokio 1.x context was found, but it is being shutdown.''"

text \<open>The future borrows a state and, driven by \<open>block_on\<close>, ends with a result or with a panic, its own or that of
  a timer that fails; either way the state is left as the future made it.  Where the thread cannot
  drive it, the future is dropped without being polled.\<close>

definition try_run_future ::
  "thread_context \<Rightarrow> (duration option \<Rightarrow> 's \<Rightarrow> unit outcome \<times> 's) \<Rightarrow> 's
   \<Rightarrow> (unsupported_context + unit) outcome \<times> 's" where
  "try_run_future ctx future s =
     (if thread_panicking ctx then (Inr (Inl Panicking), s)
      else (case current_runtime ctx of
              None \<Rightarrow> (Inr (Inl NoRuntime), s)
            | Some rt \<Rightarrow>
                if flavor rt = CurrentThread then (Inr (Inl CurrentThreadRuntime), s)
                else if is_shutting_down rt then (Inr (Inl RuntimeShuttingDown), s)
                else (case future (timers_fail rt) s of
                        (Inl p, s) \<Rightarrow> (Inl p, s)
                      | (Inr _, s) \<Rightarrow> (Inr (Inr ()), s))))"

section \<open>The wrapper\<close>

datatype terminate_on_drop_fallback = FallbackPanic | FallbackTrace

record ('c, 'o, 'e) terminate_on_drop_t =
  tod_handle :: "('c, 'o, 'e) process_handle"
  tod_shutdown :: graceful_shutdown
  tod_fallback :: terminate_on_drop_fallback

definition terminate_on_drop_with_fallback ::
  "('c, 'o, 'e) process_handle \<Rightarrow> graceful_shutdown \<Rightarrow> terminate_on_drop_fallback \<Rightarrow> ('c, 'o, 'e) terminate_on_drop_t" where
  "terminate_on_drop_with_fallback h shutdown fallback =
     \<lparr>tod_handle = h, tod_shutdown = shutdown, tod_fallback = fallback\<rparr>"

definition terminate_on_drop ::
  "('c, 'o, 'e) process_handle \<Rightarrow> graceful_shutdown \<Rightarrow> ('c, 'o, 'e) terminate_on_drop_t" where
  "terminate_on_drop h shutdown = terminate_on_drop_with_fallback h shutdown FallbackPanic"

definition tod_into_inner :: "('c, 'o, 'e) terminate_on_drop_t \<Rightarrow> ('c, 'o, 'e) process_handle" where
  "tod_into_inner t = tod_handle t"

definition nothing_to_terminate ::
  "'c child_ops \<Rightarrow> ('c, 'o, 'e) terminate_on_drop_t \<Rightarrow> bool \<times> ('c, 'o, 'e) terminate_on_drop_t" where
  "nothing_to_terminate E t =
     (if is_drop_disarmed (tod_handle t) then (True, t)
      else (case is_running E (tod_handle t) of
              (Terminated _, h) \<Rightarrow> (True, t\<lparr>tod_handle := must_not_be_terminated h\<rparr>)
            | (Running, h) \<Rightarrow> (False, t\<lparr>tod_handle := h\<rparr>)
            | (Uncertain _, h) \<Rightarrow> (False, t\<lparr>tod_handle := h\<rparr>)))"

definition terminate_gracefully ::
  "'c child_ops \<Rightarrow> duration option \<Rightarrow> ('c, 'o, 'e) terminate_on_drop_t \<Rightarrow> unit outcome \<times> ('c, 'o, 'e) terminate_on_drop_t" where
  "terminate_gracefully E fails t =
     (case Option.bind fails (\<lambda>T. terminate_interrupted E T (tod_handle t) (tod_shutdown t)) of
        Some h \<Rightarrow> (Inl being_shutdown, t\<lparr>tod_handle := h\<rparr>)
      | None \<Rightarrow>
          (case terminate E (tod_handle t) (tod_shutdown t) of
             Inl p \<Rightarrow> (Inl p, t)
           | Inr (_, h) \<Rightarrow> (Inr (), t\<lparr>tod_handle := h\<rparr>)))"

text \<open>The panic of the fallback comes after the kill, so the state is returned with it.\<close>

definition terminate_forcefully ::
  "'c child_ops \<Rightarrow> unsupported_context \<Rightarrow> ('c, 'o, 'e) terminate_on_drop_t
   \<Rightarrow> unit outcome \<times> ('c, 'o, 'e) terminate_on_drop_t" where
  "terminate_forcefully E context t =
     (case start_kill E (tod_handle t) of
        Inl p \<Rightarrow> (Inl p, t)
      | Inr (r, h) \<Rightarrow>
          (let h = (case r of Inl _ \<Rightarrow> must_not_be_terminated h | Inr _ \<Rightarrow> h);
               t = t\<lparr>tod_handle := h\<rparr>
           in (case context of
                 Panicking \<Rightarrow> (Inr (), t)
               | RuntimeShuttingDown \<Rightarrow> (Inr (), t)
               | _ \<Rightarrow>
                   (case tod_fallback t of
                      FallbackTrace \<Rightarrow> (Inr (), t)
                    | FallbackPanic \<Rightarrow>
                        (Inl (ExplicitPanic (''TerminateOnDrop for process '' @ quoted (ph_name h) @ '' was dropped ''
                           @ describe context @ '', which cannot run the graceful shutdown.'')), t)))))"

definition terminate_on_drop_drop ::
  "'c child_ops \<Rightarrow> thread_context \<Rightarrow> ('c, 'o, 'e) terminate_on_drop_t
   \<Rightarrow> unit outcome \<times> ('c, 'o, 'e) terminate_on_drop_t" where
  "terminate_on_drop_drop E ctx t =
     (case nothing_to_terminate E t of
        (True, t) \<Rightarrow> (Inr (), t)
      | (False, t) \<Rightarrow>
          (case try_run_future ctx (terminate_gracefully E) t of
             (Inl p, t) \<Rightarrow> (Inl p, t)
           | (Inr (Inr _), t) \<Rightarrow> (Inr (), t)
           | (Inr (Inl context), t) \<Rightarrow> terminate_forcefully E context t))"

text \<open>After the destructor the wrapped handle is dropped as a field, while the thread unwinds if the
  destructor panicked: the outcomes of both, and the leader that is left.\<close>

definition drop_wrapper ::
  "'c child_ops \<Rightarrow> thread_context \<Rightarrow> ('c, 'o, 'e) terminate_on_drop_t \<Rightarrow> unit outcome \<times> unit outcome \<times> 'c leader" where
  "drop_wrapper E ctx t =
     (case terminate_on_drop_drop E ctx t of
        (r, t) \<Rightarrow>
          (case process_handle_drop E (thread_panicking ctx \<or> r \<noteq> Inr ()) (tod_handle t) of
             (r', l, _) \<Rightarrow> (r, r', l)))"

section \<open>The contract of the wrapper\<close>

definition unsupported :: "thread_context \<Rightarrow> unsupported_context option" where
  "unsupported ctx =
     (if thread_panicking ctx then Some Panicking
      else (case current_runtime ctx of
              None \<Rightarrow> Some NoRuntime
            | Some rt \<Rightarrow>
                if flavor rt = CurrentThread then Some CurrentThreadRuntime
                else if probe rt = ProbeCancelled then Some RuntimeShuttingDown else None))"

definition shutdown_time :: "thread_context \<Rightarrow> duration option" where
  "shutdown_time ctx = Option.bind (current_runtime ctx) timers_fail"

lemma try_run_future_conv:
  "try_run_future ctx f s =
     (case unsupported ctx of Some c \<Rightarrow> (Inr (Inl c), s)
      | None \<Rightarrow> (case f (shutdown_time ctx) s of (Inl p, s') \<Rightarrow> (Inl p, s') | (Inr _, s') \<Rightarrow> (Inr (Inr ()), s')))"
  by (auto simp: try_run_future_def unsupported_def shutdown_time_def is_shutting_down_def
      split: option.splits probe_poll.splits)

lemma nothing_to_terminate_conv:
  assumes "is_drop_armed (tod_handle t)" "try_reap_exit_status E (tod_handle t) = (c, h)"
  shows "nothing_to_terminate E t =
    (case c of Inr (Some _) \<Rightarrow> (True, t\<lparr>tod_handle := h\<lparr>drop_mode := Disarmed\<rparr>\<rparr>) | _ \<Rightarrow> (False, t\<lparr>tod_handle := h\<rparr>))"
  using assms drop_mode_simps(2) [of "tod_handle t"]
  by (auto simp: nothing_to_terminate_def is_running_def split: sum.splits option.splits)

text \<open>What the destructor does when it cannot run the graceful shutdown.\<close>

lemma terminate_forcefully_result:
  "\<exists>r t'. terminate_forcefully E c t = (r, t') \<and> drop_mode (tod_handle t') = Disarmed \<and>
     (r \<noteq> Inr () \<longleftrightarrow> c \<in> {NoRuntime, CurrentThreadRuntime} \<and> tod_fallback t = FallbackPanic) \<and>
     (\<forall>p. handle_id E (tod_handle t) = Some p \<longrightarrow>
        handle_sent (tod_handle t') = handle_sent (tod_handle t)
          @ [kill_call (target (ph_group (tod_handle t))) (job (ph_group (tod_handle t))) p])"
proof -
  obtain r h' where k: "start_kill E (tod_handle t) = Inr (r, h')"
    and sent: "\<forall>p. handle_id E (tod_handle t) = Some p \<longrightarrow>
        handle_sent h' = handle_sent (tod_handle t)
          @ [kill_call (target (ph_group (tod_handle t))) (job (ph_group (tod_handle t))) p]"
    and mode: "case r of Inr _ \<Rightarrow> is_drop_disarmed h'
       | Inl e \<Rightarrow> drop_mode h' = drop_mode (tod_handle t) \<and>
           (\<exists>errs. e = TerminationFailed (ph_name (tod_handle t)) errs \<and> errs \<noteq> [])"
    using start_kill_result [of E "tod_handle t"] by blast
  define h2 where "h2 = (case r of Inl _ \<Rightarrow> h'\<lparr>drop_mode := Disarmed\<rparr> | Inr _ \<Rightarrow> h')"
  have "drop_mode h2 = Disarmed" "handle_sent h2 = handle_sent h'" using mode by (auto simp: h2_def split: sum.splits)
  moreover have "\<exists>r2. terminate_forcefully E c t = (r2, t\<lparr>tod_handle := h2\<rparr>) \<and>
     (r2 \<noteq> Inr () \<longleftrightarrow> c \<in> {NoRuntime, CurrentThreadRuntime} \<and> tod_fallback t = FallbackPanic)"
    by (cases c; cases "tod_fallback t"; cases r)
      (simp_all add: terminate_forcefully_def k h2_def)
  ultimately show ?thesis using sent by fastforce
qed

text \<open>Where the shutdown cannot run, the wrapper and the wrapped handle together send one kill.\<close>

lemma drop_wrapper_forced:
  assumes "is_drop_armed (tod_handle t)" and "try_reap_exit_status E (tod_handle t) = (c, h1)"
    and "\<forall>st. c \<noteq> Inr (Some st)" and "unsupported ctx = Some u"
  shows "\<exists>r l. drop_wrapper E ctx t = (r, Inr (), l) \<and>
     (r \<noteq> Inr () \<longleftrightarrow> u \<in> {NoRuntime, CurrentThreadRuntime} \<and> tod_fallback t = FallbackPanic) \<and>
     (\<forall>p. keeps_id E \<and> handle_id E (tod_handle t) = Some p \<longrightarrow>
        sent l = handle_sent (tod_handle t)
          @ [kill_call (target (ph_group (tod_handle t))) (job (ph_group (tod_handle t))) p])"
proof -
  note rf = try_reap_effect [OF assms(2)]
  let ?t1 = "t\<lparr>tod_handle := h1\<rparr>"
  have "nothing_to_terminate E t = (False, ?t1)"
    using nothing_to_terminate_conv [OF assms(1,2)] assms(3) by (auto split: sum.splits option.splits)
  then have d: "terminate_on_drop_drop E ctx t = terminate_forcefully E u ?t1"
    using assms(4) by (simp add: terminate_on_drop_drop_def try_run_future_conv)
  obtain r t' where f: "terminate_forcefully E u ?t1 = (r, t')" "drop_mode (tod_handle t') = Disarmed"
    "r \<noteq> Inr () \<longleftrightarrow> u \<in> {NoRuntime, CurrentThreadRuntime} \<and> tod_fallback t = FallbackPanic"
    "\<forall>p. handle_id E h1 = Some p \<longrightarrow> handle_sent (tod_handle t') = handle_sent h1
       @ [kill_call (target (ph_group h1)) (job (ph_group h1)) p]"
    using terminate_forcefully_result [of E u ?t1] by auto
  have "\<forall>p. keeps_id E \<and> handle_id E (tod_handle t) = Some p \<longrightarrow> handle_sent (tod_handle t')
      = handle_sent (tod_handle t) @ [kill_call (target (ph_group (tod_handle t))) (job (ph_group (tod_handle t))) p]"
    using f(4) try_reap_keeps_id [OF _ assms(2)] assms(3) rf(1,4) by (simp add: handle_frame_def)
  then show ?thesis
    using d f(1,3) drop_result(2) [OF f(2), of E "thread_panicking ctx \<or> r \<noteq> Inr ()"]
    by (auto simp: drop_wrapper_def split: prod.splits)
qed

text \<open>Dropping the wrapped handle while it is armed kills its group.\<close>

lemma armed_drop_sent:
  assumes "is_drop_armed h"
  shows "prefix (handle_sent h) (sent (fst (snd (process_handle_drop E panicking h))))"
    and "handle_id E h = Some p \<Longrightarrow> sent (fst (snd (process_handle_drop E panicking h)))
      = handle_sent h @ [kill_call (target (ph_group h)) (job (ph_group h)) p]"
proof -
  obtain r h' where k: "send_kill_signal E h = (r, h')" by fastforce
  have drop: "sent (fst (snd (process_handle_drop E panicking h))) = handle_sent h'"
    using assms k
    by (auto simp: process_handle_drop_def is_drop_armed_def into_leader_def job_drop_def split: drop_mode.splits option.splits)
  have "prefix (handle_sent h) (handle_sent h')"
    using k by (auto simp: send_kill_signal_def on_group_def send_kill_def on_leader_def send_kill_to_process_group_def
        send_to_process_group_def job_terminate_def child_start_kill_call_def Let_def
        split: platform.splits option.splits prod.splits sum.splits)
  then show "prefix (handle_sent h) (sent (fst (snd (process_handle_drop E panicking h))))" using drop by simp
  show "handle_id E h = Some p \<Longrightarrow> sent (fst (snd (process_handle_drop E panicking h)))
      = handle_sent h @ [kill_call (target (ph_group h)) (job (ph_group h)) p]"
    using drop send_kill_signal_effect(5) [OF k] by simp
qed

text \<open>Where the shutdown runs to its end.\<close>

lemma drop_wrapper_ran:
  assumes "is_drop_armed (tod_handle t)" and "try_reap_exit_status E (tod_handle t) = (c, h1)"
    and "\<forall>st. c \<noteq> Inr (Some st)" and "unsupported ctx = None"
    and "terminate E h1 (tod_shutdown t) = Inr (res, h2)" and "shutdown_ok (tod_shutdown t)"
    and "Option.bind (shutdown_time ctx) (\<lambda>T. terminate_interrupted E T h1 (tod_shutdown t)) = None"
  shows "\<exists>r' l. drop_wrapper E ctx t = (Inr (), r', l) \<and> (r' = Inr () \<longleftrightarrow> (\<exists>st. res = Inr st)) \<and>
    (\<forall>st. res = Inr st \<longrightarrow> sent l = handle_sent h2)"
proof -
  have armed1: "is_drop_armed h1" using assms(1) try_reap_effect(2) [OF assms(2)] is_drop_armed_cong by blast
  have mode: "case res of Inr _ \<Rightarrow> drop_mode h2 = Disarmed | Inl _ \<Rightarrow> is_drop_armed h2"
    using terminate_result [OF assms(6), of E h1] assms(5) armed1 is_drop_armed_cong by (fastforce split: sum.splits)
  have "nothing_to_terminate E t = (False, t\<lparr>tod_handle := h1\<rparr>)"
    using nothing_to_terminate_conv [OF assms(1,2)] assms(3) by (auto split: sum.splits option.splits)
  then have d: "terminate_on_drop_drop E ctx t = (Inr (), t\<lparr>tod_handle := h2\<rparr>)"
    using assms(4,5,7) by (simp add: terminate_on_drop_drop_def try_run_future_conv terminate_gracefully_def)
  have np: "\<not> thread_panicking ctx" using assms(4) by (auto simp: unsupported_def split: if_splits)
  obtain r' l x where dr: "process_handle_drop E False h2 = (r', l, x)" by (metis prod_cases3)
  then have "r' = Inr () \<longleftrightarrow> (\<exists>st. res = Inr st)" "\<forall>st. res = Inr st \<longrightarrow> sent l = handle_sent h2"
    using mode drop_result [of h2 E False] by (auto split: sum.splits)
  then show ?thesis using d dr np by (simp add: drop_wrapper_def)
qed

text \<open>Where the runtime is shut down while the shutdown runs.\<close>

lemma drop_wrapper_interrupted:
  assumes "is_drop_armed (tod_handle t)" and "try_reap_exit_status E (tod_handle t) = (c, h1)"
    and "\<forall>st. c \<noteq> Inr (Some st)" and "unsupported ctx = None"
    and "shutdown_time ctx = Some T" and "terminate_interrupted E T h1 (tod_shutdown t) = Some k"
    and "handle_frame h1 k" and "drop_mode k = drop_mode h1"
  defines "kc p \<equiv> kill_call (target (ph_group (tod_handle t))) (job (ph_group (tod_handle t))) p"
  shows "\<exists>l. drop_wrapper E ctx t = (Inl being_shutdown, Inr (), l) \<and>
    (\<forall>p. keeps_id E \<and> handle_id E (tod_handle t) = Some p \<longrightarrow>
      (\<exists>now. now \<noteq> [] \<and> prefix now (phase_calls (tod_shutdown t) p @ [kc p]) \<and>
        (sent l = handle_sent (tod_handle t) @ now @ [kc p] \<or>
         now = phase_calls (tod_shutdown t) p @ [kc p] \<and> prefix (handle_sent (tod_handle t) @ now) (sent l))))"
proof -
  note rf = try_reap_effect [OF assms(2)]
  have armed: "is_drop_armed k" using assms(1,8) rf(2) is_drop_armed_cong by metis
  have "nothing_to_terminate E t = (False, t\<lparr>tod_handle := h1\<rparr>)"
    using nothing_to_terminate_conv [OF assms(1,2)] assms(3) by (auto split: sum.splits option.splits)
  then have d: "terminate_on_drop_drop E ctx t = (Inl being_shutdown, t\<lparr>tod_handle := k\<rparr>)"
    using assms(4-6) by (simp add: terminate_on_drop_drop_def try_run_future_conv terminate_gracefully_def)
  obtain r' l x where dr: "process_handle_drop E True k = (r', l, x)" by (metis prod_cases3)
  have drop: "r' = Inr ()" "prefix (handle_sent k) (sent l)"
    using drop_result(1) [OF armed, of E True] armed_drop_sent(1) [OF armed, of E True] dr by simp_all
  have same: "target (ph_group k) = target (ph_group (tod_handle t))" "job (ph_group k) = job (ph_group (tod_handle t))"
      "target (ph_group h1) = target (ph_group (tod_handle t))" "job (ph_group h1) = job (ph_group (tod_handle t))"
    using assms(7) rf(1) by (simp_all add: handle_frame_def)
  have "\<exists>now. now \<noteq> [] \<and> prefix now (phase_calls (tod_shutdown t) p @ [kc p]) \<and>
      (sent l = handle_sent (tod_handle t) @ now @ [kc p] \<or>
       now = phase_calls (tod_shutdown t) p @ [kc p] \<and> prefix (handle_sent (tod_handle t) @ now) (sent l))"
    if "keeps_id E" "handle_id E (tod_handle t) = Some p" for p
  proof -
    have id: "handle_id E h1 = Some p" using try_reap_keeps_id [OF that(1) assms(2,3)] that(2) by simp
    from terminate_interrupted_sent [OF that(1) assms(6) id] obtain now where
      now: "now \<noteq> []" "prefix now (phase_calls (tod_shutdown t) p @ [kc p])" "handle_sent k = handle_sent (tod_handle t) @ now"
        "handle_id E k = Some p \<or> now = phase_calls (tod_shutdown t) p @ [kc p]"
      unfolding kc_def same using rf(4) by auto
    then show ?thesis using armed_drop_sent(2) [OF armed, of E p True] drop(2) dr same unfolding kc_def by (intro exI [of _ now]) auto
  qed
  then show ?thesis using d dr drop(1) by (simp add: drop_wrapper_def)
qed

text \<open>C8: Dropping the wrapper of an armed handle.  An exit the preflight sees ends the drop silently.  Where
  the graceful shutdown cannot run, the group is killed with exactly one kill, the destructor panics only
  outside a multi-threaded runtime and only under the panic fallback, and the wrapped handle neither
  kills again nor panics (so there is never a second panic).  Otherwise the shutdown runs.  If it runs to
  its end, the destructor does not panic, a successful shutdown sends nothing more, and the wrapped handle
  panics exactly if termination failed.  If the runtime begins to shut down before that, and only then, the
  destructor panics with Tokio's message; then the signals up to that point have been sent and the wrapped handle
  kills the group without a second panic (on top of the kill of the shutdown itself if it got that
  far).\<close>

theorem terminate_on_drop_contract:
  assumes "shutdown_ok (tod_shutdown t)" "is_drop_armed (tod_handle t)"
    and "try_reap_exit_status E (tod_handle t) = (c, h1)"
  shows "case drop_wrapper E ctx t of (r, r', l) \<Rightarrow>
    (\<forall>st. c = Inr (Some st) \<longrightarrow> r = Inr () \<and> r' = Inr () \<and> sent l = handle_sent (tod_handle t)) \<and>
    ((\<forall>st. c \<noteq> Inr (Some st)) \<longrightarrow>
      (case unsupported ctx of
         Some u \<Rightarrow>
           (r \<noteq> Inr () \<longleftrightarrow> u \<in> {NoRuntime, CurrentThreadRuntime} \<and> tod_fallback t = FallbackPanic) \<and> r' = Inr () \<and>
           (\<forall>p. keeps_id E \<and> handle_id E (tod_handle t) = Some p \<longrightarrow>
              sent l = handle_sent (tod_handle t)
                @ [kill_call (target (ph_group (tod_handle t))) (job (ph_group (tod_handle t))) p])
       | None \<Rightarrow>
           \<exists>res h2. terminate E h1 (tod_shutdown t) = Inr (res, h2) \<and>
             (r = Inr () \<longrightarrow> (r' = Inr () \<longleftrightarrow> (\<exists>st. res = Inr st)) \<and> (\<forall>st. res = Inr st \<longrightarrow> sent l = handle_sent h2)) \<and>
             (\<forall>T. shutdown_time ctx = Some T \<and> handle_clock h1 \<le> T \<and> T < handle_clock h2 \<longrightarrow> r \<noteq> Inr ()) \<and>
             (r \<noteq> Inr () \<longrightarrow>
                r = Inl being_shutdown \<and> r' = Inr () \<and> (\<exists>T. shutdown_time ctx = Some T \<and> T \<le> handle_clock h2) \<and>
                (\<forall>p kc. keeps_id E \<and> handle_id E (tod_handle t) = Some p \<and>
                   kc = kill_call (target (ph_group (tod_handle t))) (job (ph_group (tod_handle t))) p \<longrightarrow>
                   (\<exists>now. now \<noteq> [] \<and> prefix now (phase_calls (tod_shutdown t) p @ [kc]) \<and>
                      (sent l = handle_sent (tod_handle t) @ now @ [kc] \<or>
                       now = phase_calls (tod_shutdown t) p @ [kc] \<and> prefix (handle_sent (tod_handle t) @ now) (sent l)))))))"
proof -
  note rf = try_reap_effect [OF assms(3)]
  obtain res h2 where ran: "terminate E h1 (tod_shutdown t) = Inr (res, h2)" using terminate_result [OF assms(1)] by blast
  note int = terminate_interrupted_effect [OF assms(1) ran]
  consider (exited) st where "c = Inr (Some st)"
    | (forced) u where "\<forall>st. c \<noteq> Inr (Some st)" "unsupported ctx = Some u"
    | (cut) T k where "\<forall>st. c \<noteq> Inr (Some st)" "unsupported ctx = None"
        "shutdown_time ctx = Some T" "terminate_interrupted E T h1 (tod_shutdown t) = Some k"
    | (graceful) "\<forall>st. c \<noteq> Inr (Some st)" "unsupported ctx = None"
        "Option.bind (shutdown_time ctx) (\<lambda>T. terminate_interrupted E T h1 (tod_shutdown t)) = None"
    by (cases "unsupported ctx"; cases "Option.bind (shutdown_time ctx) (\<lambda>T. terminate_interrupted E T h1 (tod_shutdown t))")
      (auto simp: bind_eq_Some_conv)
  then show ?thesis
  proof cases
    case exited
    then show ?thesis
      using nothing_to_terminate_conv [OF assms(2,3)] rf(4)
        drop_result(2) [of "h1\<lparr>drop_mode := Disarmed\<rparr>" E "thread_panicking ctx"]
      by (auto simp: drop_wrapper_def terminate_on_drop_drop_def split: prod.splits)
  next
    case forced
    with drop_wrapper_forced [OF assms(2,3) forced] show ?thesis by auto
  next
    case cut
    note i = int(1) [OF cut(4)]
    with drop_wrapper_interrupted [OF assms(2,3) cut] show ?thesis using cut(1-3) ran by auto
  next
    case graceful
    have "\<not> T < handle_clock h2" if "shutdown_time ctx = Some T" "handle_clock h1 \<le> T" for T
      using int(2) [of T] graceful(3) that by simp
    with drop_wrapper_ran [OF assms(2,3) graceful(1,2) ran assms(1) graceful(3)] show ?thesis
      using graceful(1,2) ran by auto
  qed
qed

definition sim_wrapper :: "(sim_child, unit, unit) terminate_on_drop_t" where
  "sim_wrapper = terminate_on_drop (sim_handle sim_stubborn) sim_shutdown"

text \<open>The runtime is shut down while the wrapper waits for a child that ignores the first signal: the destructor
  panics and the wrapped handle kills the group.\<close>

lemma sim_interrupted_drop:
  "\<exists>l. drop_wrapper sim_ops
     \<lparr>thread_panicking = False, current_runtime = Some \<lparr>flavor = MultiThread, probe = ProbeDone, timers_fail = Some 1\<rparr>\<rparr> sim_wrapper
     = (Inl being_shutdown, Inr (), l) \<and> sent l = [CallKillpg 7 SIGTERM, CallKillpg 7 SIGKILL]"
  by (simp add: drop_wrapper_def terminate_on_drop_drop_def nothing_to_terminate_def is_running_def try_run_future_def
      is_shutting_down_def terminate_gracefully_def terminate_interrupted_def loop_interrupted_def shutdown_steps_def
      sim_shutdown_def terminate_only_def single_phase_def phase_terminate_def wait_after_def wait_interrupted_def
      resolves_within_def sim_wrapper_def terminate_on_drop_def terminate_on_drop_with_fallback_def terminate_eval sim_eval
      new_armed_drop_mode_def armed_panic_guard_def panic_on_drop_new_def is_drop_disarmed_def from_secs_def
      process_handle_drop_def panic_on_drop_drop_def is_armed_def into_leader_def sent_def)

theorem terminate_on_drop_contract_witness:
  "shutdown_ok (tod_shutdown sim_wrapper) \<and> is_drop_armed (tod_handle sim_wrapper) \<and>
   (case drop_wrapper sim_ops \<lparr>thread_panicking = False, current_runtime = None\<rparr> sim_wrapper of (r, r', l) \<Rightarrow>
      r \<noteq> Inr () \<and> r' = Inr () \<and> sent l = [CallKillpg 7 SIGKILL]) \<and>
   (\<exists>l. drop_wrapper sim_ops
      \<lparr>thread_panicking = False, current_runtime = Some \<lparr>flavor = MultiThread, probe = ProbeDone, timers_fail = Some 1\<rparr>\<rparr> sim_wrapper
      = (Inl being_shutdown, Inr (), l) \<and> sent l = [CallKillpg 7 SIGTERM, CallKillpg 7 SIGKILL])"
proof -
  have armed: "is_drop_armed (tod_handle sim_wrapper)"
    by (simp add: sim_wrapper_def terminate_on_drop_def terminate_on_drop_with_fallback_def is_drop_armed_def
        sim_handle_def new_armed_drop_mode_def armed_panic_guard_def)
  have ok: "shutdown_ok (tod_shutdown sim_wrapper)"
    by (simp add: sim_wrapper_def terminate_on_drop_def terminate_on_drop_with_fallback_def)
  have "case drop_wrapper sim_ops \<lparr>thread_panicking = False, current_runtime = None\<rparr> sim_wrapper of (r, r', l) \<Rightarrow>
      r \<noteq> Inr () \<and> r' = Inr () \<and> sent l = [CallKillpg 7 SIGKILL]"
    using terminate_on_drop_contract [OF ok armed, of sim_ops "fst (try_reap_exit_status sim_ops (tod_handle sim_wrapper))"
        "snd (try_reap_exit_status sim_ops (tod_handle sim_wrapper))" "\<lparr>thread_panicking = False, current_runtime = None\<rparr>"]
      ok armed sim_keeps_id
    by (simp add: sim_wrapper_def terminate_on_drop_def terminate_on_drop_with_fallback_def unsupported_def
        sim_eval handle_eval sent_def split: prod.splits)
  then show ?thesis using ok armed sim_interrupted_drop by blast
qed

end
