(* ===== verification/Process_Name.thy ===== *)
theory Process_Name
  imports Utf8
begin

text \<open>
  The names of processes: \<open>process/name.rs\<close>.  A command is what its accessors return (\<open>get_program\<close>, \<open>get_args\<close>,
  \<open>get_envs\<close> in their order, where a removed variable has no value, and \<open>get_current_dir\<close>); OS strings are
  byte strings and \<open>to_string_lossy\<close> is the lossy UTF-8 decoding.  The \<open>Debug\<close> rendering of a command belongs to
  the standard library and tokio and is a parameter.
\<close>

record os_command =
  cmd_program :: bytes
  cmd_args :: "bytes list"
  cmd_envs :: "(bytes \<times> bytes option) list"
  cmd_current_dir :: "bytes option"

record auto_name_settings =
  include_current_dir :: bool
  include_envs :: bool
  include_program :: bool
  include_args :: bool

definition settings_default :: auto_name_settings where
  "settings_default =
     \<lparr>include_current_dir = False, include_envs = False, include_program = True, include_args = False\<rparr>"

text \<open>The derived builder starts from the same defaults and has no setter for the program.\<close>

definition settings_builder :: auto_name_settings where
  "settings_builder =
     \<lparr>include_current_dir = False, include_envs = False, include_program = True, include_args = False\<rparr>"

definition settings_program_only :: auto_name_settings where
  "settings_program_only = settings_default"

definition settings_program_with_args :: auto_name_settings where
  "settings_program_with_args = settings_builder\<lparr>include_args := True\<rparr>"

definition settings_program_with_env_and_args :: auto_name_settings where
  "settings_program_with_env_and_args = settings_builder\<lparr>include_envs := True, include_args := True\<rparr>"

definition settings_full :: auto_name_settings where
  "settings_full = settings_builder\<lparr>include_current_dir := True, include_envs := True, include_args := True\<rparr>"

abbreviation space :: byte where
  "space \<equiv> CHR 0x20"

abbreviation dquote :: byte where
  "dquote \<equiv> CHR 0x22"

fun push_envs :: "bytes \<Rightarrow> (bytes \<times> bytes option) list \<Rightarrow> bytes" where
  "push_envs name [] = name"
| "push_envs name ((key, None) # envs) = push_envs name envs"
| "push_envs name ((key, Some value) # envs) =
     push_envs (name @ from_utf8_lossy key @ ''='' @ from_utf8_lossy value @ [space]) envs"

fun push_args :: "bytes \<Rightarrow> bytes list \<Rightarrow> bytes" where
  "push_args name [] = name"
| "push_args name (arg # args) =
     push_args (name @ [dquote] @ from_utf8_lossy arg @ [dquote] @ [space]) args"

definition format_cmd :: "auto_name_settings \<Rightarrow> os_command \<Rightarrow> bytes" where
  "format_cmd self cmd =
     (let name = [];
          name = (case cmd_current_dir cmd of
                    Some dir \<Rightarrow> if include_current_dir self then name @ from_utf8_lossy dir @ '' % '' else name
                  | None \<Rightarrow> name);
          name = (if include_envs self then push_envs name (cmd_envs cmd) else name);
          name = (if include_program self then name @ from_utf8_lossy (cmd_program cmd) @ [space] else name);
          name = (if include_args self then push_args name (cmd_args cmd) else name)
      in if name \<noteq> [] \<and> last name = space then butlast name else name)"

datatype auto_name = Using auto_name_settings | DebugName

definition auto_program_only :: auto_name where
  "auto_program_only = Using settings_program_only"

definition auto_program_with_args :: auto_name where
  "auto_program_with_args = Using settings_program_with_args"

definition auto_program_with_env_and_args :: auto_name where
  "auto_program_with_env_and_args = Using settings_program_with_env_and_args"

definition auto_full :: auto_name where
  "auto_full = Using settings_full"

definition auto_name_default :: auto_name where
  "auto_name_default = auto_program_only"

datatype process_name = Explicit string | Auto auto_name

definition process_name_default :: process_name where
  "process_name_default = Auto auto_name_default"

definition generate_name :: "(os_command \<Rightarrow> string) \<Rightarrow> process_name \<Rightarrow> os_command \<Rightarrow> string" where
  "generate_name debug_command name cmd =
     (case name of
        Explicit name \<Rightarrow> name
      | Auto (Using settings) \<Rightarrow> format_cmd settings cmd
      | Auto DebugName \<Rightarrow> debug_command cmd)"

section \<open>What a generated name contains\<close>

text \<open>The words of a name: variables that have a value, the program, and the quoted arguments.\<close>

fun set_variables :: "(bytes \<times> bytes option) list \<Rightarrow> bytes list" where
  "set_variables [] = []"
| "set_variables ((k, None) # envs) = set_variables envs"
| "set_variables ((k, Some v) # envs) = (from_utf8_lossy k @ ''='' @ from_utf8_lossy v) # set_variables envs"

definition env_words :: "os_command \<Rightarrow> bytes list" where
  "env_words cmd = set_variables (cmd_envs cmd)"

definition arg_words :: "os_command \<Rightarrow> bytes list" where
  "arg_words cmd = map (\<lambda>a. [dquote] @ from_utf8_lossy a @ [dquote]) (cmd_args cmd)"

definition name_words :: "auto_name_settings \<Rightarrow> os_command \<Rightarrow> bytes list" where
  "name_words s cmd =
     (if include_envs s then env_words cmd else []) @ [from_utf8_lossy (cmd_program cmd)] @
     (if include_args s then arg_words cmd else [])"

definition dir_prefix :: "auto_name_settings \<Rightarrow> os_command \<Rightarrow> bytes" where
  "dir_prefix s cmd =
     (case cmd_current_dir cmd of Some dir \<Rightarrow> if include_current_dir s then from_utf8_lossy dir @ '' % '' else []
      | None \<Rightarrow> [])"

fun join_words :: "bytes list \<Rightarrow> bytes" where
  "join_words [] = []"
| "join_words [w] = w"
| "join_words (w # w' # ws) = w @ [space] @ join_words (w' # ws)"

lemma join_words_terminated:
  "ws \<noteq> [] \<Longrightarrow> concat (map (\<lambda>w. w @ [space]) ws) = join_words ws @ [space]"
  by (induction ws rule: join_words.induct) auto

abbreviation spaced :: "bytes list \<Rightarrow> bytes" where
  "spaced ws \<equiv> concat (map (\<lambda>w. w @ [space]) ws)"

lemma push_envs_conv: "push_envs name (cmd_envs cmd) = name @ spaced (env_words cmd)"
proof -
  have "push_envs n envs = n @ spaced (env_words (cmd\<lparr>cmd_envs := envs\<rparr>))" for n envs
    by (induction n envs rule: push_envs.induct) (simp_all add: env_words_def)
  from this [of name "cmd_envs cmd"] show ?thesis by simp
qed

lemma push_args_conv: "push_args name (cmd_args cmd) = name @ spaced (arg_words cmd)"
proof -
  have "push_args n args = n @ spaced (arg_words (cmd\<lparr>cmd_args := args\<rparr>))" for n args
    by (induction n args rule: push_args.induct) (simp_all add: arg_words_def)
  from this [of name "cmd_args cmd"] show ?thesis by simp
qed

text \<open>The name, for settings that include the program (all that can be built): the directory, and then the
  words separated by single spaces.\<close>

lemma format_cmd_words:
  assumes "include_program s"
  shows "format_cmd s cmd = dir_prefix s cmd @ join_words (name_words s cmd)"
proof -
  have words: "name_words s cmd \<noteq> []" by (simp add: name_words_def)
  have "format_cmd s cmd = (let n = dir_prefix s cmd @ spaced (name_words s cmd)
      in if n \<noteq> [] \<and> last n = space then butlast n else n)"
    unfolding format_cmd_def Let_def push_envs_conv push_args_conv name_words_def dir_prefix_def
    using assms by (cases "cmd_current_dir cmd"; cases "include_envs s"; cases "include_args s") simp_all
  then show ?thesis by (simp add: join_words_terminated [OF words] Let_def butlast_append)
qed

text \<open>C40: Generated names.  The name of every preset is its directory prefix followed by its words (variables,
  program, quoted arguments) separated by single spaces; the default name is the program's name alone, so
  it is the same for commands that differ in arguments, environment and directory, and the names with
  arguments do not depend on the environment.\<close>

theorem generated_names:
  "(\<forall>s \<in> {settings_program_only, settings_program_with_args, settings_program_with_env_and_args, settings_full}.
      generate_name dbg (Auto (Using s)) cmd = dir_prefix s cmd @ join_words (name_words s cmd)) \<and>
   generate_name dbg process_name_default cmd = from_utf8_lossy (cmd_program cmd) \<and>
   generate_name dbg (Auto auto_program_with_args) (cmd\<lparr>cmd_envs := envs, cmd_current_dir := dir\<rparr>)
     = generate_name dbg (Auto auto_program_with_args) cmd \<and>
   generate_name dbg (Explicit n) cmd = n"
  by (auto simp: generate_name_def process_name_default_def auto_name_default_def auto_program_only_def
      auto_program_with_args_def format_cmd_words settings_program_only_def settings_default_def
      settings_program_with_args_def settings_program_with_env_and_args_def settings_full_def
      settings_builder_def name_words_def dir_prefix_def arg_words_def split: option.splits)

definition example_command :: os_command where
  "example_command = \<lparr>cmd_program = ''ls'', cmd_args = [''-la''], cmd_envs = [(''FOO'', Some ''foo''), (''BAR'', None)],
     cmd_current_dir = Some ''./''\<rparr>"

theorem generated_names_witness:
  "generate_name (\<lambda>_. []) (Auto auto_full) example_command
     = ''./ % FOO=foo ls '' @ [dquote] @ ''-la'' @ [dquote]"
proof -
  have "generate_name (\<lambda>_. []) (Auto (Using settings_full)) example_command
      = dir_prefix settings_full example_command @ join_words (name_words settings_full example_command)"
    using generated_names [where dbg = "\<lambda>_. []" and cmd = example_command] by simp
  also have "\<dots> = ''./ % FOO=foo ls '' @ [dquote] @ ''-la'' @ [dquote]"
    by code_simp
  finally show ?thesis by (simp add: auto_full_def)
qed

end
