(* ===== verification/Live_Queue.thy ===== *)
theory Live_Queue
  imports Stream_Types
begin

text \<open>
  The live queue of a best-effort subscriber, \<open>BestEffortLiveQueue\<close> of \<open>backend/broadcast/state.rs\<close>.
  The queue's mutex makes every operation one atomic step; \<open>recv\<close> is the poll of its future, which is
  pending exactly while the queue is empty and open.

  \<open>queue_run\<close> is any interleaving of a producer and a consumer.  The main lemma is that what the
  consumer gets is what the producer pushed, in order, with every run of lost events replaced by a
  gap marker: nothing is lost silently, duplicated or reordered.
\<close>

record indexed_event =
  seq :: u64
  ie_event :: stream_event

definition indexed :: "u64 \<Rightarrow> stream_event \<Rightarrow> indexed_event" where
  "indexed n ev = \<lparr>seq = n, ie_event = ev\<rparr>"

lemma indexed_simps [simp]: "seq (indexed n ev) = n" "ie_event (indexed n ev) = ev"
  by (simp_all add: indexed_def)

record live_queue =
  lq_capacity :: usize
  lq_events :: "indexed_event list"
  lq_closed :: bool

definition live_queue_new :: "usize \<Rightarrow> live_queue" where
  "live_queue_new capacity = \<lparr>lq_capacity = capacity, lq_events = [], lq_closed = False\<rparr>"

definition live_queue_push :: "live_queue \<Rightarrow> indexed_event \<Rightarrow> bool \<times> live_queue" where
  "live_queue_push q event =
     (if lq_closed q then (False, q)
      else
        (True,
         if is_terminal (ie_event event)
         then q\<lparr>lq_events := lq_events q @ [event], lq_closed := True\<rparr>
         else if lq_capacity q \<le> length (lq_events q)
         then q\<lparr>lq_events := [indexed (seq event) Gap] @ (if 1 < lq_capacity q then [event] else [])\<rparr>
         else q\<lparr>lq_events := lq_events q @ [event]\<rparr>))"

definition live_queue_recv :: "live_queue \<Rightarrow> indexed_event option poll_result \<times> live_queue" where
  "live_queue_recv q =
     (case lq_events q of
        event # rest \<Rightarrow> (Ready (Some event), q\<lparr>lq_events := rest\<rparr>)
      | [] \<Rightarrow> if lq_closed q then (Ready None, q) else (Pending, q))"

definition live_queue_close :: "live_queue \<Rightarrow> live_queue" where
  "live_queue_close q = q\<lparr>lq_closed := True\<rparr>"

section \<open>Lossy delivery\<close>

text \<open>\<open>lossy received pushed\<close>: the pushed events in order, with non-empty runs replaced by a gap marker.\<close>

inductive lossy :: "indexed_event list \<Rightarrow> indexed_event list \<Rightarrow> bool" where
  lossy_Nil: "lossy [] []"
| lossy_keep: "lossy r p \<Longrightarrow> lossy (r @ [e]) (p @ [e])"
| lossy_gap: "lossy r p \<Longrightarrow> lost \<noteq> [] \<Longrightarrow> ie_event g = Gap \<Longrightarrow> lossy (r @ [g]) (p @ lost)"

lemma lossy_split:
  "lossy rq p \<Longrightarrow> rq = r @ q \<Longrightarrow> \<exists>p1 p2. p = p1 @ p2 \<and> lossy r p1 \<and> (q \<noteq> [] \<longrightarrow> p2 \<noteq> [])"
proof (induction arbitrary: r q rule: lossy.induct)
  case lossy_Nil
  then show ?case using lossy.lossy_Nil by simp
next
  case (lossy_keep r0 p e)
  show ?case
  proof (cases q rule: rev_cases)
    case Nil
    then show ?thesis using lossy_keep lossy.lossy_keep by (intro exI [of _ "p @ [e]"] exI [of _ "[]"]) auto
  next
    case (snoc q' x)
    then have "r0 = r @ q'" using lossy_keep.prems by simp
    then obtain p1 p2 where "p = p1 @ p2" "lossy r p1" using lossy_keep.IH by blast
    then show ?thesis by (intro exI [of _ p1] exI [of _ "p2 @ [e]"]) simp
  qed
next
  case (lossy_gap r0 p lost g)
  show ?case
  proof (cases q rule: rev_cases)
    case Nil
    then show ?thesis using lossy_gap lossy.lossy_gap by (intro exI [of _ "p @ lost"] exI [of _ "[]"]) auto
  next
    case (snoc q' x)
    then have "r0 = r @ q'" using lossy_gap.prems by simp
    then obtain p1 p2 where "p = p1 @ p2" "lossy r p1" using lossy_gap.IH by blast
    then show ?thesis using lossy_gap.hyps by (intro exI [of _ p1] exI [of _ "p2 @ lost"]) simp
  qed
qed

text \<open>Received events other than gap markers were pushed, in order.\<close>

lemma lossy_subseq:
  "lossy r p \<Longrightarrow> subseq (filter (\<lambda>e. ie_event e \<noteq> Gap) r) (filter (\<lambda>e. ie_event e \<noteq> Gap) p)"
  by (induction rule: lossy.induct) (auto intro: list_emb_append_mono subseq_rev_drop_many)

text \<open>Without gap markers nothing is missing.\<close>

lemma lossy_complete:
  "lossy r p \<Longrightarrow> \<forall>e\<in>set r. ie_event e \<noteq> Gap \<Longrightarrow> r = p"
  by (induction rule: lossy.induct) auto

section \<open>Producer and consumer\<close>

inductive queue_run :: "usize \<Rightarrow> live_queue \<Rightarrow> indexed_event list \<Rightarrow> indexed_event list \<Rightarrow> bool"
  for capacity where
  qr_new: "queue_run capacity (live_queue_new capacity) [] []"
| qr_push: "queue_run capacity q p r \<Longrightarrow> live_queue_push q e = (True, q') \<Longrightarrow> queue_run capacity q' (p @ [e]) r"
| qr_refused: "queue_run capacity q p r \<Longrightarrow> live_queue_push q e = (False, q') \<Longrightarrow> queue_run capacity q' p r"
| qr_recv: "queue_run capacity q p r \<Longrightarrow> live_queue_recv q = (Ready (Some e), q') \<Longrightarrow> queue_run capacity q' p (r @ [e])"
| qr_close: "queue_run capacity q p r \<Longrightarrow> queue_run capacity (live_queue_close q) p r"

lemma push_lossy:
  assumes "lossy (r @ lq_events q) p" and "live_queue_push q e = (True, q')"
  shows "lossy (r @ lq_events q') (p @ [e])"
proof -
  have open_q: "\<not> lq_closed q" using assms(2) by (auto simp: live_queue_push_def split: if_splits)
  consider (append) "lq_events q' = lq_events q @ [e]"
    | (overflow) "lq_capacity q \<le> length (lq_events q)"
        "lq_events q' = indexed (seq e) Gap # (if 1 < lq_capacity q then [e] else [])"
    using assms(2) open_q by (auto simp: live_queue_push_def split: if_splits)
  then show ?thesis
  proof cases
    case append
    then show ?thesis using lossy_keep [OF assms(1), of e] by simp
  next
    case overflow
    let ?g = "indexed (seq e) Gap"
    obtain p1 p2 where p: "p = p1 @ p2" "lossy r p1" "lq_events q \<noteq> [] \<longrightarrow> p2 \<noteq> []"
      using lossy_split [OF assms(1) refl] by blast
    show ?thesis
    proof (cases "1 < lq_capacity q")
      case True
      then have "p2 \<noteq> []" using overflow(1) p(3) by auto
      then have "lossy (r @ [?g]) (p1 @ p2)" using lossy_gap [OF p(2), of p2 ?g] by simp
      from lossy_keep [OF this, of e] show ?thesis using overflow(2) True p(1) by simp
    next
      case False
      then show ?thesis using lossy_gap [OF p(2), of "p2 @ [e]" ?g] overflow(2) p(1) by simp
    qed
  qed
qed

lemma queue_run_lossy: "queue_run capacity q p r \<Longrightarrow> lossy (r @ lq_events q) p"
proof (induction rule: queue_run.induct)
  case qr_new
  then show ?case by (simp add: live_queue_new_def lossy_Nil)
next
  case (qr_push q p r e q')
  then show ?case using push_lossy by blast
next
  case (qr_refused q p r e q')
  then show ?case by (auto simp: live_queue_push_def split: if_splits)
next
  case (qr_recv q p r e q')
  then show ?case by (auto simp: live_queue_recv_def split: list.splits if_splits)
next
  case (qr_close q p r)
  then show ?case by (simp add: live_queue_close_def)
qed

lemma queue_run_bound:
  "queue_run capacity q p r \<Longrightarrow>
     lq_capacity q = capacity \<and>
     length (lq_events q) \<le> max capacity 1 + (if lq_closed q then 1 else 0)"
  by (induction rule: queue_run.induct)
    (auto simp: live_queue_new_def live_queue_push_def live_queue_recv_def live_queue_close_def
      split: if_splits list.splits)

text \<open>Every queued or received event, gap markers included, carries the number of a pushed event.\<close>

lemma queue_run_seq:
  "queue_run capacity q p r \<Longrightarrow> \<forall>x\<in>set (r @ lq_events q). seq x \<in> seq ` set p"
proof (induction rule: queue_run.induct)
  case (qr_push q p r e q')
  then show ?case by (auto simp: live_queue_push_def split: if_splits)
next
  case (qr_recv q p r e q')
  then show ?case by (auto simp: live_queue_recv_def split: list.splits if_splits)
qed (auto simp: live_queue_new_def live_queue_push_def live_queue_close_def split: if_splits)

lemma queue_run_terminal:
  "queue_run capacity q p r \<Longrightarrow> t \<in> set p \<Longrightarrow> is_terminal (ie_event t) \<Longrightarrow>
   lq_closed q \<and> (\<exists>p'. p = p' @ [t]) \<and> (\<exists>rs. r @ lq_events q = rs @ [t])"
proof (induction rule: queue_run.induct)
  case (qr_push q p r e q')
  have open_q: "\<not> lq_closed q" using qr_push.hyps(2) by (auto simp: live_queue_push_def split: if_splits)
  then have "t = e" using qr_push by auto
  then show ?case
    using qr_push.hyps(2) qr_push.prems(2) open_q by (auto simp: live_queue_push_def)
next
  case (qr_recv q p r e q')
  then show ?case by (auto simp: live_queue_recv_def split: list.splits if_splits)
qed (auto simp: live_queue_new_def live_queue_push_def live_queue_close_def split: if_splits)

section \<open>Properties of the live queue\<close>

text \<open>In every interleaving of a producer and a consumer on a best-effort queue, what was received
  and what is still queued is exactly what was pushed, in order, except that runs of lost events are
  replaced by a gap marker; so no event is lost silently, duplicated or reordered.\<close>

theorem live_queue_lossy:
  assumes "queue_run capacity q pushed received"
  shows "lossy (received @ lq_events q) pushed"
  using assms by (rule queue_run_lossy)

definition example_chunk :: "nat \<Rightarrow> indexed_event" where
  "example_chunk n = indexed n (Chunk ''x'')"

lemma example_queue_run:
  "\<exists>q. queue_run 1 q [example_chunk 0, example_chunk 1] [indexed 1 Gap] \<and> lq_events q = []"
proof -
  let ?q1 = "snd (live_queue_push (live_queue_new 1) (example_chunk 0))"
  let ?q2 = "snd (live_queue_push ?q1 (example_chunk 1))"
  let ?q3 = "snd (live_queue_recv ?q2)"
  have "queue_run 1 ?q1 ([] @ [example_chunk 0]) []"
    by (rule qr_push [OF qr_new]) (simp add: live_queue_push_def live_queue_new_def example_chunk_def)
  then have "queue_run 1 ?q2 (([] @ [example_chunk 0]) @ [example_chunk 1]) []"
    by (rule qr_push) (simp add: live_queue_push_def live_queue_new_def example_chunk_def)
  then have "queue_run 1 ?q3 (([] @ [example_chunk 0]) @ [example_chunk 1]) ([] @ [indexed 1 Gap])"
    by (rule qr_recv) (simp add: live_queue_push_def live_queue_new_def live_queue_recv_def example_chunk_def)
  moreover have "lq_events ?q3 = []"
    by (simp add: live_queue_push_def live_queue_new_def live_queue_recv_def example_chunk_def)
  ultimately show ?thesis by auto
qed

theorem live_queue_lossy_witness:
  "lossy [indexed 1 Gap] [example_chunk 0, example_chunk 1]"
  using live_queue_lossy example_queue_run by fastforce

text \<open>A best-effort queue never holds more events than its capacity (at least one), plus the
  terminal event, and a pushed terminal event is never lost: it stays the last event the consumer
  gets, and nothing is accepted after it.\<close>

theorem live_queue_bounded:
  assumes "queue_run capacity q pushed received"
  shows "length (lq_events q) \<le> max capacity 1 + 1 \<and>
     (t \<in> set pushed \<and> is_terminal (ie_event t) \<longrightarrow>
        last pushed = t \<and> last (received @ lq_events q) = t \<and> (\<forall>e. fst (live_queue_push q e) = False))"
proof -
  have "last pushed = t \<and> last (received @ lq_events q) = t \<and> (\<forall>e. fst (live_queue_push q e) = False)"
    if t: "t \<in> set pushed" "is_terminal (ie_event t)"
  proof -
    obtain p' rs where "lq_closed q" "pushed = p' @ [t]" "received @ lq_events q = rs @ [t]"
      using queue_run_terminal [OF assms t] by blast
    then show ?thesis by (simp add: live_queue_push_def)
  qed
  then show ?thesis using queue_run_bound [OF assms] by (auto split: if_splits)
qed

theorem live_queue_bounded_witness:
  "\<exists>q. queue_run 1 q [example_chunk 0, example_chunk 1] [indexed 1 Gap] \<and> length (lq_events q) \<le> 2"
  using live_queue_bounded example_queue_run by fastforce

end
