(* ===== verification/Replay_Window.thy ===== *)
theory Replay_Window
  imports Stream_Types
begin

text \<open>
  What replay retention promises, independently of the backend: \<open>window_spec\<close> gives the chunks that a
  retention setting keeps of all chunks so far (\<open>policy.rs\<close>: the latest number of chunks, whole chunks
  covering at least the latest number of bytes, or everything).

  The locale \<open>replay_window\<close> is the contract of a backend's replay buffer: pushing a chunk leaves the
  specified window of what was there and the new chunk, with exact counters.  Both backends, the
  broadcast and the single-subscriber one, are interpretations; the lemmas on whole streams are
  proved here once.
\<close>

abbreviation total_len :: "bytes list \<Rightarrow> nat" where
  "total_len cs \<equiv> sum_list (map length cs)"

text \<open>The shortest suffix that still covers \<open>b\<close> bytes, or everything if nothing does.\<close>

fun cover :: "nat \<Rightarrow> bytes list \<Rightarrow> bytes list" where
  "cover b [] = []"
| "cover b (c # cs) = (if b \<le> total_len cs then cover b cs else c # cs)"

fun window_spec :: "replay_retention option \<Rightarrow> bytes list \<Rightarrow> bytes list" where
  "window_spec None cs = []"
| "window_spec (Some (LastChunks n)) cs = last_n n cs"
| "window_spec (Some (LastBytes b)) cs = (if bytes b = 0 then [] else cover (bytes b) cs)"
| "window_spec (Some RetainAll) cs = cs"

lemma cover_suffix: "suffix (cover b cs) cs"
  by (induction cs) (auto intro: suffix_ConsI)

lemma cover_total: "min b (total_len cs) \<le> total_len (cover b cs)"
  by (induction cs) auto

lemma cover_tight: "cover b cs = c # rest \<Longrightarrow> 0 < b \<Longrightarrow> total_len rest < b"
  by (induction cs) (auto split: if_splits)

lemma cover_append: "cover b (cover b cs @ ds) = cover b (cs @ ds)"
  by (induction cs) auto

lemma cover_nonempty: "0 < b \<Longrightarrow> cs \<noteq> [] \<Longrightarrow> cover b cs \<noteq> []"
proof (induction cs)
  case (Cons c cs)
  then show ?case by (cases cs) auto
qed simp

lemma window_spec_Nil [simp]: "window_spec r [] = []"
  by (cases "(r, [] :: bytes list)" rule: window_spec.cases) auto

lemma window_spec_append: "window_spec r (window_spec r cs @ ds) = window_spec r (cs @ ds)"
  by (cases "(r, cs)" rule: window_spec.cases) (auto simp: last_n_append_last_n cover_append)

lemma window_spec_suffix: "suffix (window_spec r cs) cs"
  by (cases "(r, cs)" rule: window_spec.cases) (auto simp: last_n_def suffix_drop cover_suffix)

lemma window_spec_last:
  assumes "retention_ok r" and "r \<noteq> None"
  shows "window_spec r (cs @ [c]) \<noteq> []"
proof (cases "(r, cs)" rule: window_spec.cases)
  case (2 n cs')
  then show ?thesis using assms by (auto simp: retention_ok_def last_n_def)
qed (use assms in \<open>auto simp: retention_ok_def cover_nonempty\<close>)

text \<open>The sizes the documentation promises for a byte-bounded window: at least the requested bytes
  (or everything), and less than that plus one chunk.\<close>

lemma window_spec_bytes:
  assumes "0 < bytes b" and "\<forall>c\<in>set cs. length c \<le> k" and "0 < k"
  shows "min (bytes b) (total_len cs) \<le> total_len (window_spec (Some (LastBytes b)) cs)"
    and "total_len (window_spec (Some (LastBytes b)) cs) < bytes b + k"
proof -
  show "min (bytes b) (total_len cs) \<le> total_len (window_spec (Some (LastBytes b)) cs)"
    using assms(1) cover_total by simp
  show "total_len (window_spec (Some (LastBytes b)) cs) < bytes b + k"
  proof (cases "cover (bytes b) cs")
    case Nil
    then show ?thesis using assms by simp
  next
    case (Cons c rest)
    have "c \<in> set cs" using set_mono_suffix [OF cover_suffix [of "bytes b" cs]] Cons by auto
    then have "length c \<le> k" using assms(2) by blast
    then show ?thesis using cover_tight [OF Cons assms(1)] Cons assms(1) by simp
  qed
qed

locale replay_window =
  fixes r :: "replay_retention option" and new :: 's and push :: "'s \<Rightarrow> bytes \<Rightarrow> 's outcome"
    and window :: "'s \<Rightarrow> bytes list" and inv :: "'s \<Rightarrow> bool"
  assumes new_window: "inv new" "window new = []"
    and push_window: "inv s \<Longrightarrow> r \<noteq> None \<Longrightarrow>
          \<exists>s'. push s c = Inr s' \<and> inv s' \<and> window s' = window_spec r (window s @ [c])"
begin

lemma push_chunks_from:
  assumes "inv s" and "r \<noteq> None" and "window s = window_spec r ds"
  shows "\<exists>s'. push_all push s cs = Inr s' \<and> inv s' \<and> window s' = window_spec r (ds @ cs)"
  using assms(1,3)
proof (induction cs arbitrary: s ds)
  case (Cons c cs)
  obtain s' where s': "push s c = Inr s'" "inv s'" "window s' = window_spec r (window s @ [c])"
    using push_window [OF Cons.prems(1) assms(2)] by blast
  then have "window s' = window_spec r (ds @ [c])"
    using Cons.prems(2) window_spec_append by simp
  from Cons.IH [OF s'(2) this] show ?case using s'(1) by simp
qed auto

text \<open>After any number of chunks the buffer holds exactly the window of all of them.\<close>

lemma window_of_stream:
  "r \<noteq> None \<Longrightarrow> \<exists>s. push_all push new cs = Inr s \<and> inv s \<and> window s = window_spec r cs"
  using push_chunks_from [of new "[]" cs] new_window by simp

end

end
