(* ===== verification/Broadcast_State.thy ===== *)
theory Broadcast_State
  imports Live_Queue Replay_Window
begin

text \<open>
  The shared state of the fan-out broadcast backend, \<open>BroadcastState\<close> of \<open>backend/broadcast/state.rs\<close>:
  sequence numbers, the replay window with its counters, the subscriber registry, sealing and
  closing.  The registry is an association list; the order in which the code iterates its hash map
  is not observable, because every subscriber has a channel of its own.  A sender is the address of
  its channel, so that the sharing of a queue between registry and subscription is explicit.

  \<open>replay_ok\<close> is the invariant; every operation keeps it and none of the subtractions or loops can
  panic or diverge under it.  The window is interpreted as a \<open>replay_window\<close>.
\<close>

section \<open>State\<close>

datatype subscriber_sender = ReliableSender nat | BestEffortSender nat

fun sender_addr :: "subscriber_sender \<Rightarrow> nat" where
  "sender_addr (ReliableSender a) = a"
| "sender_addr (BestEffortSender a) = a"

record broadcast_state =
  bs_replay :: "indexed_event list"
  next_seq :: u64
  replay_start_seq :: u64
  replay_chunk_count :: usize
  replay_byte_count :: usize
  next_subscriber_id :: u64
  subscribers :: "(u64 \<times> subscriber_sender) list"
  bs_replay_sealed :: bool
  bs_terminal :: "indexed_event option"
  bs_closed :: bool

definition broadcast_state_new :: broadcast_state where
  "broadcast_state_new =
     \<lparr>bs_replay = [], next_seq = 0, replay_start_seq = 0, replay_chunk_count = 0, replay_byte_count = 0,
      next_subscriber_id = 0, subscribers = [], bs_replay_sealed = False, bs_terminal = None, bs_closed = False\<rparr>"

definition front_seq :: "broadcast_state \<Rightarrow> u64" where
  "front_seq st = (case bs_replay st of [] \<Rightarrow> next_seq st | event # _ \<Rightarrow> seq event)"

definition clear_replay :: "broadcast_state \<Rightarrow> broadcast_state" where
  "clear_replay st = st\<lparr>bs_replay := [], replay_chunk_count := 0, replay_byte_count := 0\<rparr>"

definition bs_pop_replay_front ::
  "broadcast_state \<Rightarrow> (indexed_event option \<times> broadcast_state) outcome" where
  "bs_pop_replay_front st =
     (case bs_replay st of
        [] \<Rightarrow> Inr (None, st)
      | event # rest \<Rightarrow>
          (let st1 = st\<lparr>bs_replay := rest\<rparr> in
           case (case ie_event event of
                   Chunk chunk \<Rightarrow>
                     (case usize_sub (replay_chunk_count st1) 1 of
                        Inl e \<Rightarrow> Inl e
                      | Inr n \<Rightarrow>
                          (case usize_sub (replay_byte_count st1) (length chunk) of
                             Inl e \<Rightarrow> Inl e
                           | Inr m \<Rightarrow> Inr (st1\<lparr>replay_chunk_count := n, replay_byte_count := m\<rparr>)))
                 | _ \<Rightarrow> Inr st1) of
             Inl e \<Rightarrow> Inl e
           | Inr st2 \<Rightarrow> Inr (Some event, st2\<lparr>replay_start_seq := front_seq st2\<rparr>)))"

lemma bs_pop_replay_front_shrinks:
  "bs_pop_replay_front st = Inr (Some event, st') \<Longrightarrow> length (bs_replay st') < length (bs_replay st)"
  by (auto simp: bs_pop_replay_front_def Let_def split: list.splits stream_event.splits sum.splits)

function bs_trim_chunks_loop :: "nat \<Rightarrow> broadcast_state \<Rightarrow> broadcast_state outcome" where
  "bs_trim_chunks_loop chunks st =
     (if chunks < replay_chunk_count st
      then (case bs_pop_replay_front st of
              Inl e \<Rightarrow> Inl e
            | Inr (None, st') \<Rightarrow> Inl Diverges
            | Inr (Some _, st') \<Rightarrow> bs_trim_chunks_loop chunks st')
      else Inr st)"
  by pat_completeness auto
termination
  by (relation "measure (\<lambda>(n, st). length (bs_replay st))") (auto dest: bs_pop_replay_front_shrinks)

function bs_trim_bytes_loop :: "nat \<Rightarrow> broadcast_state \<Rightarrow> broadcast_state outcome" where
  "bs_trim_bytes_loop limit_b st =
     (case bs_replay st of
        [] \<Rightarrow> Inr st
      | event # _ \<Rightarrow>
          (case ie_event event of
             Chunk chunk \<Rightarrow>
               if limit_b \<le> saturating_sub (replay_byte_count st) (length chunk)
               then (case bs_pop_replay_front st of
                       Inl e \<Rightarrow> Inl e
                     | Inr (None, st') \<Rightarrow> Inl Diverges
                     | Inr (Some _, st') \<Rightarrow> bs_trim_bytes_loop limit_b st')
               else Inr st
           | _ \<Rightarrow> Inr st))"
  by pat_completeness auto
termination
  by (relation "measure (\<lambda>(n, st). length (bs_replay st))") (auto dest: bs_pop_replay_front_shrinks)

declare bs_trim_chunks_loop.simps [simp del] bs_trim_bytes_loop.simps [simp del]

definition bs_trim_replay_window ::
  "broadcast_state \<Rightarrow> replay_retention option \<Rightarrow> broadcast_state outcome" where
  "bs_trim_replay_window st retention =
     (case (case retention of
              None \<Rightarrow> Inr (clear_replay st)
            | Some (LastChunks chunks) \<Rightarrow>
                if chunks = 0 then Inr (clear_replay st)
                else if bs_replay_sealed st then Inr (clear_replay st)
                else bs_trim_chunks_loop chunks st
            | Some (LastBytes b) \<Rightarrow>
                if bs_replay_sealed st then Inr (clear_replay st)
                else if bytes b = 0 then Inr (clear_replay st)
                else bs_trim_bytes_loop (bytes b) st
            | Some RetainAll \<Rightarrow>
                if bs_replay_sealed st then Inr (clear_replay st) else Inr st) of
        Inl e \<Rightarrow> Inl e
      | Inr st' \<Rightarrow> Inr (st'\<lparr>replay_start_seq := front_seq st'\<rparr>))"

definition push_event ::
  "broadcast_state \<Rightarrow> stream_event \<Rightarrow> stream_config \<Rightarrow> (indexed_event \<times> broadcast_state) outcome" where
  "push_event st event options =
     (let ie = indexed (next_seq st) event;
          st1 = st\<lparr>next_seq := next_seq st + 1\<rparr>
      in case event of
           Chunk chunk \<Rightarrow>
             if config_replay_retention options \<noteq> None \<and> \<not> bs_replay_sealed st1
             then (case bs_trim_replay_window
                          (st1\<lparr>replay_chunk_count := replay_chunk_count st1 + 1,
                               replay_byte_count := replay_byte_count st1 + length chunk,
                               bs_replay := bs_replay st1 @ [ie]\<rparr>)
                          (config_replay_retention options) of
                     Inl e \<Rightarrow> Inl e
                   | Inr st2 \<Rightarrow> Inr (ie, st2))
             else Inr (ie, st1)
         | Eof \<Rightarrow> Inr (ie, st1\<lparr>bs_terminal := Some ie\<rparr>)
         | ReadError _ \<Rightarrow> Inr (ie, st1\<lparr>bs_terminal := Some ie\<rparr>)
         | Gap \<Rightarrow> Inr (ie, st1))"

definition replay_snapshot :: "broadcast_state \<Rightarrow> stream_config \<Rightarrow> indexed_event list \<times> u64" where
  "replay_snapshot st options =
     ((if config_replay_retention options \<noteq> None \<and> \<not> bs_replay_sealed st then bs_replay st else [])
        @ (case bs_terminal st of Some terminal \<Rightarrow> [terminal] | None \<Rightarrow> []),
      next_seq st)"

definition add_subscriber :: "broadcast_state \<Rightarrow> subscriber_sender \<Rightarrow> u64 \<times> broadcast_state" where
  "add_subscriber st sender =
     (let id = next_subscriber_id st in
      (id, st\<lparr>next_subscriber_id := next_subscriber_id st + 1, subscribers := subscribers st @ [(id, sender)]\<rparr>))"

definition remove_subscriber :: "broadcast_state \<Rightarrow> u64 \<Rightarrow> broadcast_state" where
  "remove_subscriber st sid = st\<lparr>subscribers := filter (\<lambda>(i, s). i \<noteq> sid) (subscribers st)\<rparr>"

definition seal_replay :: "broadcast_state \<Rightarrow> broadcast_state" where
  "seal_replay st =
     (let st1 = clear_replay (st\<lparr>bs_replay_sealed := True\<rparr>) in st1\<lparr>replay_start_seq := next_seq st1\<rparr>)"

text \<open>\<open>SubscriberSender::close\<close> closes a best-effort queue and does nothing to a reliable channel; the
  queues live in a store indexed by address.\<close>

fun sender_close :: "subscriber_sender \<Rightarrow> (nat \<Rightarrow> live_queue) \<Rightarrow> nat \<Rightarrow> live_queue" where
  "sender_close (ReliableSender a) queues = queues"
| "sender_close (BestEffortSender a) queues = queues(a := live_queue_close (queues a))"

definition close_for_drop ::
  "broadcast_state \<Rightarrow> (nat \<Rightarrow> live_queue) \<Rightarrow> broadcast_state \<times> (nat \<Rightarrow> live_queue)" where
  "close_for_drop st queues =
     (st\<lparr>bs_closed := True, subscribers := []\<rparr>,
      fold (\<lambda>(id, sender). sender_close sender) (subscribers st) queues)"

section \<open>Invariant\<close>

definition is_indexed_chunk :: "indexed_event \<Rightarrow> bool" where
  "is_indexed_chunk e = is_chunk (ie_event e)"

definition payload :: "indexed_event \<Rightarrow> bytes" where
  "payload e = (case ie_event e of Chunk c \<Rightarrow> c | _ \<Rightarrow> [])"

abbreviation bs_window :: "broadcast_state \<Rightarrow> bytes list" where
  "bs_window st \<equiv> map payload (bs_replay st)"

definition replay_ok :: "broadcast_state \<Rightarrow> bool" where
  "replay_ok st \<longleftrightarrow>
     list_all is_indexed_chunk (bs_replay st) \<and>
     replay_chunk_count st = length (bs_replay st) \<and>
     replay_byte_count st = total_len (bs_window st) \<and>
     sorted_wrt (<) (map seq (bs_replay st)) \<and>
     (\<forall>e\<in>set (bs_replay st). seq e < next_seq st) \<and>
     (bs_replay_sealed st \<longrightarrow> bs_replay st = [])"

lemma payload_indexed [simp]: "payload (indexed n (Chunk c)) = c"
  by (simp add: payload_def)

lemma replay_ok_Cons:
  assumes "replay_ok st" and "bs_replay st = e # rest"
  shows "bs_pop_replay_front st = Inr (Some e, st\<lparr>bs_replay := rest,
            replay_chunk_count := length rest, replay_byte_count := total_len (map payload rest),
            replay_start_seq := (case rest of [] \<Rightarrow> next_seq st | e' # _ \<Rightarrow> seq e')\<rparr>)"
proof -
  obtain c where "ie_event e = Chunk c"
    using assms by (cases "ie_event e") (auto simp: replay_ok_def is_indexed_chunk_def)
  then show ?thesis
    using assms by (cases rest) (simp_all add: bs_pop_replay_front_def replay_ok_def payload_def front_seq_def Let_def)
qed

lemma replay_ok_pop:
  assumes "replay_ok st" and "bs_replay st = e # rest"
  shows "replay_ok (st\<lparr>bs_replay := rest, replay_chunk_count := length rest,
            replay_byte_count := total_len (map payload rest), replay_start_seq := n\<rparr>)"
  using assms by (auto simp: replay_ok_def)

text \<open>What the two trimming loops leave.\<close>

definition trimmed :: "broadcast_state \<Rightarrow> broadcast_state \<Rightarrow> bytes list \<Rightarrow> bool" where
  "trimmed st st' w \<longleftrightarrow>
     replay_ok st' \<and> bs_window st' = w \<and> suffix (bs_replay st') (bs_replay st) \<and>
     next_seq st' = next_seq st \<and> next_subscriber_id st' = next_subscriber_id st \<and>
     subscribers st' = subscribers st \<and> bs_replay_sealed st' = bs_replay_sealed st \<and>
     bs_terminal st' = bs_terminal st \<and> bs_closed st' = bs_closed st"

lemma trim_chunks:
  "replay_ok st \<Longrightarrow> \<exists>st'. bs_trim_chunks_loop n st = Inr st' \<and> trimmed st st' (last_n n (bs_window st))"
proof (induction "bs_replay st" arbitrary: st)
  case Nil
  then have "bs_trim_chunks_loop n st = Inr st"
    by (subst bs_trim_chunks_loop.simps) (simp add: replay_ok_def)
  then show ?case using Nil by (simp add: trimmed_def last_n_def)
next
  case (Cons e rest)
  let ?st = "st\<lparr>bs_replay := rest, replay_chunk_count := length rest,
            replay_byte_count := total_len (map payload rest),
            replay_start_seq := (case rest of [] \<Rightarrow> next_seq st | e' # _ \<Rightarrow> seq e')\<rparr>"
  show ?case
  proof (cases "n < length (bs_replay st)")
    case True
    obtain st' where st': "bs_trim_chunks_loop n ?st = Inr st'" "trimmed ?st st' (last_n n (map payload rest))"
      using Cons.hyps(1) [of ?st] replay_ok_pop [OF Cons.prems Cons.hyps(2) [symmetric]] by auto
    have "bs_trim_chunks_loop n st = bs_trim_chunks_loop n ?st"
      using True Cons.prems replay_ok_Cons [OF Cons.prems Cons.hyps(2) [symmetric]]
      by (subst bs_trim_chunks_loop.simps) (simp add: replay_ok_def)
    moreover have "last_n n (bs_window st) = last_n n (map payload rest)"
      using True Cons.hyps(2) [symmetric] by (simp add: last_n_def Suc_diff_le)
    ultimately show ?thesis
      using st' Cons.hyps(2) [symmetric] by (auto simp: trimmed_def intro: suffix_ConsI)
  next
    case False
    then have "bs_trim_chunks_loop n st = Inr st"
      using Cons.prems by (subst bs_trim_chunks_loop.simps) (simp add: replay_ok_def)
    then show ?thesis using False Cons.prems by (simp add: trimmed_def)
  qed
qed

lemma trim_bytes:
  "replay_ok st \<Longrightarrow> \<exists>st'. bs_trim_bytes_loop b st = Inr st' \<and> trimmed st st' (cover b (bs_window st))"
proof (induction "bs_replay st" arbitrary: st)
  case Nil
  then have "bs_trim_bytes_loop b st = Inr st"
    by (subst bs_trim_bytes_loop.simps) (simp add: Nil(1) [symmetric])
  then show ?case using Nil(1) [symmetric] Nil(2) by (simp add: trimmed_def)
next
  case (Cons e rest)
  let ?st = "st\<lparr>bs_replay := rest, replay_chunk_count := length rest,
            replay_byte_count := total_len (map payload rest),
            replay_start_seq := (case rest of [] \<Rightarrow> next_seq st | e' # _ \<Rightarrow> seq e')\<rparr>"
  note st = Cons.hyps(2) [symmetric]
  obtain c where c: "ie_event e = Chunk c" "payload e = c"
    using Cons.prems st by (cases "ie_event e") (auto simp: replay_ok_def is_indexed_chunk_def payload_def)
  show ?case
  proof (cases "b \<le> total_len (map payload rest)")
    case True
    obtain st' where st': "bs_trim_bytes_loop b ?st = Inr st'" "trimmed ?st st' (cover b (map payload rest))"
      using Cons.hyps(1) [of ?st] replay_ok_pop [OF Cons.prems st] by auto
    have "bs_trim_bytes_loop b st = bs_trim_bytes_loop b ?st"
      using True Cons.prems replay_ok_Cons [OF Cons.prems st] c st
      by (subst bs_trim_bytes_loop.simps) (simp add: replay_ok_def)
    then show ?thesis using st' st True by (auto simp: trimmed_def intro: suffix_ConsI)
  next
    case False
    then have "bs_trim_bytes_loop b st = Inr st"
      using Cons.prems c st by (subst bs_trim_bytes_loop.simps) (simp add: replay_ok_def)
    then show ?thesis using False Cons.prems st by (simp add: trimmed_def)
  qed
qed

lemma replay_ok_start [simp]: "replay_ok (st\<lparr>replay_start_seq := n\<rparr>) = replay_ok st"
  by (simp add: replay_ok_def)

lemma trimmed_start: "trimmed st st' w \<Longrightarrow> trimmed st (st'\<lparr>replay_start_seq := n\<rparr>) w"
  by (simp add: trimmed_def)

lemma trim_window:
  assumes "replay_ok st" and "\<not> bs_replay_sealed st"
  shows "\<exists>st'. bs_trim_replay_window st r = Inr (st'\<lparr>replay_start_seq := front_seq st'\<rparr>) \<and>
           trimmed st st' (window_spec r (bs_window st))"
proof -
  have cleared: "trimmed st (clear_replay st) []"
    by (simp add: trimmed_def clear_replay_def replay_ok_def)
  show ?thesis
  proof (cases r)
    case None
    then show ?thesis using cleared by (auto simp: bs_trim_replay_window_def)
  next
    case (Some ret)
    show ?thesis
    proof (cases ret)
      case (LastChunks n)
      then show ?thesis
        using cleared trim_chunks [OF assms(1), of n] assms(2) Some by (auto simp: bs_trim_replay_window_def)
    next
      case (LastBytes b)
      then show ?thesis
        using cleared trim_bytes [OF assms(1), of "bytes b"] assms(2) Some by (auto simp: bs_trim_replay_window_def)
    next
      case RetainAll
      then show ?thesis
        using assms Some by (auto simp: bs_trim_replay_window_def trimmed_def)
    qed
  qed
qed

text \<open>Everything \<open>push_event\<close> does: it never panics, hands out the next sequence number, keeps the
  invariant, and changes the window only for a chunk that is retained.\<close>

definition retains :: "broadcast_state \<Rightarrow> stream_config \<Rightarrow> stream_event \<Rightarrow> bool" where
  "retains st options ev \<longleftrightarrow>
     is_chunk ev \<and> config_replay_retention options \<noteq> None \<and> \<not> bs_replay_sealed st"

definition pushed :: "broadcast_state \<Rightarrow> stream_event \<Rightarrow> stream_config \<Rightarrow> broadcast_state \<Rightarrow> bool" where
  "pushed st ev options st' \<longleftrightarrow>
     replay_ok st' \<and> next_seq st' = next_seq st + 1 \<and>
     suffix (bs_replay st') (if retains st options ev then bs_replay st @ [indexed (next_seq st) ev] else bs_replay st) \<and>
     bs_window st' = (if retains st options ev
        then window_spec (config_replay_retention options) (bs_window st @ [payload (indexed 0 ev)]) else bs_window st) \<and>
     bs_terminal st' = (if is_terminal ev then Some (indexed (next_seq st) ev) else bs_terminal st) \<and>
     subscribers st' = subscribers st \<and> next_subscriber_id st' = next_subscriber_id st \<and>
     bs_replay_sealed st' = bs_replay_sealed st \<and> bs_closed st' = bs_closed st"

lemma push_event_ok:
  assumes "replay_ok st"
  shows "\<exists>st'. push_event st ev options = Inr (indexed (next_seq st) ev, st') \<and> pushed st ev options st'"
proof (cases "retains st options ev")
  case True
  then obtain c where c: "ev = Chunk c" by (cases ev) (auto simp: retains_def)
  let ?st = "st\<lparr>next_seq := next_seq st + 1, replay_chunk_count := replay_chunk_count st + 1,
               replay_byte_count := replay_byte_count st + length c,
               bs_replay := bs_replay st @ [indexed (next_seq st) ev]\<rparr>"
  have ok: "replay_ok ?st"
    using assms True c
    by (auto simp: replay_ok_def retains_def is_indexed_chunk_def payload_def sorted_wrt_append less_Suc_eq)
  obtain st' where st': "bs_trim_replay_window ?st (config_replay_retention options) = Inr (st'\<lparr>replay_start_seq := front_seq st'\<rparr>)"
      "trimmed ?st st' (window_spec (config_replay_retention options) (bs_window ?st))"
    using trim_window [OF ok] True by (auto simp: retains_def)
  have "push_event st ev options = Inr (indexed (next_seq st) ev, st'\<lparr>replay_start_seq := front_seq st'\<rparr>)"
    using st'(1) True c by (simp add: push_event_def retains_def Let_def)
  moreover have "pushed st ev options (st'\<lparr>replay_start_seq := front_seq st'\<rparr>)"
    using st'(2) True c by (simp add: trimmed_def pushed_def retains_def)
  ultimately show ?thesis by blast
next
  case False
  let ?st = "st\<lparr>next_seq := next_seq st + 1\<rparr>"
  let ?st' = "if is_terminal ev then ?st\<lparr>bs_terminal := Some (indexed (next_seq st) ev)\<rparr> else ?st"
  have ok: "replay_ok ?st'" using assms by (auto simp: replay_ok_def less_Suc_eq)
  have "push_event st ev options = Inr (indexed (next_seq st) ev, ?st')"
  proof (cases ev)
    case (Chunk c)
    then have "\<not> (config_replay_retention options \<noteq> None \<and> \<not> bs_replay_sealed st)"
      using False by (simp add: retains_def)
    then show ?thesis using Chunk by (cases "bs_replay_sealed st") (simp_all add: push_event_def Let_def)
  qed (simp_all add: push_event_def Let_def)
  moreover have "pushed st ev options ?st'"
    using ok False by (simp add: pushed_def)
  ultimately show ?thesis by blast
qed

section \<open>The window as a replay window\<close>

definition push_chunk_event :: "stream_config \<Rightarrow> broadcast_state \<Rightarrow> bytes \<Rightarrow> broadcast_state outcome" where
  "push_chunk_event options st c =
     (case push_event st (Chunk c) options of Inl e \<Rightarrow> Inl e | Inr (_, st') \<Rightarrow> Inr st')"

interpretation broadcast_window: replay_window "config_replay_retention options" broadcast_state_new
  "push_chunk_event options" bs_window "\<lambda>st. replay_ok st \<and> \<not> bs_replay_sealed st"
  for options
proof
  fix st c
  assume st: "replay_ok st \<and> \<not> bs_replay_sealed st" and r: "config_replay_retention options \<noteq> None"
  obtain st' where st': "push_event st (Chunk c) options = Inr (indexed (next_seq st) (Chunk c), st')"
      "pushed st (Chunk c) options st'"
    using push_event_ok [of st "Chunk c" options] st by auto
  then show "\<exists>s'. push_chunk_event options st c = Inr s' \<and> (replay_ok s' \<and> \<not> bs_replay_sealed s') \<and>
      bs_window s' = window_spec (config_replay_retention options) (bs_window st @ [c])"
    using st r by (auto simp: push_chunk_event_def pushed_def retains_def)
qed (simp_all add: broadcast_state_new_def replay_ok_def)

section \<open>The other operations keep the invariant\<close>

lemma seal_replay_ok: "replay_ok st \<Longrightarrow> replay_ok (seal_replay st) \<and> bs_replay (seal_replay st) = []"
  by (simp add: seal_replay_def clear_replay_def replay_ok_def Let_def)

lemma add_subscriber_ok: "replay_ok st \<Longrightarrow> replay_ok (snd (add_subscriber st s))"
  by (simp add: add_subscriber_def replay_ok_def Let_def)

lemma remove_subscriber_ok: "replay_ok st \<Longrightarrow> replay_ok (remove_subscriber st i)"
  by (simp add: remove_subscriber_def replay_ok_def)

lemma close_for_drop_ok: "replay_ok st \<Longrightarrow> replay_ok (fst (close_for_drop st qs))"
  by (simp add: close_for_drop_def replay_ok_def)

end
