(* ===== verification/Broadcast.thy ===== *)
theory Broadcast
  imports Broadcast_State
begin

text \<open>
  The fan-out broadcast backend: publishing an event (\<open>append_event\<close>, \<open>state.rs\<close>), subscribing
  (\<open>try_subscribe\<close>, \<open>mod.rs\<close>), receiving, detaching and dropping a subscription (\<open>subscription.rs\<close>), and
  dropping the stream.

  \<open>append_event\<close> holds the lock only while it pushes the event and copies the registry; it then
  delivers to one subscriber after the other, awaiting each reliable send, and takes the lock again
  to remove stale subscribers.  These critical sections are definitions of their own, and \<open>fan_step\<close>
  interleaves them with subscribing, receiving, unsubscribing, sealing and dropping.

  tokio's bounded channel is the parameter \<open>mpsc_ops\<close>; \<open>mpsc_ok\<close> names what is relied on (first in,
  first out; a send fails only once the receiver is gone, and then for good).  The ghost fields of
  \<open>fan_sys\<close> record the published events and, per subscriber, its snapshot, what was handed to its
  channel and what it received.  The main lemmas: what is handed to a subscriber is a contiguous
  block of the published events that starts where its snapshot ends.
\<close>

section \<open>Channels and the shared world\<close>

record 'ch mpsc_ops =
  mpsc_channel :: "nat \<Rightarrow> 'ch"
  mpsc_send :: "'ch \<Rightarrow> indexed_event \<Rightarrow> bool poll_result \<times> 'ch"
  mpsc_recv :: "'ch \<Rightarrow> indexed_event option poll_result \<times> 'ch"
  mpsc_drop_rx :: "'ch \<Rightarrow> 'ch"

text \<open>What the code relies on, for some way of reading a channel's contents and whether its receiver
  is gone.\<close>

definition mpsc_ok :: "'ch mpsc_ops \<Rightarrow> ('ch \<Rightarrow> indexed_event list) \<Rightarrow> ('ch \<Rightarrow> bool) \<Rightarrow> bool" where
  "mpsc_ok ops contents gone \<longleftrightarrow>
     (\<forall>n. contents (mpsc_channel ops n) = []) \<and>
     (\<forall>c e c'. mpsc_send ops c e = (Ready True, c') \<longrightarrow> \<not> gone c \<and> gone c' = gone c \<and> contents c' = contents c @ [e]) \<and>
     (\<forall>c e c'. mpsc_send ops c e = (Ready False, c') \<longrightarrow> gone c' \<and> contents c' = contents c) \<and>
     (\<forall>c e c'. mpsc_send ops c e = (Pending, c') \<longrightarrow> gone c' = gone c \<and> contents c' = contents c) \<and>
     (\<forall>c e c'. mpsc_recv ops c = (Ready (Some e), c') \<longrightarrow> gone c' = gone c \<and> contents c = e # contents c') \<and>
     (\<forall>c. gone (mpsc_drop_rx ops c))"

record 'ch fan_world =
  w_state :: broadcast_state
  w_queues :: "nat \<Rightarrow> live_queue"
  w_chans :: "nat \<Rightarrow> 'ch"
  w_next_addr :: nat

section \<open>Publishing\<close>

definition append_lock ::
  "broadcast_state \<Rightarrow> stream_config \<Rightarrow> stream_event
     \<Rightarrow> ((indexed_event \<times> (u64 \<times> subscriber_sender) list \<times> bool) option \<times> broadcast_state) outcome" where
  "append_lock st options event =
     (if bs_closed st then Inr (None, st)
      else (case push_event st event options of
              Inl e \<Rightarrow> Inl e
            | Inr (ie, st1) \<Rightarrow>
                (let terminal = is_terminal (ie_event ie);
                     subs = subscribers st1;
                     st2 = (if terminal then st1\<lparr>subscribers := []\<rparr> else st1)
                 in Inr (Some (ie, subs, terminal), st2))))"

text \<open>One send of the delivery loop: whether the subscriber took the event.  A sender of the other
  kind is skipped (\<open>continue\<close>).\<close>

definition deliver_one ::
  "'ch mpsc_ops \<Rightarrow> delivery_guarantee \<Rightarrow> indexed_event \<Rightarrow> subscriber_sender \<Rightarrow> 'ch fan_world
     \<Rightarrow> bool poll_result \<times> 'ch fan_world" where
  "deliver_one ops g ie sender w =
     (case g of
        ReliableWithBackpressure \<Rightarrow>
          (case sender of
             ReliableSender a \<Rightarrow>
               (case mpsc_send ops (w_chans w a) ie of (r, ch') \<Rightarrow> (r, w\<lparr>w_chans := (w_chans w)(a := ch')\<rparr>))
           | BestEffortSender a \<Rightarrow> (Ready True, w))
      | LossyWithoutBackpressure \<Rightarrow>
          (case sender of
             BestEffortSender a \<Rightarrow>
               (case live_queue_push (w_queues w a) ie of
                  (ok, q') \<Rightarrow> (Ready ok, w\<lparr>w_queues := (w_queues w)(a := q')\<rparr>))
           | ReliableSender a \<Rightarrow> (Ready True, w)))"

definition append_cleanup :: "bool \<Rightarrow> u64 list \<Rightarrow> broadcast_state \<Rightarrow> broadcast_state" where
  "append_cleanup terminal stale st =
     (if \<not> terminal \<and> stale \<noteq> [] then fold (\<lambda>sid s. remove_subscriber s sid) stale st else st)"

text \<open>The whole of \<open>append_event\<close> when nothing else runs in between; a send that has to wait leaves it
  pending.\<close>

fun deliver_all ::
  "'ch mpsc_ops \<Rightarrow> delivery_guarantee \<Rightarrow> indexed_event \<Rightarrow> (u64 \<times> subscriber_sender) list \<Rightarrow> u64 list
     \<Rightarrow> 'ch fan_world \<Rightarrow> u64 list poll_result \<times> 'ch fan_world" where
  "deliver_all ops g ie [] stale w = (Ready stale, w)"
| "deliver_all ops g ie ((sid, sender) # rest) stale w =
     (case deliver_one ops g ie sender w of
        (Ready True, w') \<Rightarrow> deliver_all ops g ie rest stale w'
      | (Ready False, w') \<Rightarrow> deliver_all ops g ie rest (stale @ [sid]) w'
      | (Pending, w') \<Rightarrow> (Pending, w'))"

definition append_event ::
  "'ch mpsc_ops \<Rightarrow> stream_config \<Rightarrow> stream_event \<Rightarrow> 'ch fan_world \<Rightarrow> (unit poll_result \<times> 'ch fan_world) outcome" where
  "append_event ops options event w =
     (case append_lock (w_state w) options event of
        Inl e \<Rightarrow> Inl e
      | Inr (None, st) \<Rightarrow> Inr (Ready (), w\<lparr>w_state := st\<rparr>)
      | Inr (Some (ie, subs, terminal), st) \<Rightarrow>
          (case deliver_all ops (config_delivery_guarantee options) ie subs [] (w\<lparr>w_state := st\<rparr>) of
             (Ready stale, w') \<Rightarrow> Inr (Ready (), w'\<lparr>w_state := append_cleanup terminal stale (w_state w')\<rparr>)
           | (Pending, w') \<Rightarrow> Inr (Pending, w')))"

section \<open>Subscriptions\<close>

datatype live_receiver = ReliableRx nat | BestEffortRx nat | ClosedRx

record shared_subscription =
  sub_id :: "u64 option"
  sub_replay :: "indexed_event list"
  live_start_seq :: u64
  sub_receiver :: live_receiver
  sub_done :: bool

definition try_subscribe_fanout ::
  "'ch mpsc_ops \<Rightarrow> stream_config \<Rightarrow> 'ch fan_world \<Rightarrow> shared_subscription \<times> 'ch fan_world" where
  "try_subscribe_fanout ops options w =
     (let a = w_next_addr w;
          st = w_state w;
          (sender, receiver, w1) =
            (case config_delivery_guarantee options of
               ReliableWithBackpressure \<Rightarrow>
                 (ReliableSender a, ReliableRx a,
                  w\<lparr>w_chans := (w_chans w)(a := mpsc_channel ops (max_buffered_chunks options)), w_next_addr := a + 1\<rparr>)
             | LossyWithoutBackpressure \<Rightarrow>
                 (BestEffortSender a, BestEffortRx a,
                  w\<lparr>w_queues := (w_queues w)(a := live_queue_new (max_buffered_chunks options)), w_next_addr := a + 1\<rparr>));
          (snapshot, start) = replay_snapshot st options;
          (sid, st') = (if bs_closed st \<or> bs_terminal st \<noteq> None then (None, st)
                        else (case add_subscriber st sender of (i, s) \<Rightarrow> (Some i, s)))
      in (\<lparr>sub_id = sid, sub_replay = snapshot, live_start_seq = start,
           sub_receiver = (if sid \<noteq> None then receiver else ClosedRx), sub_done = False\<rparr>,
          w1\<lparr>w_state := st'\<rparr>))"

definition live_receiver_recv ::
  "'ch mpsc_ops \<Rightarrow> live_receiver \<Rightarrow> 'ch fan_world \<Rightarrow> indexed_event option poll_result \<times> 'ch fan_world" where
  "live_receiver_recv ops rx w =
     (case rx of
        ReliableRx a \<Rightarrow> (case mpsc_recv ops (w_chans w a) of (r, ch') \<Rightarrow> (r, w\<lparr>w_chans := (w_chans w)(a := ch')\<rparr>))
      | BestEffortRx a \<Rightarrow> (case live_queue_recv (w_queues w a) of (r, q') \<Rightarrow> (r, w\<lparr>w_queues := (w_queues w)(a := q')\<rparr>))
      | ClosedRx \<Rightarrow> (Ready None, w))"

definition detach :: "shared_subscription \<Rightarrow> 'ch fan_world \<Rightarrow> shared_subscription \<times> 'ch fan_world" where
  "detach sub w =
     (case sub_id sub of
        Some sid \<Rightarrow> (sub\<lparr>sub_id := None, sub_done := True\<rparr>, w\<lparr>w_state := remove_subscriber (w_state w) sid\<rparr>)
      | None \<Rightarrow> (sub\<lparr>sub_done := True\<rparr>, w))"

definition detach_if_terminal ::
  "indexed_event \<Rightarrow> shared_subscription \<Rightarrow> 'ch fan_world \<Rightarrow> shared_subscription \<times> 'ch fan_world" where
  "detach_if_terminal ie sub w = (if is_terminal (ie_event ie) then detach sub w else (sub, w))"

text \<open>\<open>SharedSubscription::recv\<close>: the replayed events first, then live events, skipping any that the
  snapshot already covers.  The loop is a partial function: not returning is \<open>None\<close>.\<close>

partial_function (option) recv_live ::
  "'ch mpsc_ops \<Rightarrow> shared_subscription \<Rightarrow> 'ch fan_world
     \<Rightarrow> (stream_event option poll_result \<times> shared_subscription \<times> 'ch fan_world) option" where
  "recv_live ops sub w =
     (case live_receiver_recv ops (sub_receiver sub) w of
        (Pending, w') \<Rightarrow> Some (Pending, sub, w')
      | (Ready None, w') \<Rightarrow> Some (Ready None, sub, w')
      | (Ready (Some ie), w') \<Rightarrow>
          if seq ie < live_start_seq sub then recv_live ops sub w'
          else (case detach_if_terminal ie sub w' of
                  (sub', w'') \<Rightarrow> Some (Ready (Some (ie_event ie)), sub', w'')))"

definition shared_recv ::
  "'ch mpsc_ops \<Rightarrow> shared_subscription \<Rightarrow> 'ch fan_world
     \<Rightarrow> (stream_event option poll_result \<times> shared_subscription \<times> 'ch fan_world) option" where
  "shared_recv ops sub w =
     (case sub_replay sub of
        ie # rest \<Rightarrow>
          (case detach_if_terminal ie (sub\<lparr>sub_replay := rest\<rparr>) w of
             (sub', w') \<Rightarrow> Some (Ready (Some (ie_event ie)), sub', w'))
      | [] \<Rightarrow> recv_live ops sub w)"

definition shared_subscription_drop :: "shared_subscription \<Rightarrow> 'ch fan_world \<Rightarrow> 'ch fan_world" where
  "shared_subscription_drop sub w =
     (case sub_id sub of
        Some sid \<Rightarrow> if \<not> sub_done sub then w\<lparr>w_state := remove_subscriber (w_state w) sid\<rparr> else w
      | None \<Rightarrow> w)"

text \<open>Dropping the stream closes the state and the best-effort queues; the reader task is aborted.\<close>

definition fanout_drop :: "'ch fan_world \<Rightarrow> 'ch fan_world" where
  "fanout_drop w =
     (case close_for_drop (w_state w) (w_queues w) of (st, qs) \<Rightarrow> w\<lparr>w_state := st, w_queues := qs\<rparr>)"

section \<open>Interleavings\<close>

record 'ch fan_sys =
  fs_world :: "'ch fan_world"
  fs_inflight :: "(indexed_event \<times> (u64 \<times> subscriber_sender) list \<times> u64 list \<times> bool) option"
  fs_log :: "indexed_event list"
  fs_start :: "nat \<Rightarrow> nat"
  fs_snap :: "nat \<Rightarrow> indexed_event list"
  fs_sent :: "nat \<Rightarrow> indexed_event list"
  fs_recd :: "nat \<Rightarrow> indexed_event list"

definition rx_at :: "stream_config \<Rightarrow> nat \<Rightarrow> live_receiver" where
  "rx_at options a = (case config_delivery_guarantee options of
      ReliableWithBackpressure \<Rightarrow> ReliableRx a | LossyWithoutBackpressure \<Rightarrow> BestEffortRx a)"

definition tx_at :: "stream_config \<Rightarrow> nat \<Rightarrow> subscriber_sender" where
  "tx_at options a = (case config_delivery_guarantee options of
      ReliableWithBackpressure \<Rightarrow> ReliableSender a | LossyWithoutBackpressure \<Rightarrow> BestEffortSender a)"

lemma sender_addr_tx_at [simp]: "sender_addr (tx_at options a) = a"
  by (simp add: tx_at_def split: delivery_guarantee.split)

text \<open>Dropping the stream closes its state under the lock and then aborts the reader task.  The abort takes effect
  when the task next awaits, so a delivery that is under way may still go on after \<open>fan_drop\<close>, until
  \<open>fan_abort\<close> or its end.\<close>

inductive fan_step :: "'ch mpsc_ops \<Rightarrow> stream_config \<Rightarrow> 'ch fan_sys \<Rightarrow> 'ch fan_sys \<Rightarrow> bool"
  for ops options where
  fan_publish: "fs_inflight s = None \<Longrightarrow> bs_terminal (w_state (fs_world s)) = None \<Longrightarrow>
     append_lock (w_state (fs_world s)) options ev = Inr (Some (ie, subs, terminal), st) \<Longrightarrow>
     fan_step ops options s
       (s\<lparr>fs_world := (fs_world s)\<lparr>w_state := st\<rparr>, fs_inflight := Some (ie, subs, [], terminal), fs_log := fs_log s @ [ie]\<rparr>)"
| fan_delivered: "fs_inflight s = Some (ie, (sid, sender) # rest, stale, terminal) \<Longrightarrow>
     deliver_one ops (config_delivery_guarantee options) ie sender (fs_world s) = (Ready True, w) \<Longrightarrow>
     fan_step ops options s
       (s\<lparr>fs_world := w, fs_inflight := Some (ie, rest, stale, terminal),
          fs_sent := (fs_sent s)(sender_addr sender := fs_sent s (sender_addr sender) @ [ie])\<rparr>)"
| fan_refused: "fs_inflight s = Some (ie, (sid, sender) # rest, stale, terminal) \<Longrightarrow>
     deliver_one ops (config_delivery_guarantee options) ie sender (fs_world s) = (Ready False, w) \<Longrightarrow>
     fan_step ops options s (s\<lparr>fs_world := w, fs_inflight := Some (ie, rest, stale @ [sid], terminal)\<rparr>)"
| fan_blocked: "fs_inflight s = Some (ie, (sid, sender) # rest, stale, terminal) \<Longrightarrow>
     deliver_one ops (config_delivery_guarantee options) ie sender (fs_world s) = (Pending, w) \<Longrightarrow>
     fan_step ops options s (s\<lparr>fs_world := w\<rparr>)"
| fan_published: "fs_inflight s = Some (ie, [], stale, terminal) \<Longrightarrow>
     fan_step ops options s
       (s\<lparr>fs_world := (fs_world s)\<lparr>w_state := append_cleanup terminal stale (w_state (fs_world s))\<rparr>, fs_inflight := None\<rparr>)"
| fan_subscribe: "try_subscribe_fanout ops options (fs_world s) = (sub, w) \<Longrightarrow> a = w_next_addr (fs_world s) \<Longrightarrow>
     fan_step ops options s
       (s\<lparr>fs_world := w, fs_start := (fs_start s)(a := live_start_seq sub), fs_snap := (fs_snap s)(a := sub_replay sub),
          fs_sent := (fs_sent s)(a := []), fs_recd := (fs_recd s)(a := [])\<rparr>)"
| fan_receive: "a < w_next_addr (fs_world s) \<Longrightarrow>
     live_receiver_recv ops (rx_at options a) (fs_world s) = (Ready (Some ie), w) \<Longrightarrow>
     fan_step ops options s (s\<lparr>fs_world := w, fs_recd := (fs_recd s)(a := fs_recd s a @ [ie])\<rparr>)"
| fan_unsubscribe: "fan_step ops options s
       (s\<lparr>fs_world := (fs_world s)\<lparr>w_state := remove_subscriber (w_state (fs_world s)) sid\<rparr>\<rparr>)"
| fan_drop_receiver: "fan_step ops options s
       (s\<lparr>fs_world := (fs_world s)\<lparr>w_chans := (w_chans (fs_world s))(a := mpsc_drop_rx ops (w_chans (fs_world s) a))\<rparr>\<rparr>)"
| fan_seal: "fan_step ops options s
       (s\<lparr>fs_world := (fs_world s)\<lparr>w_state := seal_replay (w_state (fs_world s))\<rparr>\<rparr>)"
| fan_drop: "fan_step ops options s (s\<lparr>fs_world := fanout_drop (fs_world s)\<rparr>)"
| fan_abort: "bs_closed (w_state (fs_world s)) \<Longrightarrow> fan_step ops options s (s\<lparr>fs_inflight := None\<rparr>)"

definition fan_initial :: "'ch fan_sys \<Rightarrow> bool" where
  "fan_initial s \<longleftrightarrow>
     w_state (fs_world s) = broadcast_state_new \<and> w_next_addr (fs_world s) = 0 \<and>
     fs_inflight s = None \<and> fs_log s = []"

inductive fan_reachable :: "'ch mpsc_ops \<Rightarrow> stream_config \<Rightarrow> 'ch fan_sys \<Rightarrow> bool" for ops options where
  fan_init: "fan_initial s \<Longrightarrow> fan_reachable ops options s"
| fan_next: "fan_reachable ops options s \<Longrightarrow> fan_step ops options s s' \<Longrightarrow> fan_reachable ops options s'"

text \<open>An invariant of the initial states that every step keeps holds in every reachable state.\<close>

lemma fan_invariant:
  assumes "\<And>s. fan_initial s \<Longrightarrow> I s" and "\<And>s s'. I s \<Longrightarrow> fan_step ops options s s' \<Longrightarrow> I s'"
  shows "fan_reachable ops options s \<Longrightarrow> I s"
  by (induction rule: fan_reachable.induct) (auto intro: assms)

section \<open>Invariants\<close>

subsection \<open>The published events and the replay window\<close>

definition log_ok :: "indexed_event list \<Rightarrow> broadcast_state \<Rightarrow> bool" where
  "log_ok lg st \<longleftrightarrow>
     replay_ok st \<and> next_seq st = length lg \<and> (\<forall>i<length lg. seq (lg ! i) = i) \<and>
     (\<forall>e\<in>set (bs_replay st). lg ! seq e = e) \<and>
     (\<forall>t. bs_terminal st = Some t \<longrightarrow> lg \<noteq> [] \<and> t = last lg \<and> is_terminal (ie_event t)) \<and>
     (lg \<noteq> [] \<and> is_terminal (ie_event (last lg)) \<longrightarrow> bs_terminal st \<noteq> None)"

lemma log_ok_new: "log_ok [] broadcast_state_new"
  by (simp add: log_ok_def broadcast_state_new_def replay_ok_def)

lemma log_ok_registry:
  "log_ok lg (st\<lparr>subscribers := subs\<rparr>) = log_ok lg st"
  "log_ok lg (st\<lparr>next_subscriber_id := n\<rparr>) = log_ok lg st"
  "log_ok lg (st\<lparr>bs_closed := b\<rparr>) = log_ok lg st"
  by (simp_all add: log_ok_def replay_ok_def)

lemma log_ok_remove: "log_ok lg (remove_subscriber st i) = log_ok lg st"
  by (simp add: remove_subscriber_def log_ok_registry)

lemma log_ok_cleanup: "log_ok lg (append_cleanup t stale st) = log_ok lg st"
proof -
  have "log_ok lg (fold (\<lambda>sid s. remove_subscriber s sid) stale st) = log_ok lg st"
    by (induction stale arbitrary: st) (simp_all add: log_ok_remove)
  then show ?thesis by (simp add: append_cleanup_def)
qed

lemma log_ok_seal: "log_ok lg st \<Longrightarrow> log_ok lg (seal_replay st)"
  using seal_replay_ok [of st] by (auto simp: log_ok_def) (simp_all add: seal_replay_def clear_replay_def Let_def)

lemma pushed_replay:
  assumes "pushed st ev options st'"
  shows "set (bs_replay st') \<subseteq> insert (indexed (next_seq st) ev) (set (bs_replay st))"
proof -
  have "suffix (bs_replay st') (if retains st options ev then bs_replay st @ [indexed (next_seq st) ev] else bs_replay st)"
    using assms by (simp add: pushed_def)
  from set_mono_suffix [OF this] show ?thesis by (auto split: if_splits)
qed

lemma log_ok_push:
  assumes "log_ok lg st" and "bs_terminal st = None" and "pushed st ev options st'"
  shows "log_ok (lg @ [indexed (length lg) ev]) st'"
proof -
  let ?e = "indexed (length lg) ev"
  have "\<forall>i<length (lg @ [?e]). seq ((lg @ [?e]) ! i) = i"
    using assms(1) by (auto simp: log_ok_def nth_append less_Suc_eq)
  moreover have "(lg @ [?e]) ! seq e = e" if "e \<in> set (bs_replay st')" for e
  proof -
    have "e \<in> insert ?e (set (bs_replay st))"
      using pushed_replay [OF assms(3)] assms(1) that by (auto simp: log_ok_def)
    then show ?thesis using assms(1) by (auto simp: log_ok_def replay_ok_def nth_append)
  qed
  ultimately show ?thesis
    using assms by (auto simp: log_ok_def pushed_def split: if_splits)
qed

lemma append_lock_pushed:
  assumes "replay_ok st" and "append_lock st options ev = Inr (Some (ie, subs, terminal), st')"
  shows "\<exists>st1. ie = indexed (next_seq st) ev \<and> pushed st ev options st1 \<and> subs = subscribers st \<and>
     terminal = is_terminal ev \<and> st' = st1\<lparr>subscribers := (if is_terminal ev then [] else subscribers st)\<rparr>"
proof -
  obtain st1 where "push_event st ev options = Inr (indexed (next_seq st) ev, st1)" "pushed st ev options st1"
    using push_event_ok [OF assms(1)] by blast
  then show ?thesis
    using assms(2)
    by (intro exI [of _ st1]) (auto simp: append_lock_def Let_def pushed_def split: if_splits)
qed

subsection \<open>The registry\<close>

definition fs_todo :: "'ch fan_sys \<Rightarrow> (u64 \<times> subscriber_sender) list" where
  "fs_todo s = (case fs_inflight s of None \<Rightarrow> [] | Some (ie, todo, stale, terminal) \<Rightarrow> todo)"

abbreviation fs_state :: "'ch fan_sys \<Rightarrow> broadcast_state" where
  "fs_state s \<equiv> w_state (fs_world s)"

abbreviation fs_addrs :: "'ch fan_sys \<Rightarrow> nat" where
  "fs_addrs s \<equiv> w_next_addr (fs_world s)"

definition senders_ok :: "stream_config \<Rightarrow> nat \<Rightarrow> (u64 \<times> subscriber_sender) list \<Rightarrow> bool" where
  "senders_ok options n subs \<longleftrightarrow>
     (\<forall>x\<in>set (map snd subs). \<exists>a<n. x = tx_at options a) \<and> distinct (map (sender_addr \<circ> snd) subs)"

definition registry_ok :: "stream_config \<Rightarrow> 'ch fan_sys \<Rightarrow> bool" where
  "registry_ok options s \<longleftrightarrow>
     senders_ok options (fs_addrs s) (subscribers (fs_state s)) \<and>
     senders_ok options (fs_addrs s) (fs_todo s) \<and>
     (\<forall>ie todo stale t. fs_inflight s = Some (ie, todo, stale, t) \<longrightarrow> fs_log s \<noteq> [] \<and> ie = last (fs_log s)) \<and>
     (bs_closed (fs_state s) \<longrightarrow> subscribers (fs_state s) = [])"

lemma senders_ok_Nil [simp]: "senders_ok options n []"
  by (simp add: senders_ok_def)

lemma senders_ok_filter: "senders_ok options n subs \<Longrightarrow> senders_ok options n (filter P subs)"
  by (auto simp: senders_ok_def distinct_map_filter)

lemma senders_ok_mono: "senders_ok options n subs \<Longrightarrow> n \<le> m \<Longrightarrow> senders_ok options m subs"
  unfolding senders_ok_def by (meson less_le_trans)

lemma senders_ok_Cons: "senders_ok options n (x # subs) \<Longrightarrow> senders_ok options n subs"
  by (simp add: senders_ok_def)

lemma senders_ok_snoc:
  assumes "senders_ok options n subs"
  shows "senders_ok options (Suc n) (subs @ [(i, tx_at options n)])"
proof -
  have "sender_addr x < n" if "(j, x) \<in> set subs" for j x
    using assms that by (force simp: senders_ok_def)
  then have "n \<notin> (sender_addr \<circ> snd) ` set subs" by fastforce
  then show ?thesis
    using assms by (auto simp: senders_ok_def less_Suc_eq)
qed

lemma remove_subscribers_filter:
  "\<exists>P. subscribers (fold (\<lambda>sid s. remove_subscriber s sid) stale st) = filter P (subscribers st)"
proof (induction stale arbitrary: st)
  case Nil
  then show ?case by (intro exI [of _ "\<lambda>_. True"]) simp
next
  case (Cons i stale)
  obtain P where "subscribers (fold (\<lambda>sid s. remove_subscriber s sid) stale (remove_subscriber st i))
       = filter P (subscribers (remove_subscriber st i))"
    using Cons.IH by blast
  then show ?case
    by (intro exI [of _ "\<lambda>x. P x \<and> fst x \<noteq> i"])
      (simp add: remove_subscriber_def case_prod_beta conj_commute)
qed

lemma append_cleanup_filter: "\<exists>P. subscribers (append_cleanup t stale st) = filter P (subscribers st)"
  using remove_subscribers_filter [of stale st] exI [of _ "\<lambda>_. True"]
  by (auto simp: append_cleanup_def intro: exI [of _ "\<lambda>_. True"])

lemma append_cleanup_simps [simp]:
  "bs_replay (append_cleanup t stale st) = bs_replay st"
  "bs_replay_sealed (append_cleanup t stale st) = bs_replay_sealed st"
  "bs_terminal (append_cleanup t stale st) = bs_terminal st"
  "bs_closed (append_cleanup t stale st) = bs_closed st"
proof -
  have fold: "bs_replay (fold (\<lambda>i s. remove_subscriber s i) stale st) = bs_replay st \<and>
      bs_replay_sealed (fold (\<lambda>i s. remove_subscriber s i) stale st) = bs_replay_sealed st \<and>
      bs_terminal (fold (\<lambda>i s. remove_subscriber s i) stale st) = bs_terminal st \<and>
      bs_closed (fold (\<lambda>i s. remove_subscriber s i) stale st) = bs_closed st"
    by (induction stale arbitrary: st) (simp_all add: remove_subscriber_def)
  show "bs_replay (append_cleanup t stale st) = bs_replay st"
    "bs_replay_sealed (append_cleanup t stale st) = bs_replay_sealed st"
    "bs_terminal (append_cleanup t stale st) = bs_terminal st" "bs_closed (append_cleanup t stale st) = bs_closed st"
    using fold by (simp_all add: append_cleanup_def)
qed

text \<open>What each step does to the parts that matter.\<close>

lemma deliver_one_frame:
  "deliver_one ops g ie sender w = (r, w') \<Longrightarrow> w_state w' = w_state w \<and> w_next_addr w' = w_next_addr w \<and>
     (\<forall>b. b \<noteq> sender_addr sender \<longrightarrow> w_chans w' b = w_chans w b \<and> w_queues w' b = w_queues w b)"
  by (auto simp: deliver_one_def split: delivery_guarantee.splits subscriber_sender.splits prod.splits)

lemma live_receiver_recv_frame:
  "live_receiver_recv ops (rx_at options a) w = (r, w') \<Longrightarrow> w_state w' = w_state w \<and> w_next_addr w' = w_next_addr w \<and>
     (\<forall>b. b \<noteq> a \<longrightarrow> w_chans w' b = w_chans w b \<and> w_queues w' b = w_queues w b)"
  by (auto simp: live_receiver_recv_def rx_at_def split: delivery_guarantee.splits prod.splits)

lemma try_subscribe_frame:
  assumes "try_subscribe_fanout ops options w = (sub, w')"
  shows "w_next_addr w' = Suc (w_next_addr w)"
    and "live_start_seq sub = next_seq (w_state w)" and "sub_replay sub = fst (replay_snapshot (w_state w) options)"
    and "subscribers (w_state w') = subscribers (w_state w) \<or>
         (\<exists>i. subscribers (w_state w') = subscribers (w_state w) @ [(i, tx_at options (w_next_addr w))])"
    and "log_ok lg (w_state w') = log_ok lg (w_state w)"
    and "\<forall>b. b \<noteq> w_next_addr w \<longrightarrow> w_chans w' b = w_chans w b \<and> w_queues w' b = w_queues w b"
    and "bs_replay (w_state w') = bs_replay (w_state w)" "bs_replay_sealed (w_state w') = bs_replay_sealed (w_state w)"
    and "bs_closed (w_state w') = bs_closed (w_state w)"
    and "bs_closed (w_state w) \<Longrightarrow> subscribers (w_state w') = subscribers (w_state w)"
  using assms
  by (auto simp: try_subscribe_fanout_def Let_def add_subscriber_def tx_at_def replay_snapshot_def log_ok_registry
      split: delivery_guarantee.splits if_splits)

lemma append_lock_open: "append_lock st options ev = Inr (Some (ie, subs, terminal), st') \<Longrightarrow> \<not> bs_closed st"
  by (auto simp: append_lock_def split: if_splits)

lemma registry_ok_step:
  assumes "registry_ok options s" and "log_ok (fs_log s) (fs_state s)" and "fan_step ops options s s'"
  shows "registry_ok options s'"
  using assms(3)
proof cases
  case (fan_publish ev ie subs terminal st)
  have "subs = subscribers (fs_state s)" "subscribers st = (if is_terminal ev then [] else subscribers (fs_state s))" "\<not> bs_closed st"
    using append_lock_pushed [OF _ fan_publish(4)] append_lock_open [OF fan_publish(4)] assms(2)
    by (auto simp: log_ok_def pushed_def)
  then show ?thesis using assms(1) fan_publish(1) by (simp add: registry_ok_def fs_todo_def)
next
  case (fan_delivered ie sid sender rest stale terminal w)
  then show ?thesis
    using assms(1) deliver_one_frame [OF fan_delivered(3)]
    by (auto simp: registry_ok_def fs_todo_def dest: senders_ok_Cons)
next
  case (fan_refused ie sid sender rest stale terminal w)
  then show ?thesis
    using assms(1) deliver_one_frame [OF fan_refused(3)]
    by (auto simp: registry_ok_def fs_todo_def dest: senders_ok_Cons)
next
  case (fan_blocked ie sid sender rest stale terminal w)
  then show ?thesis
    using assms(1) deliver_one_frame [OF fan_blocked(3)] by (auto simp: registry_ok_def fs_todo_def)
next
  case (fan_published ie stale terminal)
  then show ?thesis
    using assms(1) append_cleanup_filter [of terminal stale "fs_state s"]
    by (auto simp: registry_ok_def fs_todo_def senders_ok_filter)
next
  case (fan_subscribe sub w a)
  have subs: "senders_ok options (fs_addrs s) (subscribers (fs_state s))" using assms(1) by (simp add: registry_ok_def)
  have todo: "senders_ok options (Suc (fs_addrs s)) (fs_todo s)"
    using assms(1) by (auto simp: registry_ok_def intro: senders_ok_mono)
  have "senders_ok options (Suc (fs_addrs s)) (subscribers (w_state w))"
    using try_subscribe_frame(4) [OF fan_subscribe(2)] subs by (auto intro: senders_ok_snoc senders_ok_mono)
  then show ?thesis
    using assms(1) fan_subscribe(1) try_subscribe_frame(1,9,10) [OF fan_subscribe(2)] todo
    by (simp add: registry_ok_def fs_todo_def)
next
  case (fan_receive a ie w)
  then show ?thesis
    using assms(1) live_receiver_recv_frame [OF fan_receive(3)] by (simp add: registry_ok_def fs_todo_def)
next
  case (fan_unsubscribe sid)
  then show ?thesis
    using assms(1) by (auto simp: registry_ok_def fs_todo_def remove_subscriber_def senders_ok_filter)
next
  case fan_seal
  then show ?thesis
    using assms(1) by (simp add: registry_ok_def fs_todo_def seal_replay_def clear_replay_def Let_def)
next
  case fan_drop
  then show ?thesis
    using assms(1) by (simp add: registry_ok_def fs_todo_def fanout_drop_def close_for_drop_def)
qed (use assms(1) in \<open>simp_all add: registry_ok_def fs_todo_def\<close>)

lemma log_ok_step:
  assumes "log_ok (fs_log s) (fs_state s)" and "fan_step ops options s s'"
  shows "log_ok (fs_log s') (fs_state s')"
  using assms(2)
proof cases
  case (fan_publish ev ie subs terminal st)
  obtain st1 where st1: "ie = indexed (next_seq (fs_state s)) ev" "pushed (fs_state s) ev options st1"
      "st = st1\<lparr>subscribers := (if is_terminal ev then [] else subscribers (fs_state s))\<rparr>"
    using append_lock_pushed [OF _ fan_publish(4)] assms(1) by (auto simp: log_ok_def)
  have "ie = indexed (length (fs_log s)) ev" using st1(1) assms(1) by (simp add: log_ok_def)
  then show ?thesis
    using log_ok_push [OF assms(1) fan_publish(3) st1(2)] st1(3) fan_publish(1) by (simp add: log_ok_registry)
next
  case (fan_delivered ie sid sender rest stale terminal w)
  then show ?thesis using assms(1) deliver_one_frame [OF fan_delivered(3)] by simp
next
  case (fan_refused ie sid sender rest stale terminal w)
  then show ?thesis using assms(1) deliver_one_frame [OF fan_refused(3)] by simp
next
  case (fan_blocked ie sid sender rest stale terminal w)
  then show ?thesis using assms(1) deliver_one_frame [OF fan_blocked(3)] by simp
next
  case (fan_published ie stale terminal)
  then show ?thesis using assms(1) by (simp add: log_ok_cleanup)
next
  case (fan_subscribe sub w a)
  then show ?thesis using assms(1) try_subscribe_frame(5) [OF fan_subscribe(2)] by simp
next
  case (fan_receive a ie w)
  then show ?thesis using assms(1) live_receiver_recv_frame [OF fan_receive(3)] by simp
next
  case (fan_unsubscribe sid)
  then show ?thesis using assms(1) by (simp add: log_ok_remove)
next
  case fan_seal
  then show ?thesis using assms(1) by (simp add: log_ok_seal)
next
  case fan_drop
  then show ?thesis using assms(1) by (simp add: fanout_drop_def close_for_drop_def log_ok_registry)
qed (use assms(1) in simp_all)

subsection \<open>What is handed to a subscriber\<close>

definition slice :: "'a list \<Rightarrow> nat \<Rightarrow> nat \<Rightarrow> 'a list" where
  "slice xs i k = take (k - i) (drop i xs)"

lemma slice_append: "k \<le> length xs \<Longrightarrow> slice (xs @ ys) i k = slice xs i k"
  by (cases "i \<le> length xs") (simp_all add: slice_def)

lemma slice_Suc: "i \<le> k \<Longrightarrow> k < length xs \<Longrightarrow> slice xs i (Suc k) = slice xs i k @ [xs ! k]"
  by (simp add: slice_def Suc_diff_le take_Suc_conv_app_nth)

lemma slice_same [simp]: "slice xs i i = []"
  by (simp add: slice_def)

text \<open>A subscriber whose receiver is gone, or whose queue is closed, takes no more events.\<close>

definition dead :: "('ch \<Rightarrow> bool) \<Rightarrow> stream_config \<Rightarrow> 'ch fan_world \<Rightarrow> nat \<Rightarrow> bool" where
  "dead gone options w a =
     (case config_delivery_guarantee options of
        ReliableWithBackpressure \<Rightarrow> gone (w_chans w a)
      | LossyWithoutBackpressure \<Rightarrow> lq_closed (w_queues w a))"

abbreviation addrs :: "(u64 \<times> subscriber_sender) list \<Rightarrow> nat set" where
  "addrs subs \<equiv> set (map (sender_addr \<circ> snd) subs)"

text \<open>Every subscriber has been handed a contiguous block of the published events from its start on;
  a live subscriber that is registered misses at most the event that is being delivered.\<close>

definition sent_ok ::
  "indexed_event list \<Rightarrow> (nat \<Rightarrow> nat) \<Rightarrow> (nat \<Rightarrow> indexed_event list) \<Rightarrow> nat \<Rightarrow> (nat \<Rightarrow> bool) \<Rightarrow> nat set \<Rightarrow> nat set \<Rightarrow> bool" where
  "sent_ok lg start sent n D T R \<longleftrightarrow>
     (\<forall>a<n. \<exists>k. start a \<le> k \<and> k \<le> length lg \<and> sent a = slice lg (start a) k \<and>
        (\<not> D a \<longrightarrow> (a \<in> T \<longrightarrow> Suc k = length lg) \<and> (a \<notin> T \<and> a \<in> R \<longrightarrow> k = length lg)))"

lemma sent_ok_mono:
  assumes "sent_ok lg start sent n D T R"
    and "\<And>a. a < n \<Longrightarrow> \<not> D' a \<Longrightarrow> \<not> D a \<and> (a \<in> T' \<longrightarrow> a \<in> T) \<and> (a \<notin> T' \<and> a \<in> R' \<longrightarrow> a \<notin> T \<and> a \<in> R)"
  shows "sent_ok lg start sent n D' T' R'"
  unfolding sent_ok_def
proof (intro allI impI)
  fix a
  assume a: "a < n"
  obtain k where k: "start a \<le> k" "k \<le> length lg" "sent a = slice lg (start a) k"
      "\<not> D a \<longrightarrow> (a \<in> T \<longrightarrow> Suc k = length lg) \<and> (a \<notin> T \<and> a \<in> R \<longrightarrow> k = length lg)"
    using assms(1) a unfolding sent_ok_def by blast
  then show "\<exists>k. start a \<le> k \<and> k \<le> length lg \<and> sent a = slice lg (start a) k \<and>
        (\<not> D' a \<longrightarrow> (a \<in> T' \<longrightarrow> Suc k = length lg) \<and> (a \<notin> T' \<and> a \<in> R' \<longrightarrow> k = length lg))"
    using assms(2) [OF a] by (intro exI [of _ k]) blast
qed

lemma sent_ok_publish:
  assumes "sent_ok lg start sent n D {} R" and "R' \<subseteq> R"
  shows "sent_ok (lg @ [e]) start sent n D R R'"
  unfolding sent_ok_def
proof (intro allI impI)
  fix a
  assume a: "a < n"
  obtain k where "start a \<le> k" "k \<le> length lg" "sent a = slice lg (start a) k"
      "\<not> D a \<longrightarrow> a \<in> R \<longrightarrow> k = length lg"
    using assms(1) a unfolding sent_ok_def by blast
  then show "\<exists>k. start a \<le> k \<and> k \<le> length (lg @ [e]) \<and> sent a = slice (lg @ [e]) (start a) k \<and>
        (\<not> D a \<longrightarrow> (a \<in> R \<longrightarrow> Suc k = length (lg @ [e])) \<and> (a \<notin> R \<and> a \<in> R' \<longrightarrow> k = length (lg @ [e])))"
    using assms(2) by (intro exI [of _ k]) (auto simp: slice_append)
qed

lemma sent_ok_deliver:
  assumes "sent_ok lg start sent n D (insert a T) R" and "a \<notin> T" and "\<not> D a" and "e = last lg" and "lg \<noteq> []"
    and "\<And>b. b \<noteq> a \<Longrightarrow> D' b = D b"
  shows "sent_ok lg start (sent(a := sent a @ [e])) n D' T R"
  unfolding sent_ok_def
proof (intro allI impI)
  fix b
  assume b: "b < n"
  obtain k where k: "start b \<le> k" "k \<le> length lg" "sent b = slice lg (start b) k"
      "\<not> D b \<longrightarrow> (b \<in> insert a T \<longrightarrow> Suc k = length lg) \<and> (b \<notin> insert a T \<and> b \<in> R \<longrightarrow> k = length lg)"
    using assms(1) b unfolding sent_ok_def by blast
  show "\<exists>k. start b \<le> k \<and> k \<le> length lg \<and> (sent(a := sent a @ [e])) b = slice lg (start b) k \<and>
        (\<not> D' b \<longrightarrow> (b \<in> T \<longrightarrow> Suc k = length lg) \<and> (b \<notin> T \<and> b \<in> R \<longrightarrow> k = length lg))"
  proof (cases "b = a")
    case True
    then have Suc: "Suc k = length lg" using k(4) assms(3) by blast
    then have "k = length lg - 1" by simp
    then have "e = lg ! k" using assms(4,5) by (simp add: last_conv_nth)
    then have "slice lg (start a) (Suc k) = sent a @ [e]"
      using slice_Suc [of "start a" k lg] k Suc True by simp
    then show ?thesis using True Suc k(1) assms(2) by (intro exI [of _ "Suc k"]) auto
  next
    case False
    then show ?thesis using k assms(6) by (intro exI [of _ k]) auto
  qed
qed

lemma sent_ok_subscribe:
  assumes "sent_ok lg start sent n D T R" and "R' \<subseteq> insert n R" and "\<And>a. a < n \<Longrightarrow> D' a = D a" and "n \<notin> T"
  shows "sent_ok lg (start(n := length lg)) (sent(n := [])) (Suc n) D' T R'"
  unfolding sent_ok_def
proof (intro allI impI)
  fix a
  assume "a < Suc n"
  then consider "a = n" | "a < n" by linarith
  then show "\<exists>k. (start(n := length lg)) a \<le> k \<and> k \<le> length lg \<and>
        (sent(n := [])) a = slice lg ((start(n := length lg)) a) k \<and>
        (\<not> D' a \<longrightarrow> (a \<in> T \<longrightarrow> Suc k = length lg) \<and> (a \<notin> T \<and> a \<in> R' \<longrightarrow> k = length lg))"
  proof cases
    case 1
    then show ?thesis using assms(4) by (intro exI [of _ "length lg"]) simp
  next
    case 2
    then obtain k where "start a \<le> k" "k \<le> length lg" "sent a = slice lg (start a) k"
        "\<not> D a \<longrightarrow> (a \<in> T \<longrightarrow> Suc k = length lg) \<and> (a \<notin> T \<and> a \<in> R \<longrightarrow> k = length lg)"
      using assms(1) unfolding sent_ok_def by blast
    then show ?thesis using 2 assms(2,3) by (intro exI [of _ k]) auto
  qed
qed

definition fan_sent_ok :: "('ch \<Rightarrow> bool) \<Rightarrow> stream_config \<Rightarrow> 'ch fan_sys \<Rightarrow> bool" where
  "fan_sent_ok gone options s \<longleftrightarrow>
     sent_ok (fs_log s) (fs_start s) (fs_sent s) (fs_addrs s) (dead gone options (fs_world s))
       (addrs (fs_todo s)) (addrs (subscribers (fs_state s)))"

lemma dead_state [simp]: "dead gone options (w\<lparr>w_state := st\<rparr>) = dead gone options w"
  by (simp add: fun_eq_iff dead_def split: delivery_guarantee.split)

lemma tx_deliver:
  assumes "mpsc_ok ops contents gone" and "sender = tx_at options a"
    and "deliver_one ops (config_delivery_guarantee options) ie sender w = (r, w')"
  shows "r = Ready True \<Longrightarrow> \<not> dead gone options w a"
    and "r = Ready False \<Longrightarrow> dead gone options w' a"
    and "r = Pending \<Longrightarrow> dead gone options w' = dead gone options w"
    and "b \<noteq> a \<Longrightarrow> dead gone options w' b = dead gone options w b"
proof -
  have send: "mpsc_send ops c e = (Ready True, c') \<Longrightarrow> \<not> gone c"
    "mpsc_send ops c e = (Ready False, c') \<Longrightarrow> gone c'"
    "mpsc_send ops c e = (Pending, c') \<Longrightarrow> gone c' = gone c" for c e c'
    using assms(1) unfolding mpsc_ok_def by blast+
  show "r = Ready True \<Longrightarrow> \<not> dead gone options w a" "r = Ready False \<Longrightarrow> dead gone options w' a"
    "r = Pending \<Longrightarrow> dead gone options w' = dead gone options w" "b \<noteq> a \<Longrightarrow> dead gone options w' b = dead gone options w b"
    using assms(2,3) send
    by (auto simp: dead_def deliver_one_def tx_at_def live_queue_push_def fun_eq_iff
        split: delivery_guarantee.splits prod.splits if_splits)
qed

lemma sender_in_todo:
  assumes "registry_ok options s" and "fs_inflight s = Some (ie, (sid, sender) # rest, stale, terminal)"
  shows "sender = tx_at options (sender_addr sender)" and "sender_addr sender < fs_addrs s"
    and "addrs (fs_todo s) = insert (sender_addr sender) (addrs rest)" and "sender_addr sender \<notin> addrs rest"
    and "fs_log s \<noteq> []" and "ie = last (fs_log s)"
proof -
  have "senders_ok options (fs_addrs s) ((sid, sender) # rest)"
    and "fs_log s \<noteq> [] \<and> ie = last (fs_log s)"
    using assms by (auto simp: registry_ok_def fs_todo_def)
  then show "sender = tx_at options (sender_addr sender)" "sender_addr sender < fs_addrs s"
    "addrs (fs_todo s) = insert (sender_addr sender) (addrs rest)" "sender_addr sender \<notin> addrs rest"
    "fs_log s \<noteq> []" "ie = last (fs_log s)"
    using assms(2) by (auto simp: senders_ok_def fs_todo_def)
qed

lemma dead_recv:
  assumes "mpsc_ok ops contents gone" and "live_receiver_recv ops (rx_at options a) w = (Ready (Some ie), w')"
  shows "dead gone options w' = dead gone options w"
proof -
  have "mpsc_recv ops c = (Ready (Some e), c') \<Longrightarrow> gone c' = gone c" for c e c'
    using assms(1) unfolding mpsc_ok_def by blast
  then show ?thesis
    using assms(2)
    by (auto simp: dead_def live_receiver_recv_def rx_at_def live_queue_recv_def fun_eq_iff
        split: delivery_guarantee.splits prod.splits list.splits if_splits)
qed

lemma dead_close: "dead gone options w a \<Longrightarrow> dead gone options (fanout_drop w) a"
proof -
  have "lq_closed (qs a) \<Longrightarrow> lq_closed (fold (\<lambda>(sid, sender). sender_close sender) subs qs a)" for qs subs
  proof (induction subs arbitrary: qs)
    case (Cons x subs)
    then show ?case by (cases x; cases "snd x") (auto simp: live_queue_close_def)
  qed simp
  then show "dead gone options w a \<Longrightarrow> dead gone options (fanout_drop w) a"
    by (auto simp: dead_def fanout_drop_def close_for_drop_def split: delivery_guarantee.splits)
qed

lemma fan_sent_ok_refused:
  assumes ops: "mpsc_ok ops contents gone" and reg: "registry_ok options s" and sent: "fan_sent_ok gone options s"
    and inflight: "fs_inflight s = Some (ie, (sid, sender) # rest, stale, terminal)"
    and refused: "deliver_one ops (config_delivery_guarantee options) ie sender (fs_world s) = (Ready False, w)"
  shows "fan_sent_ok gone options (s\<lparr>fs_world := w, fs_inflight := Some (ie, rest, stale @ [sid], terminal)\<rparr>)"
proof -
  note t = sender_in_todo [OF reg inflight]
  have "sent_ok (fs_log s) (fs_start s) (fs_sent s) (fs_addrs s) (dead gone options w) (addrs rest)
     (addrs (subscribers (fs_state s)))"
  proof (rule sent_ok_mono [OF sent [unfolded fan_sent_ok_def]])
    fix b
    assume "\<not> dead gone options w b"
    then have "b \<noteq> sender_addr sender" using tx_deliver(2) [OF ops t(1) refused] by blast
    then show "\<not> dead gone options (fs_world s) b \<and> (b \<in> addrs rest \<longrightarrow> b \<in> addrs (fs_todo s)) \<and>
        (b \<notin> addrs rest \<and> b \<in> addrs (subscribers (fs_state s)) \<longrightarrow>
           b \<notin> addrs (fs_todo s) \<and> b \<in> addrs (subscribers (fs_state s)))"
      using tx_deliver(4) [OF ops t(1) refused] \<open>\<not> dead gone options w b\<close> t(3) by blast
  qed
  then show ?thesis
    using deliver_one_frame [OF refused] by (simp add: fan_sent_ok_def fs_todo_def)
qed

lemma fan_sent_ok_subscribe:
  assumes reg: "registry_ok options s" and lg: "log_ok (fs_log s) (fs_state s)" and sent: "fan_sent_ok gone options s"
    and sub: "try_subscribe_fanout ops options (fs_world s) = (sub, w)" and a: "a = w_next_addr (fs_world s)"
  shows "fan_sent_ok gone options
     (s\<lparr>fs_world := w, fs_start := (fs_start s)(a := live_start_seq sub), fs_snap := (fs_snap s)(a := sub_replay sub),
        fs_sent := (fs_sent s)(a := []), fs_recd := (fs_recd s)(a := [])\<rparr>)"
proof -
  note frame = try_subscribe_frame [OF sub]
  have len: "live_start_seq sub = length (fs_log s)" using frame(2) lg by (simp add: log_ok_def)
  have "a \<notin> addrs (fs_todo s)"
    using reg a by (auto simp: registry_ok_def senders_ok_def)
  moreover have "addrs (subscribers (w_state w)) \<subseteq> insert a (addrs (subscribers (fs_state s)))"
    using frame(4) a by (elim disjE exE) fastforce+
  moreover have "b < a \<Longrightarrow> dead gone options w b = dead gone options (fs_world s) b" for b
    using frame(6) a by (simp add: dead_def split: delivery_guarantee.split)
  ultimately show ?thesis
    using sent_ok_subscribe [of "fs_log s" "fs_start s" "fs_sent s" a] sent a frame(1) len
    by (simp add: fan_sent_ok_def fs_todo_def)
qed

lemma dead_drop_rx:
  assumes "mpsc_ok ops contents gone" and "dead gone options w b"
  shows "dead gone options (w\<lparr>w_chans := (w_chans w)(a := mpsc_drop_rx ops (w_chans w a))\<rparr>) b"
proof -
  have "gone (mpsc_drop_rx ops c)" for c using assms(1) unfolding mpsc_ok_def by blast
  then show ?thesis using assms(2) by (auto simp: dead_def split: delivery_guarantee.splits)
qed

lemma fan_sent_ok_step:
  assumes ops: "mpsc_ok ops contents gone" and reg: "registry_ok options s"
    and lg: "log_ok (fs_log s) (fs_state s)" and sent: "fan_sent_ok gone options s"
    and step: "fan_step ops options s s'"
  shows "fan_sent_ok gone options s'"
  using step
proof cases
  case (fan_publish ev ie subs terminal st)
  have subs: "subs = subscribers (fs_state s)" "subscribers st = (if is_terminal ev then [] else subscribers (fs_state s))"
    using append_lock_pushed [OF _ fan_publish(4)] lg by (auto simp: log_ok_def)
  have "sent_ok (fs_log s @ [ie]) (fs_start s) (fs_sent s) (fs_addrs s) (dead gone options (fs_world s))
       (addrs (subscribers (fs_state s))) (addrs (subscribers st))"
    using sent_ok_publish [of "fs_log s" "fs_start s" "fs_sent s" "fs_addrs s" "dead gone options (fs_world s)"] sent subs fan_publish(2)
    by (simp add: fan_sent_ok_def fs_todo_def)
  then show ?thesis using fan_publish(1) subs(1) by (simp add: fan_sent_ok_def fs_todo_def dead_def)
next
  case (fan_delivered ie sid sender rest stale terminal w)
  note t = sender_in_todo [OF reg fan_delivered(2)]
  show ?thesis
    using sent_ok_deliver [of "fs_log s" "fs_start s" "fs_sent s" "fs_addrs s" _ "sender_addr sender" "addrs rest" _ ie
        "dead gone options w"] sent t deliver_one_frame [OF fan_delivered(3)]
      tx_deliver(1,4) [OF ops t(1) fan_delivered(3)] fan_delivered(1,2)
    by (simp add: fan_sent_ok_def fs_todo_def)
next
  case (fan_refused ie sid sender rest stale terminal w)
  show ?thesis unfolding fan_refused(1) by (rule fan_sent_ok_refused [OF ops reg sent fan_refused(2,3)])
next
  case (fan_blocked ie sid sender rest stale terminal w)
  note t = sender_in_todo [OF reg fan_blocked(2)]
  show ?thesis
    using sent tx_deliver(3) [OF ops t(1) fan_blocked(3)] deliver_one_frame [OF fan_blocked(3)] fan_blocked(1)
    by (simp add: fan_sent_ok_def fs_todo_def)
next
  case (fan_published ie stale terminal)
  obtain P where P: "subscribers (append_cleanup terminal stale (fs_state s)) = filter P (subscribers (fs_state s))"
    using append_cleanup_filter by blast
  have "sent_ok (fs_log s) (fs_start s) (fs_sent s) (fs_addrs s) (dead gone options (fs_world s)) {}
     (addrs (filter P (subscribers (fs_state s))))"
    using sent fan_published(2) by (auto simp: fan_sent_ok_def fs_todo_def elim: sent_ok_mono)
  then show ?thesis using fan_published(1) P by (simp add: fan_sent_ok_def fs_todo_def dead_def)
next
  case (fan_subscribe sub w a)
  show ?thesis unfolding fan_subscribe(1) by (rule fan_sent_ok_subscribe [OF reg lg sent fan_subscribe(2,3)])
next
  case (fan_receive a ie w)
  then show ?thesis
    using sent dead_recv [OF ops fan_receive(3)] live_receiver_recv_frame [OF fan_receive(3)]
    by (simp add: fan_sent_ok_def fs_todo_def)
next
  case (fan_unsubscribe sid)
  have "sent_ok (fs_log s) (fs_start s) (fs_sent s) (fs_addrs s) (dead gone options (fs_world s)) (addrs (fs_todo s))
     (addrs (filter (\<lambda>(i, x). i \<noteq> sid) (subscribers (fs_state s))))"
    using sent by (auto simp: fan_sent_ok_def elim: sent_ok_mono)
  then show ?thesis using fan_unsubscribe by (simp add: fan_sent_ok_def fs_todo_def remove_subscriber_def dead_def)
next
  case (fan_drop_receiver a)
  let ?w = "(fs_world s)\<lparr>w_chans := (w_chans (fs_world s))(a := mpsc_drop_rx ops (w_chans (fs_world s) a))\<rparr>"
  have "sent_ok (fs_log s) (fs_start s) (fs_sent s) (fs_addrs s) (dead gone options ?w) (addrs (fs_todo s))
     (addrs (subscribers (fs_state s)))"
    using sent dead_drop_rx [OF ops] unfolding fan_sent_ok_def by - (erule sent_ok_mono, blast)
  then show ?thesis using fan_drop_receiver by (simp add: fan_sent_ok_def fs_todo_def)
next
  case fan_seal
  then show ?thesis using sent by (simp add: fan_sent_ok_def fs_todo_def seal_replay_def clear_replay_def Let_def dead_def)
next
  case fan_drop
  have "sent_ok (fs_log s) (fs_start s) (fs_sent s) (fs_addrs s) (dead gone options (fanout_drop (fs_world s)))
      (addrs (fs_todo s)) {}"
    using sent dead_close unfolding fan_sent_ok_def by - (erule sent_ok_mono, blast)
  then show ?thesis using fan_drop by (simp add: fan_sent_ok_def fs_todo_def fanout_drop_def close_for_drop_def)
next
  case fan_abort
  have none: "subscribers (fs_state s) = []" using reg fan_abort(2) by (simp add: registry_ok_def)
  have "sent_ok (fs_log s) (fs_start s) (fs_sent s) (fs_addrs s) (dead gone options (fs_world s)) {} {}"
    using sent unfolding fan_sent_ok_def by - (erule sent_ok_mono, blast)
  then show ?thesis using fan_abort(1) none by (simp add: fan_sent_ok_def fs_todo_def)
qed

subsection \<open>What a subscriber receives\<close>

definition fan_recd_ok :: "('ch \<Rightarrow> indexed_event list) \<Rightarrow> ('ch \<Rightarrow> bool) \<Rightarrow> stream_config \<Rightarrow> 'ch fan_sys \<Rightarrow> bool" where
  "fan_recd_ok contents gone options s \<longleftrightarrow>
     (\<forall>a<fs_addrs s.
        (config_delivery_guarantee options = ReliableWithBackpressure \<longrightarrow> \<not> gone (w_chans (fs_world s) a) \<longrightarrow>
           fs_recd s a @ contents (w_chans (fs_world s) a) = fs_sent s a) \<and>
        (config_delivery_guarantee options = LossyWithoutBackpressure \<longrightarrow>
           queue_run (max_buffered_chunks options) (w_queues (fs_world s) a) (fs_sent s a) (fs_recd s a)))"

text \<open>A step that touches one subscriber keeps the invariant if it keeps it there.\<close>

lemma fan_recd_ok_at:
  assumes "fan_recd_ok contents gone options s" and "fs_addrs s' = fs_addrs s"
    and "\<And>b. b \<noteq> a \<Longrightarrow> w_chans (fs_world s') b = w_chans (fs_world s) b \<and> w_queues (fs_world s') b = w_queues (fs_world s) b
           \<and> fs_sent s' b = fs_sent s b \<and> fs_recd s' b = fs_recd s b"
    and "config_delivery_guarantee options = ReliableWithBackpressure \<Longrightarrow>
         (\<not> gone (w_chans (fs_world s) a) \<longrightarrow> fs_recd s a @ contents (w_chans (fs_world s) a) = fs_sent s a) \<Longrightarrow>
         \<not> gone (w_chans (fs_world s') a) \<Longrightarrow> fs_recd s' a @ contents (w_chans (fs_world s') a) = fs_sent s' a"
    and "config_delivery_guarantee options = LossyWithoutBackpressure \<Longrightarrow>
         queue_run (max_buffered_chunks options) (w_queues (fs_world s) a) (fs_sent s a) (fs_recd s a) \<Longrightarrow>
         queue_run (max_buffered_chunks options) (w_queues (fs_world s') a) (fs_sent s' a) (fs_recd s' a)"
  shows "fan_recd_ok contents gone options s'"
  unfolding fan_recd_ok_def
proof (intro allI impI conjI)
  fix b
  assume b: "b < fs_addrs s'" and r: "config_delivery_guarantee options = ReliableWithBackpressure"
    and g: "\<not> gone (w_chans (fs_world s') b)"
  have "\<not> gone (w_chans (fs_world s) b) \<longrightarrow> fs_recd s b @ contents (w_chans (fs_world s) b) = fs_sent s b"
    using assms(1,2) b r by (simp add: fan_recd_ok_def)
  then show "fs_recd s' b @ contents (w_chans (fs_world s') b) = fs_sent s' b"
    using assms(3) [of b] assms(4) [OF r] g by (cases "b = a") auto
next
  fix b
  assume b: "b < fs_addrs s'" and r: "config_delivery_guarantee options = LossyWithoutBackpressure"
  have "queue_run (max_buffered_chunks options) (w_queues (fs_world s) b) (fs_sent s b) (fs_recd s b)"
    using assms(1,2) b r by (simp add: fan_recd_ok_def)
  then show "queue_run (max_buffered_chunks options) (w_queues (fs_world s') b) (fs_sent s' b) (fs_recd s' b)"
    using assms(3) [of b] assms(5) [OF r] by (cases "b = a") auto
qed

lemma mpsc_okD:
  assumes "mpsc_ok ops contents gone"
  shows "contents (mpsc_channel ops n) = []"
    and "mpsc_send ops c e = (Ready True, c') \<Longrightarrow> \<not> gone c \<and> contents c' = contents c @ [e]"
    and "mpsc_send ops c e = (Ready False, c') \<Longrightarrow> gone c'"
    and "mpsc_send ops c e = (Pending, c') \<Longrightarrow> gone c' = gone c \<and> contents c' = contents c"
    and "mpsc_recv ops c = (Ready (Some e), c') \<Longrightarrow> gone c' = gone c \<and> contents c = e # contents c'"
    and "gone (mpsc_drop_rx ops c)"
  using assms unfolding mpsc_ok_def by blast+

lemma close_run:
  "queue_run n (qs a) p r \<Longrightarrow> queue_run n (fold (\<lambda>(sid, sender). sender_close sender) subs qs a) p r"
proof (induction subs arbitrary: qs)
  case (Cons x subs)
  have "queue_run n (sender_close (snd x) qs a) p r"
    using Cons.prems by (cases "snd x") (auto intro: qr_close)
  then show ?case using Cons.IH [of "sender_close (snd x) qs"] by (simp add: case_prod_beta)
qed simp

text \<open>A send keeps the invariant, whatever it answers; so does a receive.\<close>

lemma fan_recd_ok_send:
  assumes ops: "mpsc_ok ops contents gone" and recd: "fan_recd_ok contents gone options s" and t: "sender = tx_at options a"
    and send: "deliver_one ops (config_delivery_guarantee options) ie sender (fs_world s) = (r, w)"
    and s': "fs_world s' = w" "fs_recd s' = fs_recd s"
      "fs_sent s' = (if r = Ready True then (fs_sent s)(a := fs_sent s a @ [ie]) else fs_sent s)"
  shows "fan_recd_ok contents gone options s'"
proof (rule fan_recd_ok_at [OF recd, of _ a], goal_cases)
  case 3
  then obtain c' where "mpsc_send ops (w_chans (fs_world s) a) ie = (r, c')" "w_chans w a = c'"
    using send t by (auto simp: deliver_one_def tx_at_def split: prod.splits)
  then show ?case using 3 mpsc_okD(2-4) [OF ops, of "w_chans (fs_world s) a" ie c'] s' by (cases r) auto
next
  case 4
  then obtain ok q' where "live_queue_push (w_queues (fs_world s) a) ie = (ok, q')" "w_queues w a = q'" "r = Ready ok"
    using send t by (auto simp: deliver_one_def tx_at_def split: prod.splits)
  then show ?case using qr_push qr_refused 4 s' by (cases ok) auto
qed (use s' t deliver_one_frame [OF send] in auto)

lemma fan_recd_ok_receive:
  assumes ops: "mpsc_ok ops contents gone" and recd: "fan_recd_ok contents gone options s"
    and recv: "live_receiver_recv ops (rx_at options a) (fs_world s) = (Ready (Some ie), w)"
  shows "fan_recd_ok contents gone options (s\<lparr>fs_world := w, fs_recd := (fs_recd s)(a := fs_recd s a @ [ie])\<rparr>)"
proof (rule fan_recd_ok_at [OF recd, of _ a], goal_cases)
  case 3
  then obtain c' where "mpsc_recv ops (w_chans (fs_world s) a) = (Ready (Some ie), c')" "w_chans w a = c'"
    using recv by (auto simp: live_receiver_recv_def rx_at_def split: prod.splits)
  then show ?case using 3 mpsc_okD(5) [OF ops] by fastforce
next
  case 4
  then obtain q' where "live_queue_recv (w_queues (fs_world s) a) = (Ready (Some ie), q')" "w_queues w a = q'"
    using recv by (auto simp: live_receiver_recv_def rx_at_def split: prod.splits)
  then show ?case using qr_recv 4 by auto
qed (use live_receiver_recv_frame [OF recv] in auto)

lemma fan_recd_ok_step:
  assumes ops: "mpsc_ok ops contents gone" and reg: "registry_ok options s"
    and recd: "fan_recd_ok contents gone options s" and step: "fan_step ops options s s'"
  shows "fan_recd_ok contents gone options s'"
  using step
proof cases
  case (fan_delivered ie sid sender rest stale terminal w)
  note t = sender_in_todo(1) [OF reg fan_delivered(2)]
  show ?thesis by (rule fan_recd_ok_send [OF ops recd t fan_delivered(3)]) (simp_all add: fan_delivered(1))
next
  case (fan_refused ie sid sender rest stale terminal w)
  note t = sender_in_todo(1) [OF reg fan_refused(2)]
  show ?thesis by (rule fan_recd_ok_send [OF ops recd t fan_refused(3)]) (simp_all add: fan_refused(1))
next
  case (fan_blocked ie sid sender rest stale terminal w)
  note t = sender_in_todo(1) [OF reg fan_blocked(2)]
  show ?thesis by (rule fan_recd_ok_send [OF ops recd t fan_blocked(3)]) (simp_all add: fan_blocked(1))
next
  case (fan_subscribe sub w a)
  have new: "config_delivery_guarantee options = ReliableWithBackpressure \<Longrightarrow> w_chans w a = mpsc_channel ops (max_buffered_chunks options)"
    "config_delivery_guarantee options = LossyWithoutBackpressure \<Longrightarrow> w_queues w a = live_queue_new (max_buffered_chunks options)"
    using fan_subscribe(2,3) by (auto simp: try_subscribe_fanout_def Let_def replay_snapshot_def split: if_splits prod.splits)
  then show ?thesis
    using recd try_subscribe_frame(1,6) [OF fan_subscribe(2)] fan_subscribe(1,3) mpsc_okD(1) [OF ops]
    by (auto simp: fan_recd_ok_def less_Suc_eq qr_new)
next
  case (fan_receive a ie w)
  then show ?thesis using fan_recd_ok_receive [OF ops recd fan_receive(3)] by simp
next
  case (fan_drop_receiver a)
  show ?thesis
    by (rule fan_recd_ok_at [OF recd, of _ a]) (use fan_drop_receiver mpsc_okD(6) [OF ops] in auto)
next
  case fan_drop
  then show ?thesis
    using recd by (auto simp: fan_recd_ok_def fanout_drop_def close_for_drop_def intro: close_run)
qed (use recd in \<open>simp_all add: fan_recd_ok_def\<close>)

subsection \<open>Snapshots\<close>

definition fan_snap_ok :: "'ch fan_sys \<Rightarrow> bool" where
  "fan_snap_ok s \<longleftrightarrow>
     (\<forall>a<fs_addrs s. fs_start s a \<le> length (fs_log s) \<and> sorted_wrt (<) (map seq (fs_snap s a)) \<and>
        (\<forall>e\<in>set (fs_snap s a). seq e < fs_start s a \<and> fs_log s ! seq e = e))"

lemma snapshot_ok:
  assumes "log_ok lg st"
  shows "sorted_wrt (<) (map seq (fst (replay_snapshot st options)))"
    and "e \<in> set (fst (replay_snapshot st options)) \<Longrightarrow> seq e < length lg \<and> lg ! seq e = e"
proof -
  have replay: "sorted_wrt (<) (map seq (bs_replay st))" "\<And>e. e \<in> set (bs_replay st) \<Longrightarrow> seq e < length lg \<and> lg ! seq e = e"
    using assms by (auto simp: log_ok_def replay_ok_def)
  have last: "seq t = length lg - 1 \<and> seq t < length lg \<and> lg ! seq t = t" if "bs_terminal st = Some t" for t
    using assms that by (auto simp: log_ok_def last_conv_nth)
  have below: "seq e < seq t" if "e \<in> set (bs_replay st)" "bs_terminal st = Some t" for e t
  proof -
    have "is_indexed_chunk e" using assms that(1) by (auto simp: log_ok_def replay_ok_def list_all_iff)
    moreover have "is_terminal (ie_event t)" using assms that(2) by (auto simp: log_ok_def)
    ultimately have "e \<noteq> t" by (cases "ie_event t") (auto simp: is_indexed_chunk_def)
    then have "seq e \<noteq> seq t" using replay(2) [OF that(1)] last [OF that(2)] by auto
    then show ?thesis using replay(2) [OF that(1)] last [OF that(2)] by linarith
  qed
  show "sorted_wrt (<) (map seq (fst (replay_snapshot st options)))"
    using replay(1) below by (auto simp: replay_snapshot_def sorted_wrt_append split: option.splits)
  show "e \<in> set (fst (replay_snapshot st options)) \<Longrightarrow> seq e < length lg \<and> lg ! seq e = e"
    using replay(2) last by (cases "bs_terminal st") (auto simp: replay_snapshot_def split: if_splits)
qed

lemma fan_snap_ok_step:
  assumes "log_ok (fs_log s) (fs_state s)" and "fan_snap_ok s" and "fan_step ops options s s'"
  shows "fan_snap_ok s'"
  using assms(3)
proof cases
  case (fan_publish ev ie subs terminal st)
  then show ?thesis
    using assms(2) by (auto simp: fan_snap_ok_def nth_append) (meson less_le_trans)+
next
  case (fan_delivered ie sid sender rest stale terminal w)
  then show ?thesis using assms(2) deliver_one_frame [OF fan_delivered(3)] by (simp add: fan_snap_ok_def)
next
  case (fan_refused ie sid sender rest stale terminal w)
  then show ?thesis using assms(2) deliver_one_frame [OF fan_refused(3)] by (simp add: fan_snap_ok_def)
next
  case (fan_blocked ie sid sender rest stale terminal w)
  then show ?thesis using assms(2) deliver_one_frame [OF fan_blocked(3)] by (simp add: fan_snap_ok_def)
next
  case (fan_subscribe sub w a)
  note frame = try_subscribe_frame [OF fan_subscribe(2)]
  have "live_start_seq sub = length (fs_log s)" using frame(2) assms(1) by (simp add: log_ok_def)
  then show ?thesis
    using assms(2) snapshot_ok(1) [OF assms(1), of options] snapshot_ok(2) [OF assms(1), of _ options] frame(1,3) fan_subscribe(1,3)
    by (auto simp: fan_snap_ok_def less_Suc_eq)
next
  case (fan_receive a ie w)
  then show ?thesis using assms(2) live_receiver_recv_frame [OF fan_receive(3)] by (simp add: fan_snap_ok_def)
next
  case fan_drop
  then show ?thesis using assms(2) by (simp add: fan_snap_ok_def fanout_drop_def close_for_drop_def)
qed (use assms(2) in \<open>simp_all add: fan_snap_ok_def\<close>)

text \<open>While replay is not sealed, the window is the retention's window of all published chunks.\<close>

definition log_chunks :: "indexed_event list \<Rightarrow> bytes list" where
  "log_chunks lg = map payload (filter is_indexed_chunk lg)"

definition fan_window_ok :: "stream_config \<Rightarrow> 'ch fan_sys \<Rightarrow> bool" where
  "fan_window_ok options s \<longleftrightarrow>
     (\<not> bs_replay_sealed (fs_state s) \<longrightarrow>
        bs_window (fs_state s) = window_spec (config_replay_retention options) (log_chunks (fs_log s)))"

lemma payload_chunk: "is_chunk ev \<Longrightarrow> payload (indexed n ev) = payload (indexed m ev)"
  by (cases ev) simp_all

lemma window_pushed:
  assumes "log_ok (fs_log s) (fs_state s)" and "fan_window_ok options s"
    and "append_lock (fs_state s) options ev = Inr (Some (ie, subs, terminal), st)" "\<not> bs_replay_sealed st"
  shows "bs_window st = window_spec (config_replay_retention options) (log_chunks (fs_log s @ [ie]))"
proof -
  let ?r = "config_replay_retention options"
  obtain st1 where st1: "ie = indexed (next_seq (fs_state s)) ev" "pushed (fs_state s) ev options st1"
      "st = st1\<lparr>subscribers := (if is_terminal ev then [] else subscribers (fs_state s))\<rparr>"
    using append_lock_pushed [OF _ assms(3)] assms(1) by (auto simp: log_ok_def)
  have chunks: "log_chunks (fs_log s @ [ie]) = log_chunks (fs_log s) @ (if is_chunk ev then [payload (indexed 0 ev)] else [])"
    using st1(1) payload_chunk [of ev "next_seq (fs_state s)" 0] by (simp add: log_chunks_def is_indexed_chunk_def)
  have unsealed: "\<not> bs_replay_sealed (fs_state s)" using assms(4) st1(2,3) by (simp add: pushed_def)
  then have "bs_window (fs_state s) = window_spec ?r (log_chunks (fs_log s))"
    using assms(2) by (simp add: fan_window_ok_def)
  then show ?thesis
    using st1(2,3) unsealed chunks window_spec_append [of ?r "log_chunks (fs_log s)"]
    by (cases ?r) (auto simp: pushed_def retains_def)
qed

lemma fan_window_ok_step:
  assumes "log_ok (fs_log s) (fs_state s)" and "fan_window_ok options s" and "fan_step ops options s s'"
  shows "fan_window_ok options s'"
  using assms(3)
proof cases
  case (fan_publish ev ie subs terminal st)
  then show ?thesis using window_pushed [OF assms(1,2) fan_publish(4)] by (simp add: fan_window_ok_def)
next
  case (fan_delivered ie sid sender rest stale terminal w)
  then show ?thesis using assms(2) deliver_one_frame [OF fan_delivered(3)] by (simp add: fan_window_ok_def)
next
  case (fan_refused ie sid sender rest stale terminal w)
  then show ?thesis using assms(2) deliver_one_frame [OF fan_refused(3)] by (simp add: fan_window_ok_def)
next
  case (fan_blocked ie sid sender rest stale terminal w)
  then show ?thesis using assms(2) deliver_one_frame [OF fan_blocked(3)] by (simp add: fan_window_ok_def)
next
  case (fan_subscribe sub w a)
  then show ?thesis using assms(2) try_subscribe_frame(7,8) [OF fan_subscribe(2)] by (simp add: fan_window_ok_def)
next
  case (fan_receive a ie w)
  then show ?thesis using assms(2) live_receiver_recv_frame [OF fan_receive(3)] by (simp add: fan_window_ok_def)
qed (use assms(2) in \<open>simp_all add: fan_window_ok_def remove_subscriber_def seal_replay_def clear_replay_def Let_def
    fanout_drop_def close_for_drop_def\<close>)

subsection \<open>Reachable states\<close>

definition fan_ok :: "('ch \<Rightarrow> indexed_event list) \<Rightarrow> ('ch \<Rightarrow> bool) \<Rightarrow> stream_config \<Rightarrow> 'ch fan_sys \<Rightarrow> bool" where
  "fan_ok contents gone options s \<longleftrightarrow>
     log_ok (fs_log s) (fs_state s) \<and> registry_ok options s \<and> fan_sent_ok gone options s \<and>
     fan_recd_ok contents gone options s \<and> fan_snap_ok s \<and> fan_window_ok options s"

lemma fan_reachable_ok:
  assumes "mpsc_ok ops contents gone" and "fan_reachable ops options s"
  shows "fan_ok contents gone options s"
  using assms(2)
proof (rule fan_invariant [rotated 2])
  fix s :: "'a fan_sys"
  assume "fan_initial s"
  then show "fan_ok contents gone options s"
    by (simp add: fan_initial_def fan_ok_def log_ok_new registry_ok_def fs_todo_def fan_sent_ok_def sent_ok_def
        fan_recd_ok_def fan_snap_ok_def fan_window_ok_def log_chunks_def)
      (simp add: broadcast_state_new_def)
next
  fix s s' :: "'a fan_sys"
  assume ok: "fan_ok contents gone options s" and step: "fan_step ops options s s'"
  then show "fan_ok contents gone options s'"
    using log_ok_step [OF _ step] registry_ok_step [OF _ _ step] fan_sent_ok_step [OF assms(1) _ _ _ step]
      fan_recd_ok_step [OF assms(1) _ _ step] fan_snap_ok_step [OF _ _ step] fan_window_ok_step [OF _ _ step]
    by (simp add: fan_ok_def)
qed

lemma log_slice_seq:
  assumes "log_ok lg st" and "i \<le> k" and "k \<le> length lg"
  shows "map seq (slice lg i k) = [i..<k]"
  using assms by (auto simp: slice_def log_ok_def intro!: nth_equalityI)

section \<open>A concrete channel and a run\<close>

text \<open>A bounded channel as its contents, capacity and whether the receiver is gone.\<close>

definition example_mpsc :: "(indexed_event list \<times> nat \<times> bool) mpsc_ops" where
  "example_mpsc =
     \<lparr>mpsc_channel = (\<lambda>n. ([], n, False)),
      mpsc_send = (\<lambda>(es, n, g) e. if g then (Ready False, (es, n, g))
                     else if n \<le> length es then (Pending, (es, n, g)) else (Ready True, (es @ [e], n, g))),
      mpsc_recv = (\<lambda>(es, n, g). case es of [] \<Rightarrow> (Pending, (es, n, g)) | e # es' \<Rightarrow> (Ready (Some e), (es', n, g))),
      mpsc_drop_rx = (\<lambda>(es, n, g). (es, n, True))\<rparr>"

lemma example_mpsc_ok: "mpsc_ok example_mpsc fst (snd \<circ> snd)"
  by (auto simp: mpsc_ok_def example_mpsc_def split: if_splits list.splits)

definition example_config :: "delivery \<Rightarrow> stream_config" where
  "example_config d =
     \<lparr>read_chunk_size = NumBytes 4, max_buffered_chunks = 1, config_delivery = d, config_replay = ReplayEnabled RetainAll\<rparr>"

definition example_start :: "(indexed_event list \<times> nat \<times> bool) fan_sys" where
  "example_start =
     \<lparr>fs_world = \<lparr>w_state = broadcast_state_new, w_queues = (\<lambda>_. live_queue_new 0), w_chans = (\<lambda>_. ([], 0, False)), w_next_addr = 0\<rparr>,
      fs_inflight = None, fs_log = [], fs_start = (\<lambda>_. 0), fs_snap = (\<lambda>_. []), fs_sent = (\<lambda>_. []), fs_recd = (\<lambda>_. [])\<rparr>"

text \<open>One subscriber, one chunk published and delivered.\<close>

definition run_subscribe :: "'ch mpsc_ops \<Rightarrow> stream_config \<Rightarrow> 'ch fan_sys \<Rightarrow> 'ch fan_sys" where
  "run_subscribe ops options s =
     (case try_subscribe_fanout ops options (fs_world s) of (sub, w) \<Rightarrow>
        let a = w_next_addr (fs_world s) in
        s\<lparr>fs_world := w, fs_start := (fs_start s)(a := live_start_seq sub), fs_snap := (fs_snap s)(a := sub_replay sub),
          fs_sent := (fs_sent s)(a := []), fs_recd := (fs_recd s)(a := [])\<rparr>)"

lemma run_subscribe_reachable:
  "fan_reachable ops options s \<Longrightarrow> fan_reachable ops options (run_subscribe ops options s)"
  by (cases "try_subscribe_fanout ops options (fs_world s)")
    (auto simp: run_subscribe_def Let_def intro: fan_next fan_subscribe)

lemma example_run:
  "\<exists>s. fan_reachable example_mpsc (example_config d) s \<and> fs_addrs s = 1 \<and>
     fs_log s = [indexed 0 (Chunk ''ab'')] \<and> fs_start s 0 = 0 \<and> fs_inflight s = None \<and>
     \<not> dead (snd \<circ> snd) (example_config d) (fs_world s) 0 \<and> \<not> bs_replay_sealed (fs_state s) \<and> 0 \<in> addrs (subscribers (fs_state s))"
proof -
  let ?o = "example_config d"
  let ?s1 = "run_subscribe example_mpsc ?o example_start"
  have r1: "fan_reachable example_mpsc ?o ?s1"
    by (intro run_subscribe_reachable fan_init) (simp add: fan_initial_def example_start_def)
  define s2 where "s2 = ?s1\<lparr>fs_world := (fs_world ?s1)\<lparr>w_state := snd (projr (append_lock (fs_state ?s1) ?o (Chunk ''ab'')))\<rparr>,
     fs_inflight := Some (indexed 0 (Chunk ''ab''), [(0, tx_at ?o 0)], [], False), fs_log := [indexed 0 (Chunk ''ab'')]\<rparr>"
  note defs = run_subscribe_def try_subscribe_fanout_def example_start_def broadcast_state_new_def add_subscriber_def
    replay_snapshot_def Let_def append_lock_def push_event_def bs_trim_replay_window_def example_config_def
    config_replay_retention_def config_delivery_guarantee_def front_seq_def tx_at_def
  have st1: "bs_terminal (fs_state ?s1) = None" "fs_inflight ?s1 = None" "fs_log ?s1 = []"
    "append_lock (fs_state ?s1) ?o (Chunk ''ab'') =
       Inr (Some (indexed 0 (Chunk ''ab''), [(0, tx_at ?o 0)], False), snd (projr (append_lock (fs_state ?s1) ?o (Chunk ''ab''))))"
    by (cases d; simp add: defs)+
  have "fan_step example_mpsc ?o ?s1 s2"
    using fan_publish [OF st1(2,1,4), of example_mpsc] st1(3) by (simp add: s2_def)
  with r1 have r2: "fan_reachable example_mpsc ?o s2" by (rule fan_next)
  define w where "w = snd (deliver_one example_mpsc (config_delivery_guarantee ?o) (indexed 0 (Chunk ''ab'')) (tx_at ?o 0) (fs_world s2))"
  have d1: "deliver_one example_mpsc (config_delivery_guarantee ?o) (indexed 0 (Chunk ''ab'')) (tx_at ?o 0) (fs_world s2) = (Ready True, w)"
    by (cases d; simp add: w_def s2_def deliver_one_def example_mpsc_def live_queue_push_def live_queue_new_def defs)
  define s3 where "s3 = s2\<lparr>fs_world := w, fs_inflight := Some (indexed 0 (Chunk ''ab''), [], [], False),
          fs_sent := (fs_sent s2)(sender_addr (tx_at ?o 0) := fs_sent s2 (sender_addr (tx_at ?o 0)) @ [indexed 0 (Chunk ''ab'')])\<rparr>"
  have "fan_step example_mpsc ?o s2 s3"
    unfolding s3_def by (rule fan_delivered [OF _ d1]) (simp add: s2_def)
  with r2 have r3: "fan_reachable example_mpsc ?o s3" by (rule fan_next)
  define s4 where "s4 = s3\<lparr>fs_world := (fs_world s3)\<lparr>w_state := append_cleanup False [] (fs_state s3)\<rparr>, fs_inflight := None\<rparr>"
  have "fan_step example_mpsc ?o s3 s4"
    unfolding s4_def by (rule fan_published) (simp add: s3_def)
  with r3 have r4: "fan_reachable example_mpsc ?o s4" by (rule fan_next)
  show ?thesis
    by (intro exI [of _ s4] conjI r4; cases d;
        simp add: s4_def s3_def w_def s2_def deliver_one_def example_mpsc_def live_queue_push_def live_queue_new_def
          append_cleanup_def dead_def defs)
qed

section \<open>Properties of the fan-out backend\<close>

text \<open>C5: with reliable delivery, in every interleaving of publishing, subscribing, receiving,
  unsubscribing, sealing and dropping, a subscriber whose receiver exists has received, followed by
  what is still in its channel, exactly a contiguous block of the published events that starts where
  its snapshot ends: no gap, no duplicate, no reordering; and once no event is being delivered a
  registered subscriber has been handed everything up to the last published event.\<close>

theorem reliable_delivery_gap_free:
  assumes "mpsc_ok ops contents gone" and "fan_reachable ops options s"
    and "config_delivery_guarantee options = ReliableWithBackpressure"
    and "a < fs_addrs s" and "\<not> gone (w_chans (fs_world s) a)"
  shows "\<exists>k. fs_start s a \<le> k \<and> k \<le> length (fs_log s) \<and>
     fs_recd s a @ contents (w_chans (fs_world s) a) = slice (fs_log s) (fs_start s a) k \<and>
     map seq (slice (fs_log s) (fs_start s a) k) = [fs_start s a..<k] \<and>
     (fs_inflight s = None \<and> a \<in> addrs (subscribers (fs_state s)) \<longrightarrow> k = length (fs_log s))"
proof -
  have ok: "fan_ok contents gone options s" by (rule fan_reachable_ok [OF assms(1,2)])
  then obtain k where k: "fs_start s a \<le> k" "k \<le> length (fs_log s)" "fs_sent s a = slice (fs_log s) (fs_start s a) k"
      "\<not> dead gone options (fs_world s) a \<longrightarrow> a \<notin> addrs (fs_todo s) \<and> a \<in> addrs (subscribers (fs_state s)) \<longrightarrow> k = length (fs_log s)"
    using assms(4) unfolding fan_ok_def fan_sent_ok_def sent_ok_def by blast
  have "fs_recd s a @ contents (w_chans (fs_world s) a) = fs_sent s a"
    using ok assms(3-5) by (simp add: fan_ok_def fan_recd_ok_def)
  moreover have "map seq (slice (fs_log s) (fs_start s a) k) = [fs_start s a..<k]"
    using ok k(1,2) log_slice_seq unfolding fan_ok_def by blast
  moreover have "fs_inflight s = None \<and> a \<in> addrs (subscribers (fs_state s)) \<longrightarrow> k = length (fs_log s)"
    using k(4) assms(3,5) by (simp add: dead_def fs_todo_def)
  ultimately show ?thesis using k(1-3) by (intro exI [of _ k]) simp
qed

theorem reliable_delivery_gap_free_witness:
  "\<exists>s. fan_reachable example_mpsc (example_config ReliableMarker) s \<and>
     fs_recd s 0 @ fst (w_chans (fs_world s) 0) = [indexed 0 (Chunk ''ab'')]"
proof -
  obtain s where s: "fan_reachable example_mpsc (example_config ReliableMarker) s" "fs_addrs s = 1"
      "fs_log s = [indexed 0 (Chunk ''ab'')]" "fs_start s 0 = 0" "fs_inflight s = None"
      "\<not> dead (snd \<circ> snd) (example_config ReliableMarker) (fs_world s) 0" "0 \<in> addrs (subscribers (fs_state s))"
    using example_run by blast
  have g: "config_delivery_guarantee (example_config ReliableMarker) = ReliableWithBackpressure"
    by (simp add: config_delivery_guarantee_def example_config_def)
  have "\<exists>k. fs_recd s 0 @ fst (w_chans (fs_world s) 0) = slice (fs_log s) (fs_start s 0) k \<and> k = length (fs_log s)"
    using reliable_delivery_gap_free [OF example_mpsc_ok s(1) g, of 0] s(2,5,6,7) g by (auto simp: dead_def)
  then show ?thesis using s(1,3,4) by (auto simp: slice_def)
qed

text \<open>What a best-effort subscriber was pushed is a block of the published events.\<close>

lemma best_effort_block:
  assumes "mpsc_ok ops contents gone" and "fan_reachable ops options s"
    and "config_delivery_guarantee options = LossyWithoutBackpressure" and "a < fs_addrs s"
  shows "\<exists>k. fs_start s a \<le> k \<and> k \<le> length (fs_log s) \<and>
     lossy (fs_recd s a @ lq_events (w_queues (fs_world s) a)) (slice (fs_log s) (fs_start s a) k) \<and>
     length (lq_events (w_queues (fs_world s) a)) \<le> max (max_buffered_chunks options) 1 + 1 \<and>
     (fs_inflight s = None \<and> a \<in> addrs (subscribers (fs_state s)) \<and> \<not> lq_closed (w_queues (fs_world s) a)
        \<longrightarrow> k = length (fs_log s))"
proof -
  have ok: "fan_ok contents gone options s" by (rule fan_reachable_ok [OF assms(1,2)])
  then obtain k where k: "fs_start s a \<le> k" "k \<le> length (fs_log s)" "fs_sent s a = slice (fs_log s) (fs_start s a) k"
      "\<not> dead gone options (fs_world s) a \<longrightarrow> a \<notin> addrs (fs_todo s) \<and> a \<in> addrs (subscribers (fs_state s)) \<longrightarrow> k = length (fs_log s)"
    using assms(4) unfolding fan_ok_def fan_sent_ok_def sent_ok_def by blast
  have "queue_run (max_buffered_chunks options) (w_queues (fs_world s) a) (fs_sent s a) (fs_recd s a)"
    using ok assms(3,4) by (simp add: fan_ok_def fan_recd_ok_def)
  then have "lossy (fs_recd s a @ lq_events (w_queues (fs_world s) a)) (slice (fs_log s) (fs_start s a) k)"
    "length (lq_events (w_queues (fs_world s) a)) \<le> max (max_buffered_chunks options) 1 + 1"
    using queue_run_lossy queue_run_bound k(3) by (fastforce split: if_splits)+
  moreover have "fs_inflight s = None \<and> a \<in> addrs (subscribers (fs_state s)) \<and> \<not> lq_closed (w_queues (fs_world s) a)
      \<longrightarrow> k = length (fs_log s)"
    using k(4) assms(3) by (simp add: dead_def fs_todo_def)
  ultimately show ?thesis using k(1,2) by blast
qed

text \<open>C13: with lossy delivery, in every interleaving, what a subscriber has received and still has
  queued is, up to runs of lost events that are replaced by a gap marker, a contiguous block of the
  published events that starts where its snapshot ends; and its queue is bounded.\<close>

theorem best_effort_delivery_lossy:
  assumes "mpsc_ok ops contents gone" and "fan_reachable ops options s"
    and "config_delivery_guarantee options = LossyWithoutBackpressure" and "a < fs_addrs s"
  shows "\<exists>k. fs_start s a \<le> k \<and> k \<le> length (fs_log s) \<and>
     lossy (fs_recd s a @ lq_events (w_queues (fs_world s) a)) (slice (fs_log s) (fs_start s a) k) \<and>
     length (lq_events (w_queues (fs_world s) a)) \<le> max (max_buffered_chunks options) 1 + 1 \<and>
     (fs_inflight s = None \<and> a \<in> addrs (subscribers (fs_state s)) \<and> \<not> lq_closed (w_queues (fs_world s) a)
        \<longrightarrow> k = length (fs_log s))"
  by (rule best_effort_block [OF assms])

theorem best_effort_delivery_lossy_witness:
  "\<exists>s. fan_reachable example_mpsc (example_config LossyMarker) s \<and>
     lossy (fs_recd s 0 @ lq_events (w_queues (fs_world s) 0)) [indexed 0 (Chunk ''ab'')]"
proof -
  obtain s where s: "fan_reachable example_mpsc (example_config LossyMarker) s" "fs_addrs s = 1"
      "fs_log s = [indexed 0 (Chunk ''ab'')]" "fs_start s 0 = 0" "fs_inflight s = None"
      "\<not> dead (snd \<circ> snd) (example_config LossyMarker) (fs_world s) 0" "0 \<in> addrs (subscribers (fs_state s))"
    using example_run by blast
  have g: "config_delivery_guarantee (example_config LossyMarker) = LossyWithoutBackpressure"
    by (simp add: config_delivery_guarantee_def example_config_def)
  have "lossy (fs_recd s 0 @ lq_events (w_queues (fs_world s) 0)) (slice (fs_log s) (fs_start s 0) (length (fs_log s)))"
    using best_effort_delivery_lossy [OF example_mpsc_ok s(1) g, of 0] s(2,5,6,7) g by (auto simp: dead_def)
  then show ?thesis using s(1,3,4) by (auto simp: slice_def)
qed

text \<open>What a subscription that is opened in a reachable state replays.\<close>

lemma snapshot_contents:
  assumes "mpsc_ok ops contents gone" and "fan_reachable ops options s"
    and "try_subscribe_fanout ops options (fs_world s) = (sub, w)"
  defines "window \<equiv> if bs_replay_sealed (fs_state s) then []
    else window_spec (config_replay_retention options) (log_chunks (fs_log s))"
  shows "map payload (filter is_indexed_chunk (sub_replay sub)) = window"
    and "map ie_event (sub_replay sub) = map Chunk window @
      (if fs_log s \<noteq> [] \<and> is_terminal (ie_event (last (fs_log s))) then [ie_event (last (fs_log s))] else [])"
    and "live_start_seq sub = length (fs_log s)" and "sorted_wrt (<) (map seq (sub_replay sub))"
    and "\<forall>e. e \<in> set (sub_replay sub) \<longrightarrow> seq e < live_start_seq sub \<and> fs_log s ! seq e = e"
proof -
  have ok: "fan_ok contents gone options s" by (rule fan_reachable_ok [OF assms(1,2)])
  then have lg: "log_ok (fs_log s) (fs_state s)" and win: "fan_window_ok options s" by (simp_all add: fan_ok_def)
  note frame = try_subscribe_frame(2,3) [OF assms(3)]
  let ?t = "case bs_terminal (fs_state s) of Some t \<Rightarrow> [t] | None \<Rightarrow> []"
  define kept where "kept = (if config_replay_retention options \<noteq> None \<and> \<not> bs_replay_sealed (fs_state s) then bs_replay (fs_state s) else [])"
  have replay: "sub_replay sub = kept @ ?t" using frame(2) by (simp add: replay_snapshot_def kept_def)
  have chunks: "\<forall>e\<in>set kept. is_indexed_chunk e"
    using lg by (auto simp: kept_def log_ok_def replay_ok_def list_all_iff)
  have terminal: "?t = (if fs_log s \<noteq> [] \<and> is_terminal (ie_event (last (fs_log s))) then [last (fs_log s)] else [])"
    using lg by (auto simp: log_ok_def split: option.splits)
  have "bs_window (fs_state s) = []" if "config_replay_retention options = None" "\<not> bs_replay_sealed (fs_state s)"
    using win that by (simp add: fan_window_ok_def)
  then have kept: "map payload kept = window" using win by (auto simp: kept_def window_def fan_window_ok_def)
  have "ie_event e = Chunk (payload e)" if "is_indexed_chunk e" for e
    using that by (cases "ie_event e") (auto simp: is_indexed_chunk_def payload_def)
  then have "map ie_event kept = map Chunk (map payload kept)" using chunks by simp
  then show "map ie_event (sub_replay sub) = map Chunk window @
      (if fs_log s \<noteq> [] \<and> is_terminal (ie_event (last (fs_log s))) then [ie_event (last (fs_log s))] else [])"
    unfolding replay terminal using kept by simp
  have "filter is_indexed_chunk ?t = []"
    unfolding terminal by (cases "ie_event (last (fs_log s))") (auto simp: is_indexed_chunk_def)
  then show "map payload (filter is_indexed_chunk (sub_replay sub)) = window"
    unfolding replay using chunks kept by (simp add: filter_id_conv [THEN iffD2])
  show "live_start_seq sub = length (fs_log s)" "sorted_wrt (<) (map seq (sub_replay sub))"
    and "\<forall>e. e \<in> set (sub_replay sub) \<longrightarrow> seq e < live_start_seq sub \<and> fs_log s ! seq e = e"
    using snapshot_ok(1) [OF lg, of options] snapshot_ok(2) [OF lg, of _ options] frame lg by (auto simp: log_ok_def)
qed

text \<open>C12: a subscriber that attaches late sees, before live output, exactly the chunks that the
  retention setting keeps of everything published so far (none once replay is sealed), followed by
  the terminal event if the stream has ended, and nothing else; all of it was published, in order, and
  lies before its live start.\<close>

theorem late_subscriber_snapshot:
  assumes "mpsc_ok ops contents gone" and "fan_reachable ops options s"
    and "try_subscribe_fanout ops options (fs_world s) = (sub, w)"
  shows "map ie_event (sub_replay sub) =
       map Chunk (if bs_replay_sealed (fs_state s) then []
         else window_spec (config_replay_retention options) (log_chunks (fs_log s))) @
       (if fs_log s \<noteq> [] \<and> is_terminal (ie_event (last (fs_log s))) then [ie_event (last (fs_log s))] else []) \<and>
     live_start_seq sub = length (fs_log s) \<and> sorted_wrt (<) (map seq (sub_replay sub)) \<and>
     (\<forall>e. e \<in> set (sub_replay sub) \<longrightarrow> seq e < live_start_seq sub \<and> fs_log s ! seq e = e)"
  using snapshot_contents(2-5) [OF assms] by blast

theorem late_subscriber_snapshot_witness:
  "\<exists>s. fan_reachable example_mpsc (example_config LossyMarker) s \<and>
     map ie_event (sub_replay (fst (try_subscribe_fanout example_mpsc (example_config LossyMarker) (fs_world s)))) = [Chunk ''ab'']"
proof -
  obtain s where s: "fan_reachable example_mpsc (example_config LossyMarker) s"
      "fs_log s = [indexed 0 (Chunk ''ab'')]" "\<not> bs_replay_sealed (fs_state s)"
    using example_run by blast
  obtain sub w where sub: "try_subscribe_fanout example_mpsc (example_config LossyMarker) (fs_world s) = (sub, w)" by force
  show ?thesis
    using late_subscriber_snapshot [OF example_mpsc_ok s(1) sub] s sub
    by (auto simp: log_chunks_def is_indexed_chunk_def config_replay_retention_def example_config_def)
qed

lemma live_event_seq:
  assumes "mpsc_ok ops contents gone" and "fan_reachable ops options s" and "a < fs_addrs s"
    and "config_delivery_guarantee options = ReliableWithBackpressure \<Longrightarrow> \<not> gone (w_chans (fs_world s) a)"
    and "live_receiver_recv ops (rx_at options a) (fs_world s) = (Ready (Some ie), w)"
  shows "fs_start s a \<le> seq ie"
proof -
  have ok: "fan_ok contents gone options s" by (rule fan_reachable_ok [OF assms(1,2)])
  then obtain k where k: "fs_start s a \<le> k" "k \<le> length (fs_log s)" "fs_sent s a = slice (fs_log s) (fs_start s a) k"
    using assms(3) unfolding fan_ok_def fan_sent_ok_def sent_ok_def by blast
  have "seq ` set (fs_sent s a) = {fs_start s a..<k}"
    using log_slice_seq [of "fs_log s" "fs_state s" "fs_start s a" k] ok k by (metis fan_ok_def list.set_map set_upt)
  moreover have "seq ie \<in> seq ` set (fs_sent s a)"
  proof (cases "config_delivery_guarantee options")
    case ReliableWithBackpressure
    then obtain c' where "mpsc_recv ops (w_chans (fs_world s) a) = (Ready (Some ie), c')"
      using assms(5) by (auto simp: live_receiver_recv_def rx_at_def split: prod.splits)
    then have "ie \<in> set (contents (w_chans (fs_world s) a))" using mpsc_okD(5) [OF assms(1)] by fastforce
    moreover have "fs_recd s a @ contents (w_chans (fs_world s) a) = fs_sent s a"
      using ok assms(3,4) ReliableWithBackpressure by (simp add: fan_ok_def fan_recd_ok_def)
    ultimately have "ie \<in> set (fs_sent s a)" by (metis Un_iff set_append)
    then show ?thesis by simp
  next
    case LossyWithoutBackpressure
    then have "ie \<in> set (lq_events (w_queues (fs_world s) a))"
      using assms(5)
      by (auto simp: live_receiver_recv_def rx_at_def live_queue_recv_def split: prod.splits list.splits if_splits)
    moreover have "queue_run (max_buffered_chunks options) (w_queues (fs_world s) a) (fs_sent s a) (fs_recd s a)"
      using ok assms(3) LossyWithoutBackpressure by (simp add: fan_ok_def fan_recd_ok_def)
    ultimately show ?thesis using queue_run_seq by fastforce
  qed
  ultimately show ?thesis by auto
qed

text \<open>C30: receiving on a subscription always returns (or waits), never loops: every event that reaches
  its channel lies behind its live start, so the code that skips already replayed events never skips
  one, and the replayed events followed by the live ones are observed without loss at the seam.\<close>

theorem receiving_never_skips:
  assumes "mpsc_ok ops contents gone" and "fan_reachable ops options s" and "a < fs_addrs s"
    and "config_delivery_guarantee options = ReliableWithBackpressure \<Longrightarrow> \<not> gone (w_chans (fs_world s) a)"
    and "sub_receiver sub = rx_at options a" and "live_start_seq sub = fs_start s a"
  shows "\<exists>r sub' w'. shared_recv ops sub (fs_world s) = Some (r, sub', w') \<and>
     (sub_replay sub \<noteq> [] \<longrightarrow> r = Ready (Some (ie_event (hd (sub_replay sub))))) \<and>
     (sub_replay sub = [] \<longrightarrow> r = (case fst (live_receiver_recv ops (rx_at options a) (fs_world s)) of
        Ready (Some ie) \<Rightarrow> Ready (Some (ie_event ie)) | Ready None \<Rightarrow> Ready None | Pending \<Rightarrow> Pending))"
proof (cases "sub_replay sub")
  case Nil
  obtain r w where r: "live_receiver_recv ops (rx_at options a) (fs_world s) = (r, w)" by force
  have unfold: "recv_live ops sub (fs_world s) = (case (r, w) of
        (Pending, w') \<Rightarrow> Some (Pending, sub, w')
      | (Ready None, w') \<Rightarrow> Some (Ready None, sub, w')
      | (Ready (Some ie), w') \<Rightarrow>
          if seq ie < live_start_seq sub then recv_live ops sub w'
          else (case detach_if_terminal ie sub w' of
                  (sub', w'') \<Rightarrow> Some (Ready (Some (ie_event ie)), sub', w'')))"
    using r assms(5) by (subst recv_live.simps) simp
  have "\<not> seq ie < live_start_seq sub" if "r = Ready (Some ie)" for ie
    using live_event_seq [OF assms(1-4)] r that assms(6) by auto
  then show ?thesis
    using Nil unfold r
    by (cases r) (auto simp: shared_recv_def split: option.splits prod.splits)
next
  case (Cons ie rest)
  then show ?thesis by (simp add: shared_recv_def split: prod.split)
qed

theorem receiving_never_skips_witness:
  "\<exists>s r sub' w'. shared_recv example_mpsc
      \<lparr>sub_id = Some 0, sub_replay = [], live_start_seq = 0, sub_receiver = BestEffortRx 0, sub_done = False\<rparr> (fs_world s)
      = Some (r, sub', w') \<and> fan_reachable example_mpsc (example_config LossyMarker) s"
proof -
  obtain s where s: "fan_reachable example_mpsc (example_config LossyMarker) s" "fs_addrs s = 1" "fs_start s 0 = 0"
    using example_run by blast
  have rx: "BestEffortRx 0 = rx_at (example_config LossyMarker) 0"
    "config_delivery_guarantee (example_config LossyMarker) \<noteq> ReliableWithBackpressure"
    by (simp_all add: rx_at_def config_delivery_guarantee_def example_config_def)
  show ?thesis
    using receiving_never_skips [OF example_mpsc_ok s(1), of 0 "\<lparr>sub_id = Some 0, sub_replay = [], live_start_seq = 0,
        sub_receiver = BestEffortRx 0, sub_done = False\<rparr>"] s rx by auto
qed

text \<open>C39: dropping the stream ends an open best-effort subscription whose queue is drained: its next
  event is \<open>None\<close>, although it never saw an end-of-file or a read error.\<close>

theorem drop_closes_without_terminal:
  assumes "(sid, BestEffortSender a) \<in> set (subscribers (w_state w))" and "lq_events (w_queues w a) = []"
    and "sub_replay sub = []" and "sub_receiver sub = BestEffortRx a"
  shows "shared_recv ops sub (fanout_drop w) = Some (Ready None, sub, fanout_drop w)"
proof -
  let ?f = "fold (\<lambda>(sid, sender). sender_close sender)"
  have closed: "lq_closed (qs b) \<Longrightarrow> lq_closed (?f subs qs b)" for qs :: "nat \<Rightarrow> live_queue" and b and subs :: "(u64 \<times> subscriber_sender) list"
  proof (induction subs arbitrary: qs)
    case (Cons x subs)
    then show ?case by (cases x; cases "snd x") (auto simp: live_queue_close_def)
  qed simp
  have events: "lq_events (?f subs qs b) = lq_events (qs b)" for qs :: "nat \<Rightarrow> live_queue" and b and subs :: "(u64 \<times> subscriber_sender) list"
  proof (induction subs arbitrary: qs)
    case (Cons x subs)
    then show ?case by (cases x; cases "snd x") (auto simp: live_queue_close_def)
  qed simp
  have "(sid, BestEffortSender a) \<in> set subs \<Longrightarrow> lq_closed (?f subs qs a)" for qs :: "nat \<Rightarrow> live_queue" and subs
  proof (induction subs arbitrary: qs)
    case (Cons x subs)
    then show ?case by (auto intro: closed simp: live_queue_close_def)
  qed simp
  then have "lq_closed (w_queues (fanout_drop w) a)" "lq_events (w_queues (fanout_drop w) a) = []"
    using assms(1,2) events by (simp_all add: fanout_drop_def close_for_drop_def)
  then have "live_receiver_recv ops (BestEffortRx a) (fanout_drop w) = (Ready None, fanout_drop w)"
    by (simp add: live_receiver_recv_def live_queue_recv_def)
  then show ?thesis
    using assms(3,4) by (simp add: shared_recv_def) (subst recv_live.simps, simp)
qed

theorem drop_closes_without_terminal_witness:
  "let w = snd (try_subscribe_fanout example_mpsc (example_config LossyMarker) (fs_world example_start));
       sub = (fst (try_subscribe_fanout example_mpsc (example_config LossyMarker) (fs_world example_start)))
   in shared_recv example_mpsc sub (fanout_drop w) = Some (Ready None, sub, fanout_drop w)"
  unfolding Let_def
  by (rule drop_closes_without_terminal [of 0 0])
    (simp_all add: try_subscribe_fanout_def example_start_def broadcast_state_new_def add_subscriber_def
      replay_snapshot_def Let_def example_config_def config_delivery_guarantee_def live_queue_new_def)

end
