(* ===== verification/Reader_Loop.thy ===== *)
theory Reader_Loop
  imports Stream_Types
begin

text \<open>
  What the reader loops of all backends share.  What the pipe delivers is a list of read results:
  bytes (none at the end of the file) or an error; the list running out is a reader that waits.  The
  buffer is empty before each read, so every read is cut into chunks of its own.
\<close>

section \<open>Cutting what was read into chunks\<close>

function split_chunks :: "nat \<Rightarrow> bytes \<Rightarrow> bytes list outcome" where
  "split_chunks csize buf =
     (if buf = [] then Inr []
      else (let split_to = min csize (length buf) in
            if split_to = 0 then Inl Diverges
            else (case split_chunks csize (drop split_to buf) of
                    Inl e \<Rightarrow> Inl e
                  | Inr cs \<Rightarrow> Inr (take split_to buf # cs))))"
  by pat_completeness auto
termination by (relation "measure (\<lambda>(csize, buf). length buf)") auto

declare split_chunks.simps [simp del]

type_synonym read_result = "io_error + bytes"

definition record_bytes_ingested :: "u64 \<Rightarrow> usize \<Rightarrow> u64" where
  "record_bytes_ingested n bytes_read = (if bytes_read = 0 then n else saturating_add n bytes_read)"

text \<open>The events of a reader loop, in order; the list of results running out is a reader that waits.\<close>

fun reader_events :: "string \<Rightarrow> num_bytes \<Rightarrow> read_result list \<Rightarrow> stream_event list outcome" where
  "reader_events stream_name csize [] = Inr []"
| "reader_events stream_name csize (Inl err # rs) = Inr [ReadError (StreamReadError stream_name err)]"
| "reader_events stream_name csize (Inr bs # rs) =
     (if bs = [] then Inr [Eof]
      else (case split_chunks (bytes csize) bs of
              Inl e \<Rightarrow> Inl e
            | Inr cs \<Rightarrow>
                (case reader_events stream_name csize rs of
                   Inl e \<Rightarrow> Inl e
                 | Inr evs \<Rightarrow> Inr (map Chunk cs @ evs))))"

section \<open>What the reader sees\<close>

lemma split_chunks_ok:
  "0 < n \<Longrightarrow> \<exists>cs. split_chunks n buf = Inr cs \<and> concat cs = buf \<and> (\<forall>c\<in>set cs. c \<noteq> [] \<and> length c \<le> n)"
proof (induction n buf rule: split_chunks.induct)
  case (1 n buf)
  show ?case
  proof (cases "buf = []")
    case True
    then show ?thesis by (simp add: split_chunks.simps)
  next
    case False
    let ?k = "min n (length buf)"
    obtain cs where "split_chunks n (drop ?k buf) = Inr cs" "concat cs = drop ?k buf"
        "\<forall>c\<in>set cs. c \<noteq> [] \<and> length c \<le> n"
      using "1.IH" [OF False refl] "1.prems" False by auto
    then show ?thesis
      using False "1.prems" by (intro exI [of _ "take ?k buf # cs"]) (simp add: split_chunks.simps [of n buf] Let_def)
  qed
qed

text \<open>The bytes a reader sees before its stream ends, and how it ends.\<close>

fun read_bytes :: "read_result list \<Rightarrow> bytes" where
  "read_bytes [] = []"
| "read_bytes (Inl err # rs) = []"
| "read_bytes (Inr bs # rs) = (if bs = [] then [] else bs @ read_bytes rs)"

fun read_terminal :: "string \<Rightarrow> read_result list \<Rightarrow> stream_event option" where
  "read_terminal stream_name [] = None"
| "read_terminal stream_name (Inl err # rs) = Some (ReadError (StreamReadError stream_name err))"
| "read_terminal stream_name (Inr bs # rs) = (if bs = [] then Some Eof else read_terminal stream_name rs)"

lemma reader_events_shape:
  assumes "0 < bytes csize"
  shows "\<exists>cs. reader_events name csize rs = Inr (map Chunk cs @ (case read_terminal name rs of None \<Rightarrow> [] | Some t \<Rightarrow> [t])) \<and>
     concat cs = read_bytes rs \<and> (\<forall>c\<in>set cs. c \<noteq> [] \<and> length c \<le> bytes csize)"
proof (induction rs)
  case Nil
  then show ?case by simp
next
  case (Cons r rs)
  then obtain cs where IH: "reader_events name csize rs = Inr (map Chunk cs @ (case read_terminal name rs of None \<Rightarrow> [] | Some t \<Rightarrow> [t]))"
      "concat cs = read_bytes rs" "\<forall>c\<in>set cs. c \<noteq> [] \<and> length c \<le> bytes csize" by blast
  show ?case
  proof (cases r)
    case (Inl err)
    then show ?thesis by simp
  next
    case (Inr bs)
    obtain cs' where cs': "split_chunks (bytes csize) bs = Inr cs'" "concat cs' = bs"
        "\<forall>c\<in>set cs'. c \<noteq> [] \<and> length c \<le> bytes csize"
      using split_chunks_ok [OF assms, of bs] by blast
    show ?thesis
    proof (cases "bs = []")
      case True
      then show ?thesis using Inr by simp
    next
      case False
      then show ?thesis
        using Inr IH cs' by (intro exI [of _ "cs' @ cs"]) auto
    qed
  qed
qed

end
