(* ===== verification/Observe.thy ===== *)
theory Observe
  imports Collect
begin

text \<open>
  The remaining built-in visitors: \<open>WaitForLine\<close> (\<open>visitors/wait.rs\<close>), the \<open>Inspect\<close> visitors
  (\<open>visitors/inspect.rs\<close>) and the writers \<open>WriteChunks\<close> and \<open>WriteLines\<close> with their error handling
  (\<open>visitors/write.rs\<close>).  The asynchronous writer a sink wraps is a parameter: \<open>write_all\<close> maps the
  writer's state and the bytes to the result of the write and the new state.
\<close>

section \<open>Waiting for a line\<close>

record wait_for_line =
  matched :: bool

definition wait_for_line_new :: wait_for_line where
  "wait_for_line_new = \<lparr>matched = False\<rparr>"

definition wait_on_line :: "(bytes \<Rightarrow> bool) \<Rightarrow> wait_for_line \<Rightarrow> bytes \<Rightarrow> next_t \<times> wait_for_line" where
  "wait_on_line predicate self line =
     (if predicate line then (Break, self\<lparr>matched := True\<rparr>) else (Continue, self))"

definition wait_for_line_visitor :: "(bytes \<Rightarrow> bool) \<Rightarrow> (wait_for_line, bool) line_visitor" where
  "wait_for_line_visitor predicate =
     \<lparr>on_line = (\<lambda>self line. Inr (wait_on_line predicate self line)),
      line_on_gap = (\<lambda>self. self), line_on_eof = Inr, line_into_output = matched\<rparr>"

section \<open>Inspecting\<close>

text \<open>A closure \<open>FnMut\<close> with its captured state is a function on that state.\<close>

definition inspect_chunks_visitor :: "('f \<Rightarrow> bytes \<Rightarrow> (next_t \<times> 'f) outcome) \<Rightarrow> ('f, unit) stream_visitor" where
  "inspect_chunks_visitor f =
     \<lparr>on_chunk = f, on_gap = (\<lambda>self. self), on_eof = Inr, into_output = (\<lambda>_. ())\<rparr>"

definition inspect_chunks_async_visitor ::
  "('f \<Rightarrow> bytes \<Rightarrow> (next_t \<times> 'f) outcome) \<Rightarrow> ('f, unit) stream_visitor" where
  "inspect_chunks_async_visitor f =
     \<lparr>on_chunk = f, on_gap = (\<lambda>self. self), on_eof = Inr, into_output = (\<lambda>_. ())\<rparr>"

definition inspect_lines_visitor :: "('f \<Rightarrow> bytes \<Rightarrow> (next_t \<times> 'f) outcome) \<Rightarrow> ('f, unit) line_visitor" where
  "inspect_lines_visitor f =
     \<lparr>on_line = f, line_on_gap = (\<lambda>self. self), line_on_eof = Inr, line_into_output = (\<lambda>_. ())\<rparr>"

definition inspect_lines_async_visitor ::
  "('f \<Rightarrow> bytes \<Rightarrow> (next_t \<times> 'f) outcome) \<Rightarrow> ('f, unit) line_visitor" where
  "inspect_lines_async_visitor f =
     \<lparr>on_line = f, line_on_gap = (\<lambda>self. self), line_on_eof = Inr, line_into_output = (\<lambda>_. ())\<rparr>"

section \<open>Writing\<close>

datatype line_write_mode = AsIs | AppendLf
datatype sink_write_error_action = StopWriting | ContinueWriting
datatype sink_write_operation = OpChunk | OpLine | OpLineDelimiter

record sink_write_error =
  swe_stream_name :: string
  swe_operation :: sink_write_operation
  swe_attempted_len :: usize
  swe_source :: io_error

definition sink_write_error_new ::
  "string \<Rightarrow> sink_write_operation \<Rightarrow> usize \<Rightarrow> io_error \<Rightarrow> sink_write_error" where
  "sink_write_error_new stream_name operation attempted_len source =
     \<lparr>swe_stream_name = stream_name, swe_operation = operation,
      swe_attempted_len = attempted_len, swe_source = source\<rparr>"

text \<open>\<open>SinkWriteErrorHandler::handle\<close>; the two handlers \<open>WriteCollectionOptions\<close> provides have no state.\<close>

type_synonym 'h write_error_handler = "'h \<Rightarrow> sink_write_error \<Rightarrow> sink_write_error_action \<times> 'h"

definition fail_fast :: "'h write_error_handler" where
  "fail_fast h error = (StopWriting, h)"

definition log_and_continue :: "'h write_error_handler" where
  "log_and_continue h error = (ContinueWriting, h)"

type_synonym 'w write_all_fn = "'w \<Rightarrow> bytes \<Rightarrow> (io_error + unit) \<times> 'w"

definition handle_write_result ::
  "string \<Rightarrow> 'h write_error_handler \<Rightarrow> 'h \<Rightarrow> sink_write_operation \<Rightarrow> usize \<Rightarrow> io_error + unit
     \<Rightarrow> (sink_write_error + bool) \<times> 'h" where
  "handle_write_result stream_name handle h operation attempted_len result =
     (case result of
        Inr _ \<Rightarrow> (Inr True, h)
      | Inl source \<Rightarrow>
          (let error = sink_write_error_new stream_name operation attempted_len source in
           case handle h error of
             (StopWriting, h') \<Rightarrow> (Inl error, h')
           | (ContinueWriting, h') \<Rightarrow> (Inr False, h')))"

definition write_line ::
  "'w write_all_fn \<Rightarrow> 'h write_error_handler \<Rightarrow> string \<Rightarrow> 'w \<Rightarrow> 'h \<Rightarrow> bytes \<Rightarrow> line_write_mode
     \<Rightarrow> (sink_write_error + unit) \<times> 'w \<times> 'h" where
  "write_line write_all handle stream_name w h line wmode =
     (case write_all w line of (line_write, w1) \<Rightarrow>
        (case handle_write_result stream_name handle h OpLine (length line) line_write of
           (Inl e, h1) \<Rightarrow> (Inl e, w1, h1)
         | (Inr line_written, h1) \<Rightarrow>
             if \<not> line_written \<or> wmode \<noteq> AppendLf then (Inr (), w1, h1)
             else
               (case write_all w1 [newline] of (lf_write, w2) \<Rightarrow>
                  (case handle_write_result stream_name handle h1 OpLineDelimiter 1 lf_write of
                     (Inl e, h2) \<Rightarrow> (Inl e, w2, h2)
                   | (Inr _, h2) \<Rightarrow> (Inr (), w2, h2)))))"

text \<open>The state of \<open>WriteChunks\<close> and \<open>WriteLines\<close>: writer, error handler and the error that stopped it;
  stream name, mapper and mode never change and are arguments.\<close>

record ('w, 'h) write_sink =
  ws_writer :: 'w
  ws_error_handler :: 'h
  ws_error :: "sink_write_error option"

definition write_sink_new :: "'w \<Rightarrow> 'h \<Rightarrow> ('w, 'h) write_sink" where
  "write_sink_new w h = \<lparr>ws_writer = w, ws_error_handler = h, ws_error = None\<rparr>"

definition write_on_chunk ::
  "'w write_all_fn \<Rightarrow> 'h write_error_handler \<Rightarrow> string \<Rightarrow> (bytes \<Rightarrow> bytes) \<Rightarrow> ('w, 'h) write_sink \<Rightarrow> bytes
     \<Rightarrow> next_t \<times> ('w, 'h) write_sink" where
  "write_on_chunk write_all handle stream_name mapper self chunk =
     (let bs = mapper chunk; attempted_len = length bs in
      case write_all (ws_writer self) bs of (result, w') \<Rightarrow>
        (case handle_write_result stream_name handle (ws_error_handler self) OpChunk attempted_len result of
           (Inr _, h') \<Rightarrow> (Continue, self\<lparr>ws_writer := w', ws_error_handler := h'\<rparr>)
         | (Inl err, h') \<Rightarrow> (Break, self\<lparr>ws_writer := w', ws_error_handler := h', ws_error := Some err\<rparr>)))"

definition write_on_line ::
  "'w write_all_fn \<Rightarrow> 'h write_error_handler \<Rightarrow> string \<Rightarrow> (bytes \<Rightarrow> bytes) \<Rightarrow> line_write_mode
     \<Rightarrow> ('w, 'h) write_sink \<Rightarrow> bytes \<Rightarrow> next_t \<times> ('w, 'h) write_sink" where
  "write_on_line write_all handle stream_name mapper wmode self line =
     (case write_line write_all handle stream_name (ws_writer self) (ws_error_handler self) (mapper line) wmode of
        (Inr _, w', h') \<Rightarrow> (Continue, self\<lparr>ws_writer := w', ws_error_handler := h'\<rparr>)
      | (Inl err, w', h') \<Rightarrow> (Break, self\<lparr>ws_writer := w', ws_error_handler := h', ws_error := Some err\<rparr>))"

definition write_into_output :: "('w, 'h) write_sink \<Rightarrow> sink_write_error + 'w" where
  "write_into_output self = (case ws_error self of Some err \<Rightarrow> Inl err | None \<Rightarrow> Inr (ws_writer self))"

definition write_chunks_visitor ::
  "'w write_all_fn \<Rightarrow> 'h write_error_handler \<Rightarrow> string \<Rightarrow> (bytes \<Rightarrow> bytes)
     \<Rightarrow> (('w, 'h) write_sink, sink_write_error + 'w) stream_visitor" where
  "write_chunks_visitor write_all handle stream_name mapper =
     \<lparr>on_chunk = (\<lambda>self chunk. Inr (write_on_chunk write_all handle stream_name mapper self chunk)),
      on_gap = (\<lambda>self. self), on_eof = Inr, into_output = write_into_output\<rparr>"

definition write_lines_visitor ::
  "'w write_all_fn \<Rightarrow> 'h write_error_handler \<Rightarrow> string \<Rightarrow> (bytes \<Rightarrow> bytes) \<Rightarrow> line_write_mode
     \<Rightarrow> (('w, 'h) write_sink, sink_write_error + 'w) line_visitor" where
  "write_lines_visitor write_all handle stream_name mapper wmode =
     \<lparr>on_line = (\<lambda>self line. Inr (write_on_line write_all handle stream_name mapper wmode self line)),
      line_on_gap = (\<lambda>self. self), line_on_eof = Inr, line_into_output = write_into_output\<rparr>"

section \<open>The contracts\<close>

interpretation wait: line_contract "wait_for_line_visitor predicate" "\<lambda>_. True" for predicate
  by standard (simp_all add: wait_for_line_visitor_def)

interpretation collect: line_contract "collect_lines_visitor (line_collector options)" "within_lines options"
  for options
proof
  fix c l
  assume "within_lines options c"
  then obtain c' where "push_line c l options = Inr c'" "within_lines options c'"
    using push_line_kept by blast
  then show "\<exists>nx c'. on_line (collect_lines_visitor (line_collector options)) c l = Inr (nx, c') \<and> within_lines options c'"
    by (simp add: collect_lines_visitor_def line_collector_def)
qed (simp_all add: collect_lines_visitor_def)

interpretation write_lines: line_contract "write_lines_visitor write_all handle name mapper wmode" "\<lambda>_. True"
  for write_all handle name mapper wmode
  by standard (simp_all add: write_lines_visitor_def)

interpretation write_chunks: visitor_contract "write_chunks_visitor write_all handle name mapper" "\<lambda>_. True"
  for write_all handle name mapper
  by standard (simp_all add: write_chunks_visitor_def)

interpretation collect_bytes: visitor_contract "collect_chunks_visitor (bytes_collector options)" "within_bytes options"
  for options
proof
  fix c chunk
  assume "within_bytes options c"
  then obtain c' where "push_chunk c chunk options = Inr c'" "within_bytes options c'"
    using push_chunk_kept by blast
  then show "\<exists>nx c'. on_chunk (collect_chunks_visitor (bytes_collector options)) c chunk = Inr (nx, c') \<and> within_bytes options c'"
    by (simp add: collect_chunks_visitor_def bytes_collector_def)
qed (simp_all add: collect_chunks_visitor_def)

section \<open>What the visitors compute\<close>

lemma visit_lines_wait:
  "visit_lines (wait_for_line_visitor predicate) s ls =
     Inr (if list_ex predicate ls then (Break, s\<lparr>matched := True\<rparr>) else (Continue, s))"
  by (induction ls) (simp_all add: wait_for_line_visitor_def wait_on_line_def)

lemma visit_stream_wait:
  "visit_stream (wait_for_line_visitor predicate) wait_for_line_new complete trailing =
     Inr (list_ex predicate (complete @ trailing))"
  by (auto simp: visit_stream_def close_lines_def visit_lines_wait)
    (simp_all add: wait_for_line_visitor_def wait_for_line_new_def)

text \<open>A parsing consumer on a whole stream: what its inner visitor makes of the stream's lines.\<close>

lemma consume_lines_of_stream:
  assumes "byte_deps_ok d" and "0 < limit options" and "\<And>s. line_on_gap L s = s"
    and "\<And>complete trailing. complete @ trailing = map decode_line_lossy (spec_lines options (concat chunks)) \<Longrightarrow>
           visit_stream L s complete trailing = Inr out"
  shows "\<exists>v. parse_lines_new options s = Inr v \<and>
     consume_sync (parse_lines_visitor d L) v (map (Event \<circ> Some \<circ> Chunk) chunks @ Event (Some Eof) # ps)
       = Inr (Finished out)"
proof -
  let ?v = "\<lparr>pl_parser = line_parser_new, pl_options = options, pl_inner = s\<rparr>"
  let ?r = "run options (ReadingLine, []) (concat chunks)"
  have "map decode_line_lossy (fst ?r) @ map decode_line_lossy (flush (snd ?r))
          = map decode_line_lossy (spec_lines options (concat chunks))"
    using run_lines_spec [of options "concat chunks", symmetric] by (simp add: run_lines_def case_prod_beta)
  from assms(4) [OF this] show ?thesis
    using consume_parsed_lines [OF assms(1,3), of "Some Eof" ?v ?r "map InChunk chunks" ps]
      parse_lines_new_ok [OF assms(2), of s]
    by (intro exI [of _ ?v]) (simp add: run_inputs_chunks line_parser_new_def comp_def)
qed

text \<open>Writers that accept everything: each write succeeds and appends its bytes.\<close>

definition writer_appends :: "'w write_all_fn \<Rightarrow> ('w \<Rightarrow> bytes) \<Rightarrow> bool" where
  "writer_appends write_all contents \<longleftrightarrow>
     (\<forall>w bs. fst (write_all w bs) = Inr () \<and> contents (snd (write_all w bs)) = contents w @ bs)"

definition written_line :: "line_write_mode \<Rightarrow> bytes \<Rightarrow> bytes" where
  "written_line wmode line = (case wmode of AsIs \<Rightarrow> line | AppendLf \<Rightarrow> line @ [newline])"

lemma write_on_line_appends:
  assumes "writer_appends write_all contents"
  shows "\<exists>w'. write_on_line write_all handle name mapper wmode self line = (Continue, self\<lparr>ws_writer := w'\<rparr>) \<and>
     contents w' = contents (ws_writer self) @ written_line wmode (mapper line)"
proof -
  obtain w1 where w1: "write_all (ws_writer self) (mapper line) = (Inr (), w1)"
      "contents w1 = contents (ws_writer self) @ mapper line"
    using assms unfolding writer_appends_def by (metis prod.collapse)
  obtain w2 where w2: "write_all w1 [newline] = (Inr (), w2)" "contents w2 = contents w1 @ [newline]"
    using assms unfolding writer_appends_def by (metis prod.collapse)
  show ?thesis
    using w1 w2 by (intro exI [of _ "case wmode of AsIs \<Rightarrow> w1 | AppendLf \<Rightarrow> w2"], cases wmode)
      (simp_all add: write_on_line_def write_line_def handle_write_result_def written_line_def)
qed

lemma visit_lines_write:
  assumes "writer_appends write_all contents"
  shows "\<exists>w'. visit_lines (write_lines_visitor write_all handle name mapper wmode) self ls = Inr (Continue, self\<lparr>ws_writer := w'\<rparr>) \<and>
     contents w' = contents (ws_writer self) @ concat (map (written_line wmode \<circ> mapper) ls)"
proof (induction ls arbitrary: self)
  case Nil
  then show ?case by (intro exI [of _ "ws_writer self"]) simp
next
  case (Cons l ls)
  obtain w' where w': "write_on_line write_all handle name mapper wmode self l = (Continue, self\<lparr>ws_writer := w'\<rparr>)"
     "contents w' = contents (ws_writer self) @ written_line wmode (mapper l)"
    using write_on_line_appends [OF assms] by blast
  show ?case
    using Cons.IH [of "self\<lparr>ws_writer := w'\<rparr>"] w' by (auto simp: write_lines_visitor_def)
qed

lemma visit_stream_write:
  assumes "writer_appends write_all contents"
  shows "\<exists>w'. visit_stream (write_lines_visitor write_all handle name mapper wmode) (write_sink_new w h) complete trailing
      = Inr (Inr w') \<and>
     contents w' = contents w @ concat (map (written_line wmode \<circ> mapper) (complete @ trailing))"
proof -
  let ?L = "write_lines_visitor write_all handle name mapper wmode"
  obtain w1 where w1: "visit_lines ?L (write_sink_new w h) complete = Inr (Continue, (write_sink_new w h)\<lparr>ws_writer := w1\<rparr>)"
      "contents w1 = contents w @ concat (map (written_line wmode \<circ> mapper) complete)"
    using visit_lines_write [OF assms, of handle name mapper wmode "write_sink_new w h" complete]
    by (auto simp: write_sink_new_def)
  let ?s = "(write_sink_new w h)\<lparr>ws_writer := w1\<rparr>"
  obtain w2 where w2: "visit_lines ?L ?s trailing = Inr (Continue, ?s\<lparr>ws_writer := w2\<rparr>)"
      "contents w2 = contents w1 @ concat (map (written_line wmode \<circ> mapper) trailing)"
    using visit_lines_write [OF assms, of handle name mapper wmode ?s trailing] by auto
  have "line_on_eof ?L = Inr" "line_into_output ?L = write_into_output"
    by (simp_all add: write_lines_visitor_def)
  then show ?thesis
    using w1 w2 by (simp add: visit_stream_def close_lines_def write_into_output_def write_sink_new_def)
qed

text \<open>Writing a sequence of byte strings up to the first failing write, and writing all of them regardless.\<close>

fun write_seq :: "'w write_all_fn \<Rightarrow> 'w \<Rightarrow> bytes list \<Rightarrow> (io_error \<times> nat) option \<times> 'w" where
  "write_seq write_all w [] = (None, w)"
| "write_seq write_all w (b # bs) =
     (case write_all w b of
        (Inr _, w') \<Rightarrow> write_seq write_all w' bs
      | (Inl e, w') \<Rightarrow> (Some (e, length b), w'))"

fun write_each :: "'w write_all_fn \<Rightarrow> 'w \<Rightarrow> bytes list \<Rightarrow> 'w" where
  "write_each write_all w [] = w"
| "write_each write_all w (b # bs) = write_each write_all (snd (write_all w b)) bs"

lemma consume_write_chunks:
  "ws_error self = None \<Longrightarrow>
   consume_sync (write_chunks_visitor write_all fail_fast name mapper) self (map (Event \<circ> Some \<circ> Chunk) chunks @ ps) =
     (case write_seq write_all (ws_writer self) (map mapper chunks) of
        (None, w') \<Rightarrow> consume_sync (write_chunks_visitor write_all fail_fast name mapper) (self\<lparr>ws_writer := w'\<rparr>) ps
      | (Some (e, n), w') \<Rightarrow> Inr (Finished (Inl (sink_write_error_new name OpChunk n e))))"
proof (induction chunks arbitrary: self)
  case (Cons c chunks)
  obtain r w' where w: "write_all (ws_writer self) (mapper c) = (r, w')" by (cases "write_all (ws_writer self) (mapper c)")
  let ?V = "write_chunks_visitor write_all fail_fast name mapper"
  show ?case
  proof (cases r)
    case (Inl e)
    then show ?thesis
      using w by (simp add: write_chunks_visitor_def write_on_chunk_def handle_write_result_def fail_fast_def
          write_into_output_def Let_def)
  next
    case (Inr u)
    have "on_chunk ?V self c = Inr (Continue, self\<lparr>ws_writer := w'\<rparr>)"
      using w Inr by (simp add: write_chunks_visitor_def write_on_chunk_def handle_write_result_def Let_def)
    then show ?thesis
      using Cons.IH [of "self\<lparr>ws_writer := w'\<rparr>"] Cons.prems w Inr by (simp split: prod.splits option.splits)
  qed
qed simp

lemma consume_write_each:
  "consume_sync (write_chunks_visitor write_all log_and_continue name mapper) self (map (Event \<circ> Some \<circ> Chunk) chunks @ ps) =
   consume_sync (write_chunks_visitor write_all log_and_continue name mapper)
     (self\<lparr>ws_writer := write_each write_all (ws_writer self) (map mapper chunks)\<rparr>) ps"
proof (induction chunks arbitrary: self)
  case (Cons c chunks)
  have "on_chunk (write_chunks_visitor write_all log_and_continue name mapper) self c
      = Inr (Continue, self\<lparr>ws_writer := snd (write_all (ws_writer self) (mapper c))\<rparr>)"
    by (cases "fst (write_all (ws_writer self) (mapper c))")
      (auto simp: write_chunks_visitor_def write_on_chunk_def handle_write_result_def log_and_continue_def Let_def
        split: prod.splits)
  then show ?case using Cons.IH by simp
qed simp

text \<open>Lines written with a newline each are the lines of what was written.\<close>

lemma cut_line_ok: "line_ok options l \<Longrightarrow> cut_line options l = [l]"
  by (cases "overflow_behavior options") (auto simp: line_ok_def cut_line_def pieces.simps)

lemma spec_lines_written:
  "list_all (line_ok options) ls \<Longrightarrow> spec_lines options (concat (map (written_line AppendLf) ls)) = ls"
proof (induction ls)
  case (Cons l ls)
  then have "newline \<notin> set l" "cut_line options l = [l]"
    by (simp_all add: cut_line_ok) (simp add: line_ok_def)
  moreover have "concat (map (written_line AppendLf) (l # ls)) = l @ newline # concat (map (written_line AppendLf) ls)"
    by (simp add: written_line_def)
  ultimately show ?case
    using run_lines_cut [of l options "concat (map (written_line AppendLf) ls)"] Cons
    by (simp only: run_lines_spec) simp
qed simp

lemma spec_lines_ok: "raw \<in> set (spec_lines options xs) \<Longrightarrow> line_ok options raw"
  using run_line_ok [of options "(ReadingLine, [])" raw xs] flush_ok [of options "snd (run options (ReadingLine, []) xs)" raw]
    run_lstate_ok [of options "(ReadingLine, [])" xs] run_lines_spec [of options xs, symmetric]
  by (auto simp: run_lines_def case_prod_beta)

text \<open>A decoded line is at most three times as long as its bytes, and decoding it again changes nothing.\<close>

lemma decoded_line_ok:
  assumes "line_ok options raw" and "0 < limit options" and "3 * limit options \<le> limit options'"
  shows "line_ok options' (decode_line_lossy raw)" and "decode_line_lossy (decode_line_lossy raw) = decode_line_lossy raw"
  using assms from_utf8_lossy_length [of raw]
  by (auto simp: line_ok_def decode_line_lossy_def from_utf8_lossy_no_newline from_utf8_lossy_idem)

section \<open>Properties of the visitors\<close>

text \<open>Waiting for a line until the stream ends answers whether some decoded line of the stream,
  the unterminated last one included, satisfies the predicate, and never panics.\<close>

theorem wait_for_line_answers:
  assumes "byte_deps_ok d" and "0 < limit options"
  shows "\<exists>v. parse_lines_new options wait_for_line_new = Inr v \<and>
     consume_sync (parse_lines_visitor d (wait_for_line_visitor predicate)) v
       (map (Event \<circ> Some \<circ> Chunk) chunks @ Event (Some Eof) # ps)
     = Inr (Finished (list_ex predicate (map decode_line_lossy (spec_lines options (concat chunks)))))"
  by (rule consume_lines_of_stream [OF assms])
    (simp_all add: visit_stream_wait, simp add: wait_for_line_visitor_def)

theorem wait_for_line_answers_witness:
  "\<exists>v. parse_lines_new line_parsing_options_default wait_for_line_new = Inr v \<and>
     consume_sync (parse_lines_visitor example_deps (wait_for_line_visitor (\<lambda>l. l = ''ready''))) v
       (map (Event \<circ> Some \<circ> Chunk) [''re'', ''ady''] @ [Event (Some Eof)]) = Inr (Finished True)"
proof -
  have pos: "0 < limit line_parsing_options_default" by code_simp
  have "list_ex (\<lambda>l. l = ''ready'') (map decode_line_lossy (spec_lines line_parsing_options_default (concat [''re'', ''ady''])))"
    by code_simp
  then show ?thesis
    using wait_for_line_answers [OF example_deps_ok pos, of "\<lambda>l. l = ''ready''" "[''re'', ''ady'']" "[]"]
    by (simp only:)
qed

text \<open>C31: a line-collecting consumer that has polled a terminal event, a closed subscription or the
  cancellation signal has ended without panicking, whatever else it polled: with its sink, whose
  limits hold, or with a read error of the stream.\<close>

theorem collecting_consumer_ends:
  assumes "byte_deps_ok d" and "0 < limit options" and "p \<in> set polls" and "final_poll p"
  shows "\<exists>v. parse_lines_new options collected_lines_new = Inr v \<and>
    ((\<exists>c. consume_sync (parse_lines_visitor d (collect_lines_visitor (line_collector copts))) v polls
            = Inr (Finished c) \<and> within_lines copts c) \<or>
     (\<exists>err. consume_sync (parse_lines_visitor d (collect_lines_visitor (line_collector copts))) v polls
            = Inr (ReadFailed err) \<and> Event (Some (ReadError err)) \<in> set polls))"
proof -
  let ?v = "\<lparr>pl_parser = line_parser_new, pl_options = options, pl_inner = collected_lines_new\<rparr>"
  let ?V = "parse_lines_visitor d (collect_lines_visitor (line_collector copts))"
  have "parse_lines_inv d (within_lines copts) ?v"
    using assms(1) line_sink.new(1) by (simp add: parse_lines_inv_def line_parser_new_def)
  then have "(\<exists>w. parse_lines_inv d (within_lines copts) w \<and> consume_sync ?V ?v polls = Inr (Finished (into_output ?V w))) \<or>
         (\<exists>err. consume_sync ?V ?v polls = Inr (ReadFailed err) \<and> Event (Some (ReadError err)) \<in> set polls)"
    using collect.parsed.driver_finishes assms(3,4) by blast
  moreover have "into_output ?V w = pl_inner w" for w
    by (simp add: parse_lines_visitor_def parse_lines_into_output_def collect_lines_visitor_def)
  ultimately show ?thesis
    using parse_lines_new_ok [OF assms(2), of collected_lines_new] unfolding parse_lines_inv_def by auto
qed

theorem collecting_consumer_ends_witness:
  "\<exists>v. parse_lines_new line_parsing_options_default collected_lines_new = Inr v \<and>
    (\<exists>c. consume_sync (parse_lines_visitor example_deps (collect_lines_visitor
            (line_collector (LineBounded (NumBytes 1) 1 CollectDropOldest)))) v
            [Event (Some (Chunk ''ab'')), Event (Some Gap), CancelSignal]
            = Inr (Finished c) \<and> within_lines (LineBounded (NumBytes 1) 1 CollectDropOldest) c)"
proof -
  have pos: "0 < limit line_parsing_options_default" by code_simp
  show ?thesis
    using collecting_consumer_ends [OF example_deps_ok pos, of CancelSignal
      "[Event (Some (Chunk ''ab'')), Event (Some Gap), CancelSignal]" "LineBounded (NumBytes 1) 1 CollectDropOldest"]
    by auto
qed

lemma write_lines_run:
  assumes "byte_deps_ok d" and "0 < limit options" and "writer_appends write_all contents"
  shows "\<exists>v w'. parse_lines_new options (write_sink_new w h) = Inr v \<and>
     consume_sync (parse_lines_visitor d (write_lines_visitor write_all handle name mapper wmode)) v
       (map (Event \<circ> Some \<circ> Chunk) chunks @ Event (Some Eof) # ps) = Inr (Finished (Inr w')) \<and>
     contents w' = contents w @
       concat (map (written_line wmode \<circ> mapper) (map decode_line_lossy (spec_lines options (concat chunks))))"
proof -
  let ?L = "write_lines_visitor write_all handle name mapper wmode"
  let ?v = "\<lparr>pl_parser = line_parser_new, pl_options = options, pl_inner = write_sink_new w h\<rparr>"
  let ?r = "run options (ReadingLine, []) (concat chunks)"
  let ?c = "map decode_line_lossy (fst ?r)" and ?t = "map decode_line_lossy (flush (snd ?r))"
  have ls: "?c @ ?t = map decode_line_lossy (spec_lines options (concat chunks))"
    using run_lines_spec [of options "concat chunks", symmetric] by (simp add: run_lines_def case_prod_beta)
  obtain w' where w': "visit_stream ?L (write_sink_new w h) ?c ?t = Inr (Inr w')"
      "contents w' = contents w @ concat (map (written_line wmode \<circ> mapper) (?c @ ?t))"
    using visit_stream_write [OF assms(3), of handle name mapper wmode w h ?c ?t] by blast
  have "consume_sync (parse_lines_visitor d ?L) ?v (map (Event \<circ> Some \<circ> Chunk) chunks @ Event (Some Eof) # ps)
      = Inr (Finished (Inr w'))"
    using consume_parsed_lines [OF assms(1), of ?L "Some Eof" ?v ?r "map InChunk chunks" ps] w'(1)
    by (simp add: run_inputs_chunks line_parser_new_def comp_def) (simp add: write_lines_visitor_def)
  then show ?thesis
    using parse_lines_new_ok [OF assms(2), of "write_sink_new w h"] w'(2) unfolding ls by blast
qed

text \<open>C32: over a writer that accepts everything, a line-writing consumer ends with its writer, which
  has received every decoded line of the stream, mapped, in order, and with a newline each exactly
  when the mode asks for one.\<close>

theorem write_lines_writes:
  assumes "byte_deps_ok d" and "0 < limit options" and "writer_appends write_all contents"
  shows "\<exists>v w'. parse_lines_new options (write_sink_new w h) = Inr v \<and>
     consume_sync (parse_lines_visitor d (write_lines_visitor write_all handle name mapper wmode)) v
       (map (Event \<circ> Some \<circ> Chunk) chunks @ Event (Some Eof) # ps) = Inr (Finished (Inr w')) \<and>
     contents w' = contents w @
       concat (map (written_line wmode \<circ> mapper) (map decode_line_lossy (spec_lines options (concat chunks))))"
  by (rule write_lines_run [OF assms])

text \<open>A writer into memory.\<close>

definition vec_write_all :: "bytes write_all_fn" where
  "vec_write_all w bs = (Inr (), w @ bs)"

lemma vec_writer_appends: "writer_appends vec_write_all (\<lambda>w. w)"
  by (simp add: writer_appends_def vec_write_all_def)

theorem write_lines_writes_witness:
  "\<exists>v. parse_lines_new line_parsing_options_default (write_sink_new [] ()) = Inr v \<and>
     consume_sync (parse_lines_visitor example_deps (write_lines_visitor vec_write_all fail_fast ''stdout'' (\<lambda>l. l) AppendLf)) v
       (map (Event \<circ> Some \<circ> Chunk) [''a'', [newline, CHR ''b'']] @ [Event (Some Eof)])
     = Inr (Finished (Inr [CHR ''a'', newline, CHR ''b'', newline]))"
proof -
  have pos: "0 < limit line_parsing_options_default" by code_simp
  have ls: "map decode_line_lossy (spec_lines line_parsing_options_default (concat [''a'', [newline, CHR ''b'']])) = [''a'', ''b'']"
    by code_simp
  show ?thesis
    using write_lines_writes [OF example_deps_ok pos vec_writer_appends, of "[]" "()" fail_fast "''stdout''" "\<lambda>l. l" AppendLf
      "[''a'', [newline, CHR ''b'']]" "[]"]
    unfolding ls by (auto simp: written_line_def)
qed

text \<open>C33: how a chunk-writing consumer treats failing writes.  With the fail-fast handler it stops at the first
  one: whatever is polled later, and without polling anything more, it has ended with an error that
  names the stream, the operation, the number of bytes of the failing write and its cause, so nothing
  is written after it.  As long as no write fails it goes on waiting with the writer as the writes
  left it, and at the end of the stream it ends with that writer.  With the handler that logs and
  continues every chunk is offered to the writer, failing or not, and the consumer ends with the writer
  at the end of the stream.\<close>

theorem write_chunks_stops_at_error:
  "(case write_seq write_all w (map mapper chunks) of
      (Some (e, n), _) \<Rightarrow>
        consume_sync (write_chunks_visitor write_all fail_fast name mapper) (write_sink_new w h)
          (map (Event \<circ> Some \<circ> Chunk) chunks @ ps) =
        Inr (Finished (Inl \<lparr>swe_stream_name = name, swe_operation = OpChunk, swe_attempted_len = n, swe_source = e\<rparr>))
    | (None, w') \<Rightarrow>
        consume_sync (write_chunks_visitor write_all fail_fast name mapper) (write_sink_new w h)
          (map (Event \<circ> Some \<circ> Chunk) chunks) = Inr (Waiting (write_sink_new w' h)) \<and>
        consume_sync (write_chunks_visitor write_all fail_fast name mapper) (write_sink_new w h)
          (map (Event \<circ> Some \<circ> Chunk) chunks @ Event (Some Eof) # ps) = Inr (Finished (Inr w'))) \<and>
   consume_sync (write_chunks_visitor write_all log_and_continue name mapper) (write_sink_new w h)
     (map (Event \<circ> Some \<circ> Chunk) chunks @ Event (Some Eof) # ps)
   = Inr (Finished (Inr (write_each write_all w (map mapper chunks))))"
proof -
  let ?V = "write_chunks_visitor write_all fail_fast name mapper" and ?polls = "map (Event \<circ> Some \<circ> Chunk) chunks"
  have new: "ws_error (write_sink_new w h) = None" "ws_writer (write_sink_new w h) = w"
    "(write_sink_new w h)\<lparr>ws_writer := w'\<rparr> = write_sink_new w' h" for w' by (simp_all add: write_sink_new_def)
  note run = consume_write_chunks [OF new(1), unfolded new(2,3), of write_all name mapper chunks]
  have eof: "consume_sync (write_chunks_visitor write_all handler name mapper) (write_sink_new w' h) (Event (Some Eof) # ps)
      = Inr (Finished (Inr w'))" for handler w'
    by (simp add: write_chunks_visitor_def write_into_output_def write_sink_new_def)
  have "case write_seq write_all w (map mapper chunks) of
      (Some (e, n), _) \<Rightarrow> consume_sync ?V (write_sink_new w h) (?polls @ ps) =
        Inr (Finished (Inl \<lparr>swe_stream_name = name, swe_operation = OpChunk, swe_attempted_len = n, swe_source = e\<rparr>))
    | (None, w') \<Rightarrow>
        consume_sync ?V (write_sink_new w h) ?polls = Inr (Waiting (write_sink_new w' h)) \<and>
        consume_sync ?V (write_sink_new w h) (?polls @ Event (Some Eof) # ps) = Inr (Finished (Inr w'))"
    using run [of ps] run [of "[]"] run [of "Event (Some Eof) # ps"] eof
    by (auto simp: sink_write_error_new_def split: prod.splits option.splits)
  moreover have "consume_sync (write_chunks_visitor write_all log_and_continue name mapper) (write_sink_new w h)
      (?polls @ Event (Some Eof) # ps) = Inr (Finished (Inr (write_each write_all w (map mapper chunks))))"
    using consume_write_each [of write_all name mapper "write_sink_new w h" chunks "Event (Some Eof) # ps"]
    unfolding new(2,3) eof .
  ultimately show ?thesis by blast
qed

text \<open>C34: what a line-writing consumer has written can be read back.  A consumer writes the lines of a stream,
  with a newline each, to a writer that was empty and accepts everything; then, however the written
  bytes are cut into chunks, a line-collecting consumer that reads them retains what its options keep of
  the very lines of the original stream.  Its length limit must leave room for replacement
  characters, which take three bytes for an undecodable one.\<close>

theorem written_lines_parse_back:
  assumes "byte_deps_ok d" and "0 < limit options" and "writer_appends write_all contents" and "contents w = []"
    and "3 * limit options \<le> limit options'"
  shows "\<exists>v w'. parse_lines_new options (write_sink_new w h) = Inr v \<and>
     consume_sync (parse_lines_visitor d (write_lines_visitor write_all handle name (\<lambda>line. line) AppendLf)) v
       (map (Event \<circ> Some \<circ> Chunk) chunks @ Event (Some Eof) # ps) = Inr (Finished (Inr w')) \<and>
     (\<forall>written. concat written = contents w' \<longrightarrow>
        (\<exists>v' c. parse_lines_new options' collected_lines_new = Inr v' \<and>
           consume_sync (parse_lines_visitor d (collect_lines_visitor (line_collector copts))) v'
             (map (Event \<circ> Some \<circ> Chunk) written @ [Event (Some Eof)]) = Inr (Finished c) \<and>
           cl_lines c = keep_lines copts (map decode_line_lossy (spec_lines options (concat chunks)))))"
proof -
  let ?ls = "map decode_line_lossy (spec_lines options (concat chunks))"
  note ok = decoded_line_ok [OF spec_lines_ok assms(2,5)]
  have "spec_lines options' (concat (map (written_line AppendLf) ?ls)) = ?ls"
    by (rule spec_lines_written) (use ok(1) in \<open>auto simp: list_all_iff\<close>)
  moreover have "map decode_line_lossy ?ls = ?ls" using ok(2) by simp
  ultimately have same: "map decode_line_lossy (spec_lines options' (concat (map (written_line AppendLf) ?ls))) = ?ls" by simp
  obtain v w' where w: "parse_lines_new options (write_sink_new w h) = Inr v"
      "consume_sync (parse_lines_visitor d (write_lines_visitor write_all handle name (\<lambda>line. line) AppendLf)) v
        (map (Event \<circ> Some \<circ> Chunk) chunks @ Event (Some Eof) # ps) = Inr (Finished (Inr w'))"
      "contents w' = concat (map (written_line AppendLf) ?ls)"
    using write_lines_run [OF assms(1-3), of w h handle name "\<lambda>line. line" AppendLf chunks ps] assms(4) by (auto simp: comp_def)
  have "0 < limit options'" using assms(2,5) by linarith
  from collect_lines_run [OF assms(1) this, of copts _ "[]"] w same show ?thesis
    by (intro exI [of _ v] exI [of _ w'] conjI allI impI) (simp_all, fastforce)
qed

theorem written_lines_parse_back_witness:
  "\<exists>v w'. parse_lines_new line_parsing_options_default (write_sink_new [] ()) = Inr v \<and>
     consume_sync (parse_lines_visitor example_deps (write_lines_visitor vec_write_all fail_fast ''stdout'' (\<lambda>line. line) AppendLf)) v
       (map (Event \<circ> Some \<circ> Chunk) [''a'', [newline, CHR ''b'']] @ [Event (Some Eof)]) = Inr (Finished (Inr w')) \<and>
     (\<exists>v' c. consume_sync (parse_lines_visitor example_deps (collect_lines_visitor (line_collector LineTrustedUnbounded))) v'
        (map (Event \<circ> Some \<circ> Chunk) [w'] @ [Event (Some Eof)]) = Inr (Finished c) \<and> cl_lines c = [''a'', ''b''])"
proof -
  let ?o = "line_parsing_options_default\<lparr>max_line_length := NumBytes (3 * 16384)\<rparr>"
  have pos: "0 < limit line_parsing_options_default" "3 * limit line_parsing_options_default \<le> limit ?o"
    by (simp_all add: line_parsing_options_default_def DEFAULT_MAX_LINE_LENGTH_def)
  have ls: "map decode_line_lossy (spec_lines line_parsing_options_default (concat [''a'', [newline, CHR ''b'']])) = [''a'', ''b'']"
    "keep_lines LineTrustedUnbounded [''a'', ''b''] = [''a'', ''b'']"
    by code_simp+
  from written_lines_parse_back [OF example_deps_ok pos(1) vec_writer_appends refl pos(2), of "()" fail_fast "''stdout''"
      "[''a'', [newline, CHR ''b'']]" "[]" LineTrustedUnbounded, unfolded ls]
  obtain v w' where w: "parse_lines_new line_parsing_options_default (write_sink_new [] ()) = Inr v"
      "consume_sync (parse_lines_visitor example_deps (write_lines_visitor vec_write_all fail_fast ''stdout'' (\<lambda>line. line) AppendLf)) v
        (map (Event \<circ> Some \<circ> Chunk) [''a'', [newline, CHR ''b'']] @ [Event (Some Eof)]) = Inr (Finished (Inr w'))"
    and c: "\<forall>written. concat written = w' \<longrightarrow>
        (\<exists>v' c. parse_lines_new ?o collected_lines_new = Inr v' \<and>
           consume_sync (parse_lines_visitor example_deps (collect_lines_visitor (line_collector LineTrustedUnbounded))) v'
             (map (Event \<circ> Some \<circ> Chunk) written @ [Event (Some Eof)]) = Inr (Finished c) \<and> cl_lines c = [''a'', ''b''])"
    by blast
  from spec [OF c, of "[w']"] have "\<exists>v' c. consume_sync (parse_lines_visitor example_deps (collect_lines_visitor (line_collector LineTrustedUnbounded))) v'
      (map (Event \<circ> Some \<circ> Chunk) [w'] @ [Event (Some Eof)]) = Inr (Finished c) \<and> cl_lines c = [''a'', ''b'']" by auto
  with w show ?thesis by blast
qed

end
