(* ===== verification/Wait_Line.thy ===== *)
theory Wait_Line
  imports Observe
begin

text \<open>
  \<open>wait_for_line\<close> of the stream backends: a consumer with a waiting visitor, raced against a timeout.
\<close>

section \<open>Waiting for a line\<close>

datatype wait_for_line_result = Matched | StreamClosed | Timeout

text \<open>\<open>wait_for_line\<close> of both backends: drive a waiting visitor over the subscription and race it against
  the timeout.  The polls are those before the timeout, so a driver that is still waiting has timed
  out; the cancellation sender is held by the future itself, so no cancellation is polled.\<close>

definition stream_wait_for_line ::
  "byte_deps \<Rightarrow> (bytes \<Rightarrow> bool) \<Rightarrow> line_parsing_options \<Rightarrow> stream_event option list
     \<Rightarrow> (stream_read_error + wait_for_line_result) outcome" where
  "stream_wait_for_line d predicate options events =
     (case parse_lines_new options wait_for_line_new of
        Inl e \<Rightarrow> Inl e
      | Inr visitor \<Rightarrow>
          (case consume_sync (parse_lines_visitor d (wait_for_line_visitor predicate)) visitor (map Event events) of
             Inl e \<Rightarrow> Inl e
           | Inr (Finished b) \<Rightarrow> Inr (Inr (if b then Matched else StreamClosed))
           | Inr (ReadFailed err) \<Rightarrow> Inr (Inl err)
           | Inr (Waiting _) \<Rightarrow> Inr (Inr Timeout)))"

section \<open>Waiting on a prefix of a stream\<close>

lemma consume_parsed_prefix:
  assumes "byte_deps_ok d" and "\<And>s. line_on_gap L s = s"
  shows "parser_ok (pl_options v) (pl_parser v) \<Longrightarrow>
    \<exists>v'. consume_sync (parse_lines_visitor d L) v (map (Event \<circ> Some \<circ> Chunk) cs @ ps) =
      (case visit_lines L (pl_inner v) (map decode_line_lossy (fst (run (pl_options v) (lstate (pl_parser v)) (concat cs)))) of
         Inl e \<Rightarrow> Inl e
       | Inr (Break, s') \<Rightarrow> Inr (Finished (line_into_output L s'))
       | Inr (Continue, s') \<Rightarrow> consume_sync (parse_lines_visitor d L) (v'\<lparr>pl_inner := s'\<rparr>) ps)"
proof (induction cs arbitrary: v)
  case Nil
  then show ?case by (intro exI [of _ v]) simp
next
  case (Cons c cs)
  let ?V = "parse_lines_visitor d L"
  obtain p' where p': "drain_chunk d (pl_options v) (pl_parser v) c
        = Inr (map decode_line_lossy (fst (run (pl_options v) (lstate (pl_parser v)) c)), p')"
      "lstate p' = snd (run (pl_options v) (lstate (pl_parser v)) c)"
    using drain_chunk_sim [OF assms(1) Cons.prems] by blast
  have ok: "parser_ok (pl_options v) p'"
    unfolding p'(2) using Cons.prems by (rule run_lstate_ok)
  note loop = visit_chunk_loop_lines [OF p'(1), of L "pl_inner v"]
  show ?case
  proof (cases "visit_lines L (pl_inner v) (map decode_line_lossy (fst (run (pl_options v) (lstate (pl_parser v)) c)))")
    case (Inl e)
    then show ?thesis
      using loop by (auto simp: run_append visit_lines_append) (simp add: parse_lines_visitor_def parse_lines_on_chunk_def)
  next
    case (Inr x)
    obtain nx s' where x: "x = (nx, s')" by (cases x)
    show ?thesis
    proof (cases nx)
      case Break
      then show ?thesis
        using loop Inr x by (auto simp: run_append visit_lines_append)
          (auto simp: parse_lines_visitor_def parse_lines_on_chunk_def parse_lines_into_output_def)
    next
      case Continue
      let ?v = "v\<lparr>pl_parser := p', pl_inner := s'\<rparr>"
      have "on_chunk ?V v c = Inr (Continue, ?v)"
        using loop Inr x Continue by (simp add: parse_lines_visitor_def parse_lines_on_chunk_def)
      then show ?thesis
        using Cons.IH [of ?v] ok Inr x Continue p'(2) by (simp add: run_append visit_lines_append)
    qed
  qed
qed

lemma consume_wait_prefix:
  assumes "byte_deps_ok d" and "0 < limit options" and "parse_lines_new options wait_for_line_new = Inr v"
  shows "\<exists>v'. pl_inner v' = wait_for_line_new \<and>
     consume_sync (parse_lines_visitor d (wait_for_line_visitor predicate)) v (map (Event \<circ> Some \<circ> Chunk) cs @ ps) =
      (if list_ex predicate (map decode_line_lossy (fst (run options (ReadingLine, []) (concat cs))))
       then Inr (Finished True)
       else consume_sync (parse_lines_visitor d (wait_for_line_visitor predicate)) v' ps)"
proof -
  have v: "v = \<lparr>pl_parser = line_parser_new, pl_options = options, pl_inner = wait_for_line_new\<rparr>"
    using assms(3) parse_lines_new_ok [OF assms(2), of wait_for_line_new] by simp
  have l: "mode line_parser_new = ReadingLine" "bm_bytes (line_buffer line_parser_new) = []"
    by (simp_all add: line_parser_new_def)
  have g: "line_on_gap (wait_for_line_visitor predicate) s = s" for s
    by (simp add: wait_for_line_visitor_def)
  have out: "line_into_output (wait_for_line_visitor predicate) = matched"
    by (simp add: wait_for_line_visitor_def)
  let ?ls = "map decode_line_lossy (fst (run options (ReadingLine, []) (concat cs)))"
  obtain v' where v': "consume_sync (parse_lines_visitor d (wait_for_line_visitor predicate)) v (map (Event \<circ> Some \<circ> Chunk) cs @ ps) =
      (case visit_lines (wait_for_line_visitor predicate) wait_for_line_new ?ls of
         Inl e \<Rightarrow> Inl e
       | Inr (Break, s') \<Rightarrow> Inr (Finished (line_into_output (wait_for_line_visitor predicate) s'))
       | Inr (Continue, s') \<Rightarrow> consume_sync (parse_lines_visitor d (wait_for_line_visitor predicate)) (v'\<lparr>pl_inner := s'\<rparr>) ps)"
    using consume_parsed_prefix [OF assms(1) g, of v cs ps] v l by auto
  show ?thesis
    by (intro exI [of _ "v'\<lparr>pl_inner := wait_for_line_new\<rparr>"], cases "list_ex predicate ?ls")
      (simp_all add: v' visit_lines_wait out)
qed

section \<open>What waiting answers\<close>

text \<open>C29: waiting for a line answers \<open>Matched\<close> if a line that is complete before the stream ends or the
  timeout strikes satisfies the predicate; at the timeout otherwise \<open>Timeout\<close>; at the end of the stream
  \<open>Matched\<close> if the unterminated last line satisfies it and \<open>StreamClosed\<close> otherwise; and a read error is
  passed on unless a line matched before it.  It never panics on a valid length limit.\<close>

theorem wait_for_line_result:
  assumes "byte_deps_ok d" and "0 < limit options"
  shows "let lines = map decode_line_lossy (fst (run options (ReadingLine, []) (concat cs)));
           all_lines = map decode_line_lossy (spec_lines options (concat cs));
           chunks = map (Some \<circ> Chunk) cs
     in stream_wait_for_line d predicate options chunks = Inr (Inr (if list_ex predicate lines then Matched else Timeout)) \<and>
        stream_wait_for_line d predicate options (chunks @ [Some Eof]) = Inr (Inr (if list_ex predicate all_lines then Matched else StreamClosed)) \<and>
        stream_wait_for_line d predicate options (chunks @ [Some (ReadError err)]) =
          Inr (if list_ex predicate lines then Inr Matched else Inl err)"
proof -
  let ?V = "parse_lines_visitor d (wait_for_line_visitor predicate)"
  let ?lines = "map decode_line_lossy (fst (run options (ReadingLine, []) (concat cs)))"
  obtain v where v: "parse_lines_new options wait_for_line_new = Inr v"
    using parse_lines_new_ok [OF assms(2), of wait_for_line_new] by blast
  have polls: "map Event (map (Some \<circ> Chunk) cs @ tail) = map (Event \<circ> Some \<circ> Chunk) cs @ map Event tail" for tail
    by (simp add: comp_def)
  have "stream_wait_for_line d predicate options (map (Some \<circ> Chunk) cs @ []) = Inr (Inr (if list_ex predicate ?lines then Matched else Timeout))"
    using consume_wait_prefix [OF assms v, of predicate cs "[]"] v polls [of "[]"]
    by (auto simp: stream_wait_for_line_def o_assoc)
  moreover have "stream_wait_for_line d predicate options (map (Some \<circ> Chunk) cs @ [Some (ReadError err)]) =
          Inr (if list_ex predicate ?lines then Inr Matched else Inl err)"
    using consume_wait_prefix [OF assms v, of predicate cs "[Event (Some (ReadError err))]"] v polls [of "[Some (ReadError err)]"]
    by (auto simp: stream_wait_for_line_def o_assoc)
  moreover have "stream_wait_for_line d predicate options (map (Some \<circ> Chunk) cs @ [Some Eof]) =
      Inr (Inr (if list_ex predicate (map decode_line_lossy (spec_lines options (concat cs))) then Matched else StreamClosed))"
  proof -
    have "consume_sync ?V v (map (Event \<circ> Some \<circ> Chunk) cs @ [Event (Some Eof)]) =
        Inr (Finished (list_ex predicate (map decode_line_lossy (spec_lines options (concat cs)))))"
      using consume_lines_of_stream [OF assms, of "wait_for_line_visitor predicate" cs wait_for_line_new _ "[]"] v
      by (auto simp: visit_stream_wait) (simp add: wait_for_line_visitor_def)
    then show ?thesis using v polls [of "[Some Eof]"] by (simp add: stream_wait_for_line_def o_assoc)
  qed
  ultimately show ?thesis by (simp add: Let_def)
qed

theorem wait_for_line_result_witness:
  "stream_wait_for_line example_deps (\<lambda>l. l = ''ready'') line_parsing_options_default (map (Some \<circ> Chunk) [''rea'', ''dy''] @ [Some Eof])
     = Inr (Inr Matched) \<and>
   stream_wait_for_line example_deps (\<lambda>l. l = ''ready'') line_parsing_options_default (map (Some \<circ> Chunk) [''rea'', ''dy'']) = Inr (Inr Timeout)"
proof -
  have pos: "0 < limit line_parsing_options_default" by code_simp
  have h: "list_ex (\<lambda>l. l = ''ready'') (map decode_line_lossy (spec_lines line_parsing_options_default (concat [''rea'', ''dy''])))"
    "\<not> list_ex (\<lambda>l. l = ''ready'') (map decode_line_lossy (fst (run line_parsing_options_default (ReadingLine, []) (concat [''rea'', ''dy'']))))"
    subgoal by code_simp
    subgoal using run_clean [of "''ready''" line_parsing_options_default "[]"]
      by (simp add: line_parsing_options_default_def DEFAULT_MAX_LINE_LENGTH_def fits_def newline_def)
    done
  note r = wait_for_line_result [OF example_deps_ok pos, of "[''rea'', ''dy'']" "\<lambda>l. l = ''ready''", unfolded Let_def]
  show ?thesis
    unfolding r [THEN conjunct1] r [THEN conjunct2, THEN conjunct1] if_P [OF h(1)] if_not_P [OF h(2)] by simp
qed

end
