(* ===== verification/Broadcast_Stream.thy ===== *)
theory Broadcast_Stream
  imports Broadcast Reader_Loop Wait_Line Consumer
begin

text \<open>
  The broadcast output stream as a whole: the reader loops (\<open>fanout.rs\<close>, \<open>fast.rs\<close>), the fast backend on
  top of tokio's broadcast channel, the choice of backend and the stream's operations (\<open>mod.rs\<close>), and
  the discarded stream (\<open>backend/discard/mod.rs\<close>).
\<close>

section \<open>The fan-out reader\<close>

text \<open>Appending events one after the other; a pending send stops the reader there.\<close>

fun append_events ::
  "'ch mpsc_ops \<Rightarrow> stream_config \<Rightarrow> stream_event list \<Rightarrow> 'ch fan_world \<Rightarrow> (unit poll_result \<times> 'ch fan_world) outcome" where
  "append_events ops options [] w = Inr (Ready (), w)"
| "append_events ops options (ev # evs) w =
     (case append_event ops options ev w of
        Inl e \<Rightarrow> Inl e
      | Inr (Pending, w') \<Rightarrow> Inr (Pending, w')
      | Inr (Ready _, w') \<Rightarrow> append_events ops options evs w')"

fun read_chunked_shared ::
  "'ch mpsc_ops \<Rightarrow> stream_config \<Rightarrow> string \<Rightarrow> read_result list \<Rightarrow> 'ch fan_world \<times> u64
     \<Rightarrow> (unit poll_result \<times> 'ch fan_world \<times> u64) outcome" where
  "read_chunked_shared ops options stream_name [] (w, n) = Inr (Pending, w, n)"
| "read_chunked_shared ops options stream_name (Inl err # rs) (w, n) =
     (case append_event ops options (ReadError (StreamReadError stream_name err)) w of
        Inl e \<Rightarrow> Inl e | Inr (r, w') \<Rightarrow> Inr (r, w', n))"
| "read_chunked_shared ops options stream_name (Inr bs # rs) (w, n) =
     (let n' = record_bytes_ingested n (length bs) in
      if bs = []
      then (case append_event ops options Eof w of Inl e \<Rightarrow> Inl e | Inr (r, w') \<Rightarrow> Inr (r, w', n'))
      else (case split_chunks (bytes (read_chunk_size options)) bs of
              Inl e \<Rightarrow> Inl e
            | Inr cs \<Rightarrow>
                (case append_events ops options (map Chunk cs) w of
                   Inl e \<Rightarrow> Inl e
                 | Inr (Pending, w') \<Rightarrow> Inr (Pending, w', n')
                 | Inr (Ready _, w') \<Rightarrow> read_chunked_shared ops options stream_name rs (w', n'))))"

section \<open>The fast backend\<close>

text \<open>tokio's broadcast channel: sending (which fails only without receivers, and that is ignored),
  subscribing, and receiving, which can report that the receiver lagged.\<close>

datatype broadcast_recv = Received stream_event | RecvClosed | RecvLagged nat

record ('ch, 'rx) broadcast_ops =
  bc_channel :: "nat \<Rightarrow> 'ch"
  bc_send :: "'ch \<Rightarrow> stream_event \<Rightarrow> 'ch"
  bc_subscribe :: "'ch \<Rightarrow> 'rx"
  bc_recv :: "'ch \<Rightarrow> 'rx \<Rightarrow> broadcast_recv poll_result \<times> 'rx"

record fast_closure_state =
  fast_closed :: bool
  fast_read_error :: "stream_read_error option"

record 'ch fast_backend =
  fb_sender :: 'ch
  fb_closure_state :: fast_closure_state
  fb_bytes_ingested :: u64
  fb_options :: stream_config
  fb_name :: string

definition new_fast_backend ::
  "('ch, 'rx) broadcast_ops \<Rightarrow> string \<Rightarrow> num_bytes \<Rightarrow> usize \<Rightarrow> 'ch fast_backend" where
  "new_fast_backend ops stream_name csize max_chunks =
     \<lparr>fb_sender = bc_channel ops max_chunks,
      fb_closure_state = \<lparr>fast_closed = False, fast_read_error = None\<rparr>,
      fb_bytes_ingested = 0,
      fb_options = \<lparr>read_chunk_size = csize, max_buffered_chunks = max_chunks,
                    config_delivery = LossyMarker, config_replay = NoReplay\<rparr>,
      fb_name = stream_name\<rparr>"

definition fast_send :: "('ch, 'rx) broadcast_ops \<Rightarrow> 'ch fast_backend \<Rightarrow> stream_event \<Rightarrow> 'ch fast_backend" where
  "fast_send ops b ev = b\<lparr>fb_sender := bc_send ops (fb_sender b) ev\<rparr>"

fun read_chunked_fast ::
  "('ch, 'rx) broadcast_ops \<Rightarrow> read_result list \<Rightarrow> 'ch fast_backend \<Rightarrow> (bool \<times> 'ch fast_backend) outcome" where
  "read_chunked_fast ops [] b = Inr (False, b)"
| "read_chunked_fast ops (Inl err # rs) b =
     (let e = StreamReadError (fb_name b) err;
          b1 = b\<lparr>fb_closure_state := (fb_closure_state b)\<lparr>fast_read_error := Some e\<rparr>\<rparr>
      in Inr (True, fast_send ops b1 (ReadError e)))"
| "read_chunked_fast ops (Inr bs # rs) b =
     (let b1 = (if 0 < length bs then b\<lparr>fb_bytes_ingested := saturating_add (fb_bytes_ingested b) (length bs)\<rparr> else b) in
      if bs = []
      then Inr (True, fast_send ops (b1\<lparr>fb_closure_state := (fb_closure_state b1)\<lparr>fast_closed := True\<rparr>\<rparr>) Eof)
      else (case split_chunks (bytes (read_chunk_size (fb_options b1))) bs of
              Inl e \<Rightarrow> Inl e
            | Inr cs \<Rightarrow> read_chunked_fast ops rs (foldl (\<lambda>b c. fast_send ops b (Chunk c)) b1 cs)))"

record 'rx fast_subscription =
  fsub_receiver :: 'rx
  emit_terminal_event :: "stream_event option"

definition try_subscribe_fast :: "('ch, 'rx) broadcast_ops \<Rightarrow> 'ch fast_backend \<Rightarrow> 'rx fast_subscription" where
  "try_subscribe_fast ops b =
     \<lparr>fsub_receiver = bc_subscribe ops (fb_sender b),
      emit_terminal_event =
        (case fast_read_error (fb_closure_state b) of
           Some err \<Rightarrow> Some (ReadError err)
         | None \<Rightarrow> if fast_closed (fb_closure_state b) then Some Eof else None)\<rparr>"

definition fast_recv ::
  "('ch, 'rx) broadcast_ops \<Rightarrow> 'ch \<Rightarrow> 'rx fast_subscription \<Rightarrow> stream_event option poll_result \<times> 'rx fast_subscription" where
  "fast_recv ops ch sub =
     (case emit_terminal_event sub of
        Some event \<Rightarrow> (Ready (Some event), sub\<lparr>emit_terminal_event := None\<rparr>)
      | None \<Rightarrow>
          (case bc_recv ops ch (fsub_receiver sub) of
             (Pending, rx') \<Rightarrow> (Pending, sub\<lparr>fsub_receiver := rx'\<rparr>)
           | (Ready (Received event), rx') \<Rightarrow> (Ready (Some event), sub\<lparr>fsub_receiver := rx'\<rparr>)
           | (Ready RecvClosed, rx') \<Rightarrow> (Ready None, sub\<lparr>fsub_receiver := rx'\<rparr>)
           | (Ready (RecvLagged n), rx') \<Rightarrow> (Ready (Some Gap), sub\<lparr>fsub_receiver := rx'\<rparr>)))"

section \<open>The stream\<close>

datatype ('fast, 'fan) broadcast_backend = Fast 'fast | FanoutReplay 'fan

definition new_fanout_world :: "'ch mpsc_ops \<Rightarrow> 'ch fan_world" where
  "new_fanout_world ops =
     \<lparr>w_state = broadcast_state_new, w_queues = (\<lambda>_. live_queue_new 0),
      w_chans = (\<lambda>_. mpsc_channel ops 0), w_next_addr = 0\<rparr>"

definition broadcast_from_stream ::
  "('b, 'rx) broadcast_ops \<Rightarrow> 'ch mpsc_ops \<Rightarrow> string \<Rightarrow> stream_config
     \<Rightarrow> ('b fast_backend, 'ch fan_world \<times> stream_config \<times> string) broadcast_backend outcome" where
  "broadcast_from_stream bops ops stream_name options =
     (case assert_valid options ''options'' of
        Inl e \<Rightarrow> Inl e
      | Inr _ \<Rightarrow>
          if config_delivery_guarantee options = LossyWithoutBackpressure \<and> \<not> config_replay_enabled options
          then Inr (Fast (new_fast_backend bops stream_name (read_chunk_size options) (max_buffered_chunks options)))
          else Inr (FanoutReplay (new_fanout_world ops, options, stream_name)))"

fun broadcast_read_chunk_size ::
  "('b fast_backend, 'ch fan_world \<times> stream_config \<times> string) broadcast_backend \<Rightarrow> num_bytes" where
  "broadcast_read_chunk_size (Fast b) = read_chunk_size (fb_options b)"
| "broadcast_read_chunk_size (FanoutReplay (w, options, name)) = read_chunk_size options"

fun broadcast_max_buffered_chunks ::
  "('b fast_backend, 'ch fan_world \<times> stream_config \<times> string) broadcast_backend \<Rightarrow> usize" where
  "broadcast_max_buffered_chunks (Fast b) = max_buffered_chunks (fb_options b)"
| "broadcast_max_buffered_chunks (FanoutReplay (w, options, name)) = max_buffered_chunks options"

fun broadcast_name ::
  "('b fast_backend, 'ch fan_world \<times> stream_config \<times> string) broadcast_backend \<Rightarrow> string" where
  "broadcast_name (Fast b) = fb_name b"
| "broadcast_name (FanoutReplay (w, options, name)) = name"

fun broadcast_seal_replay ::
  "('b fast_backend, 'ch fan_world \<times> stream_config \<times> string) broadcast_backend
     \<Rightarrow> ('b fast_backend, 'ch fan_world \<times> stream_config \<times> string) broadcast_backend" where
  "broadcast_seal_replay (Fast b) = Fast b"
| "broadcast_seal_replay (FanoutReplay (w, options, name)) =
     FanoutReplay (w\<lparr>w_state := seal_replay (w_state w)\<rparr>, options, name)"

fun broadcast_is_replay_sealed ::
  "('b fast_backend, 'ch fan_world \<times> stream_config \<times> string) broadcast_backend \<Rightarrow> bool" where
  "broadcast_is_replay_sealed (Fast b) = False"
| "broadcast_is_replay_sealed (FanoutReplay (w, options, name)) = bs_replay_sealed (w_state w)"

fun broadcast_drop ::
  "('b fast_backend, 'ch fan_world \<times> stream_config \<times> string) broadcast_backend
     \<Rightarrow> ('b fast_backend, 'ch fan_world \<times> stream_config \<times> string) broadcast_backend" where
  "broadcast_drop (Fast b) = Fast b"
| "broadcast_drop (FanoutReplay (w, options, name)) = FanoutReplay (fanout_drop w, options, name)"

text \<open>Subscribing to and receiving from either backend (\<open>BroadcastSubscription\<close>).\<close>

datatype 'rx broadcast_subscription = FastSub "'rx fast_subscription" | SharedSub shared_subscription

fun broadcast_try_subscribe ::
  "('b, 'rx) broadcast_ops \<Rightarrow> 'ch mpsc_ops \<Rightarrow> ('b fast_backend, 'ch fan_world \<times> stream_config \<times> string) broadcast_backend
     \<Rightarrow> 'rx broadcast_subscription \<times> ('b fast_backend, 'ch fan_world \<times> stream_config \<times> string) broadcast_backend" where
  "broadcast_try_subscribe bops ops (Fast b) = (FastSub (try_subscribe_fast bops b), Fast b)"
| "broadcast_try_subscribe bops ops (FanoutReplay (w, options, name)) =
     (case try_subscribe_fanout ops options w of (sub, w') \<Rightarrow> (SharedSub sub, FanoutReplay (w', options, name)))"

text \<open>A subscription only ever meets the backend that made it.\<close>

fun broadcast_next_event ::
  "('b, 'rx) broadcast_ops \<Rightarrow> 'ch mpsc_ops \<Rightarrow> 'rx broadcast_subscription
     \<Rightarrow> ('b fast_backend, 'ch fan_world \<times> stream_config \<times> string) broadcast_backend
     \<Rightarrow> (stream_event option poll_result \<times> 'rx broadcast_subscription
          \<times> ('b fast_backend, 'ch fan_world \<times> stream_config \<times> string) broadcast_backend) option" where
  "broadcast_next_event bops ops (FastSub sub) (Fast b) =
     (case fast_recv bops (fb_sender b) sub of (r, sub') \<Rightarrow> Some (r, FastSub sub', Fast b))"
| "broadcast_next_event bops ops (SharedSub sub) (FanoutReplay (w, options, name)) =
     (case shared_recv ops sub w of
        None \<Rightarrow> None
      | Some (r, sub', w') \<Rightarrow> Some (r, SharedSub sub', FanoutReplay (w', options, name)))"
| "broadcast_next_event bops ops sub b = None"

section \<open>The discarded stream\<close>

record immediate_eof =
  eof_emitted :: bool

definition discarded_try_subscribe :: immediate_eof where
  "discarded_try_subscribe = \<lparr>eof_emitted = False\<rparr>"

definition immediate_eof_next_event :: "immediate_eof \<Rightarrow> stream_event option \<times> immediate_eof" where
  "immediate_eof_next_event s = (if eof_emitted s then None else Some Eof, s\<lparr>eof_emitted := True\<rparr>)"

definition discarded_read_chunk_size :: num_bytes where
  "discarded_read_chunk_size = num_bytes_zero"

definition discarded_max_buffered_chunks :: usize where
  "discarded_max_buffered_chunks = 0"

section \<open>From the pipe to the events\<close>

lemma append_events_append:
  "append_events ops options (es @ es') w =
     (case append_events ops options es w of
        Inl e \<Rightarrow> Inl e
      | Inr (Pending, w') \<Rightarrow> Inr (Pending, w')
      | Inr (Ready _, w') \<Rightarrow> append_events ops options es' w')"
  by (induction ops options es w rule: append_events.induct) (auto split: sum.splits prod.splits poll_result.splits)

lemma append_events_one:
  "append_events ops options [ev] w = append_event ops options ev w"
  by (auto split: sum.splits prod.splits poll_result.splits)

text \<open>Both readers publish exactly these events.\<close>

lemma read_chunked_shared_events:
  assumes "reader_events name (read_chunk_size options) rs = Inr evs" and "read_terminal name rs \<noteq> None"
  shows "\<exists>n'. read_chunked_shared ops options name rs (w, n) =
     (case append_events ops options evs w of Inl e \<Rightarrow> Inl e | Inr (r, w') \<Rightarrow> Inr (r, w', n'))"
  using assms
proof (induction rs arbitrary: w n evs)
  case (Cons r rs)
  show ?case
  proof (cases r)
    case (Inl err)
    then show ?thesis using Cons.prems by (auto simp: append_events_one simp del: append_events.simps)
  next
    case (Inr bs)
    show ?thesis
    proof (cases "bs = []")
      case True
      then show ?thesis using Inr Cons.prems by (auto simp: append_events_one Let_def simp del: append_events.simps)
    next
      case False
      then obtain cs evs' where cs: "split_chunks (bytes (read_chunk_size options)) bs = Inr cs"
          "reader_events name (read_chunk_size options) rs = Inr evs'" "evs = map Chunk cs @ evs'"
        using Inr Cons.prems(1) by (auto split: sum.splits)
      have t: "read_terminal name rs \<noteq> None" using Cons.prems(2) Inr False by simp
      show ?thesis
      proof (cases "append_events ops options (map Chunk cs) w")
        case (Inl e)
        then show ?thesis using Inr False cs \<open>r = Inr bs\<close> by (simp add: append_events_append Let_def)
      next
        case (Inr x)
        then obtain p w' where x: "append_events ops options (map Chunk cs) w = Inr (p, w')" by (cases x) auto
        show ?thesis
        proof (cases p)
          case (Ready u)
          then show ?thesis
            using Cons.IH [OF cs(2) t, of w' "record_bytes_ingested n (length bs)"] x False cs \<open>r = Inr bs\<close>
            by (simp add: append_events_append Let_def)
        next
          case Pending
          then show ?thesis using x False cs \<open>r = Inr bs\<close> by (auto simp: append_events_append Let_def)
        qed
      qed
    qed
  qed
qed simp

lemma fast_sends:
  "fb_sender (foldl (\<lambda>b c. fast_send ops b (Chunk c)) b cs) = foldl (bc_send ops) (fb_sender b) (map Chunk cs) \<and>
   fb_options (foldl (\<lambda>b c. fast_send ops b (Chunk c)) b cs) = fb_options b \<and>
   fb_name (foldl (\<lambda>b c. fast_send ops b (Chunk c)) b cs) = fb_name b"
  by (induction cs arbitrary: b) (simp_all add: fast_send_def)

lemma read_chunked_fast_events:
  assumes "reader_events (fb_name b) (read_chunk_size (fb_options b)) rs = Inr evs" and "read_terminal (fb_name b) rs \<noteq> None"
  shows "\<exists>b'. read_chunked_fast ops rs b = Inr (True, b') \<and> fb_sender b' = foldl (bc_send ops) (fb_sender b) evs"
  using assms
proof (induction rs arbitrary: b evs)
  case (Cons r rs)
  show ?case
  proof (cases r)
    case (Inl err)
    then show ?thesis using Cons.prems by (auto simp: fast_send_def Let_def)
  next
    case (Inr bs)
    show ?thesis
    proof (cases "bs = []")
      case True
      then show ?thesis using Inr Cons.prems by (auto simp: fast_send_def Let_def)
    next
      case False
      then obtain cs evs' where cs: "split_chunks (bytes (read_chunk_size (fb_options b))) bs = Inr cs"
          "reader_events (fb_name b) (read_chunk_size (fb_options b)) rs = Inr evs'" "evs = map Chunk cs @ evs'"
        using Inr Cons.prems(1) by (auto split: sum.splits)
      let ?b = "b\<lparr>fb_bytes_ingested := saturating_add (fb_bytes_ingested b) (length bs)\<rparr>"
      show ?thesis
        using Cons.IH [of "foldl (\<lambda>b c. fast_send ops b (Chunk c)) ?b cs" evs'] Inr False cs Cons.prems(2)
          fast_sends [of ops ?b cs]
        by (simp add: Let_def)
    qed
  qed
qed simp

section \<open>Properties of broadcast streams\<close>

text \<open>C28: both reader loops publish exactly what the pipe delivered: the bytes read, cut into non-empty
  chunks of at most the configured size, in order and without loss, followed by exactly one terminal
  event, end-of-file or the read error; neither loop can spin on an empty split.\<close>

theorem readers_publish_stream:
  assumes "config_ok options" and "read_terminal name rs = Some t"
    and "fb_name b = name" and "read_chunk_size (fb_options b) = read_chunk_size options"
  shows "\<exists>cs n' b'. concat cs = read_bytes rs \<and> list_all (\<lambda>c. c \<noteq> [] \<and> length c \<le> bytes (read_chunk_size options)) cs \<and>
     read_chunked_shared ops options name rs (w, n) =
       (case append_events ops options (map Chunk cs @ [t]) w of Inl e \<Rightarrow> Inl e | Inr (r, w') \<Rightarrow> Inr (r, w', n')) \<and>
     read_chunked_fast bops rs b = Inr (True, b') \<and> fb_sender b' = foldl (bc_send bops) (fb_sender b) (map Chunk cs @ [t])"
proof -
  have "0 < bytes (read_chunk_size options)" using assms(1) by (simp add: config_ok_def)
  from reader_events_shape [OF this, of name rs] obtain cs where
    cs: "reader_events name (read_chunk_size options) rs = Inr (map Chunk cs @ [t])" "concat cs = read_bytes rs"
      "\<forall>c\<in>set cs. c \<noteq> [] \<and> length c \<le> bytes (read_chunk_size options)"
    using assms(2) by auto
  have t: "read_terminal name rs \<noteq> None" using assms(2) by simp
  obtain n' where "read_chunked_shared ops options name rs (w, n) =
       (case append_events ops options (map Chunk cs @ [t]) w of Inl e \<Rightarrow> Inl e | Inr (r, w') \<Rightarrow> Inr (r, w', n'))"
    using read_chunked_shared_events [OF cs(1) t] by blast
  moreover obtain b' where "read_chunked_fast bops rs b = Inr (True, b')"
      "fb_sender b' = foldl (bc_send bops) (fb_sender b) (map Chunk cs @ [t])"
    using read_chunked_fast_events [of b rs "map Chunk cs @ [t]" bops] cs(1) t assms(3,4) by auto
  ultimately show ?thesis using cs(2,3) by (auto simp: list_all_iff)
qed

text \<open>A broadcast channel that just records what is sent.\<close>

definition example_broadcast :: "(stream_event list, unit) broadcast_ops" where
  "example_broadcast =
     \<lparr>bc_channel = (\<lambda>n. []), bc_send = (\<lambda>ch ev. ch @ [ev]), bc_subscribe = (\<lambda>ch. ()), bc_recv = (\<lambda>ch rx. (Pending, rx))\<rparr>"

theorem readers_publish_stream_witness:
  "\<exists>cs b'. concat cs = ''abcde'' \<and> list_all (\<lambda>c. c \<noteq> [] \<and> length c \<le> 4) cs \<and>
     read_chunked_fast example_broadcast [Inr ''abcde'', Inr []] (new_fast_backend example_broadcast ''stdout'' (NumBytes 4) 1) = Inr (True, b') \<and>
     fb_sender b' = foldl (bc_send example_broadcast) [] (map Chunk cs @ [Eof])"
proof -
  let ?b = "new_fast_backend example_broadcast ''stdout'' (NumBytes 4) 1"
  have h: "config_ok (example_config LossyMarker)" "read_terminal ''stdout'' [Inr ''abcde'', Inr []] = Some Eof"
    "fb_name ?b = ''stdout''" "read_chunk_size (fb_options ?b) = read_chunk_size (example_config LossyMarker)"
    "bytes (read_chunk_size (example_config LossyMarker)) = 4" "read_bytes [Inr ''abcde'', Inr []] = ''abcde''" "fb_sender ?b = []"
    by (simp_all add: config_ok_def example_config_def config_replay_retention_def retention_ok_def new_fast_backend_def
        example_broadcast_def)
  obtain cs b' where "concat cs = read_bytes [Inr ''abcde'', Inr []]"
      "list_all (\<lambda>c. c \<noteq> [] \<and> length c \<le> bytes (read_chunk_size (example_config LossyMarker))) cs"
      "read_chunked_fast example_broadcast [Inr ''abcde'', Inr []] ?b = Inr (True, b')"
      "fb_sender b' = foldl (bc_send example_broadcast) (fb_sender ?b) (map Chunk cs @ [Eof])"
    using readers_publish_stream [OF h(1-4), of example_mpsc undefined undefined example_broadcast] by blast
  then show ?thesis unfolding h(5-7) by blast
qed

text \<open>The discarded stream: one end-of-file, then closed, so every consumer ends at once.\<close>

lemma discarded_next_event:
  "fst (immediate_eof_next_event discarded_try_subscribe) = Some Eof"
  "fst (immediate_eof_next_event (snd (immediate_eof_next_event s))) = None"
  by (simp_all add: immediate_eof_next_event_def discarded_try_subscribe_def)

text \<open>The fast backend is chosen for lossy delivery without replay only, and keeps the configuration.\<close>

lemma from_stream_backend:
  assumes "config_ok options"
  shows "\<exists>b. broadcast_from_stream bops ops name options = Inr b \<and>
     broadcast_read_chunk_size b = read_chunk_size options \<and> broadcast_max_buffered_chunks b = max_buffered_chunks options \<and>
     broadcast_name b = name \<and> ((\<exists>f. b = Fast f) \<longleftrightarrow> config_delivery options = LossyMarker \<and> config_replay options = NoReplay)"
proof -
  have "assert_valid options ''options'' = Inr ()" using assms by (simp add: assert_valid_iff)
  then show ?thesis
    by (cases "config_delivery options"; cases "config_replay options")
      (simp_all add: broadcast_from_stream_def config_delivery_guarantee_def config_replay_enabled_def new_fast_backend_def)
qed

end
