(* ===== verification/Single_State.thy ===== *)
theory Single_State
  imports Replay_Window
begin

text \<open>
  The replay state of the single-subscriber backend, \<open>ReplayState\<close> of
  \<open>backend/single_subscriber/state.rs\<close>: the retained events with their counters, sealing, the terminal
  event, and the registration of the one active subscriber.

  \<open>ss_ok\<close> is the invariant: only chunks are retained and the counters are exact.  Under it no operation
  panics, the trimming loops end, and the buffer is a \<open>replay_window\<close>, like the broadcast backend's.
\<close>

section \<open>State\<close>

record replay_state =
  ss_events :: "stream_event list"
  ss_chunk_count :: usize
  ss_byte_count :: usize
  ss_replay_sealed :: bool
  ss_terminal_event :: "stream_event option"
  active_id :: "u64 option"
  ss_next_subscriber_id :: u64

definition replay_state_new :: replay_state where
  "replay_state_new =
     \<lparr>ss_events = [], ss_chunk_count = 0, ss_byte_count = 0, ss_replay_sealed = False,
      ss_terminal_event = None, active_id = None, ss_next_subscriber_id = 0\<rparr>"

definition push_retained_event :: "replay_state \<Rightarrow> stream_event \<Rightarrow> replay_state" where
  "push_retained_event st event =
     (let st1 = (case event of
                   Chunk chunk \<Rightarrow> st\<lparr>ss_chunk_count := ss_chunk_count st + 1, ss_byte_count := ss_byte_count st + length chunk\<rparr>
                 | _ \<Rightarrow> st)
      in st1\<lparr>ss_events := ss_events st1 @ [event]\<rparr>)"

definition ss_pop_replay_front :: "replay_state \<Rightarrow> (stream_event option \<times> replay_state) outcome" where
  "ss_pop_replay_front st =
     (case ss_events st of
        [] \<Rightarrow> Inr (None, st)
      | event # rest \<Rightarrow>
          (let st1 = st\<lparr>ss_events := rest\<rparr> in
           case event of
             Chunk chunk \<Rightarrow>
               (case usize_sub (ss_chunk_count st1) 1 of
                  Inl e \<Rightarrow> Inl e
                | Inr n \<Rightarrow>
                    (case usize_sub (ss_byte_count st1) (length chunk) of
                       Inl e \<Rightarrow> Inl e
                     | Inr m \<Rightarrow> Inr (Some event, st1\<lparr>ss_chunk_count := n, ss_byte_count := m\<rparr>)))
           | _ \<Rightarrow> Inr (Some event, st1)))"

definition snapshot_events :: "replay_state \<Rightarrow> stream_event list" where
  "snapshot_events st = ss_events st"

definition attach_subscriber :: "replay_state \<Rightarrow> u64 \<times> replay_state" where
  "attach_subscriber st =
     (let sid = ss_next_subscriber_id st in
      (sid, st\<lparr>ss_next_subscriber_id := ss_next_subscriber_id st + 1, active_id := Some sid\<rparr>))"

section \<open>Trimming\<close>

lemma ss_pop_replay_front_shrinks:
  "ss_pop_replay_front st = Inr (Some event, st') \<Longrightarrow> length (ss_events st') < length (ss_events st)"
  by (auto simp: ss_pop_replay_front_def Let_def split: list.splits stream_event.splits sum.splits)

text \<open>\<open>while self.pop_replay_front().is_some() {}\<close>\<close>

function ss_pop_all :: "replay_state \<Rightarrow> replay_state outcome" where
  "ss_pop_all st =
     (case ss_pop_replay_front st of
        Inl e \<Rightarrow> Inl e
      | Inr (None, st') \<Rightarrow> Inr st'
      | Inr (Some _, st') \<Rightarrow> ss_pop_all st')"
  by pat_completeness auto
termination
  by (relation "measure (\<lambda>st. length (ss_events st))") (auto dest: ss_pop_replay_front_shrinks)

function ss_trim_chunks_loop :: "nat \<Rightarrow> replay_state \<Rightarrow> replay_state outcome" where
  "ss_trim_chunks_loop chunks st =
     (if chunks < ss_chunk_count st
      then (case ss_pop_replay_front st of
              Inl e \<Rightarrow> Inl e
            | Inr (None, st') \<Rightarrow> Inl Diverges
            | Inr (Some _, st') \<Rightarrow> ss_trim_chunks_loop chunks st')
      else Inr st)"
  by pat_completeness auto
termination
  by (relation "measure (\<lambda>(n, st). length (ss_events st))") (auto dest: ss_pop_replay_front_shrinks)

function ss_trim_bytes_loop :: "nat \<Rightarrow> replay_state \<Rightarrow> replay_state outcome" where
  "ss_trim_bytes_loop limit_b st =
     (case ss_events st of
        [] \<Rightarrow> Inr st
      | event # _ \<Rightarrow>
          (case event of
             Chunk chunk \<Rightarrow>
               if limit_b \<le> saturating_sub (ss_byte_count st) (length chunk)
               then (case ss_pop_replay_front st of
                       Inl e \<Rightarrow> Inl e
                     | Inr (None, st') \<Rightarrow> Inl Diverges
                     | Inr (Some _, st') \<Rightarrow> ss_trim_bytes_loop limit_b st')
               else Inr st
           | Gap \<Rightarrow>
               (case ss_pop_replay_front st of
                  Inl e \<Rightarrow> Inl e
                | Inr (None, st') \<Rightarrow> Inl Diverges
                | Inr (Some _, st') \<Rightarrow> ss_trim_bytes_loop limit_b st')
           | _ \<Rightarrow> Inl (UnreachableCode ''terminal events are stored separately'')))"
  by pat_completeness auto
termination
  by (relation "measure (\<lambda>(n, st). length (ss_events st))") (auto dest: ss_pop_replay_front_shrinks)

declare ss_pop_all.simps [simp del] ss_trim_chunks_loop.simps [simp del] ss_trim_bytes_loop.simps [simp del]

definition ss_trim_replay_window :: "replay_state \<Rightarrow> replay_retention option \<Rightarrow> replay_state outcome" where
  "ss_trim_replay_window st retention =
     (case retention of
        None \<Rightarrow> ss_pop_all st
      | Some (LastChunks chunks) \<Rightarrow>
          if chunks = 0 then ss_pop_all st
          else if ss_replay_sealed st then ss_pop_all st
          else ss_trim_chunks_loop chunks st
      | Some (LastBytes b) \<Rightarrow>
          if ss_replay_sealed st then ss_pop_all st
          else if bytes b = 0 then ss_pop_all st
          else ss_trim_bytes_loop (bytes b) st
      | Some RetainAll \<Rightarrow> if ss_replay_sealed st then ss_pop_all st else Inr st)"

definition push_replay_event ::
  "replay_state \<Rightarrow> stream_event \<Rightarrow> replay_retention option \<Rightarrow> (bool \<times> replay_state) outcome" where
  "push_replay_event st event retention =
     (case event of
        Eof \<Rightarrow> Inr (True, st\<lparr>ss_terminal_event := Some event\<rparr>)
      | ReadError _ \<Rightarrow> Inr (True, st\<lparr>ss_terminal_event := Some event\<rparr>)
      | Chunk _ \<Rightarrow>
          if retention \<noteq> None \<and> \<not> ss_replay_sealed st
          then (case ss_trim_replay_window (push_retained_event st event) retention of
                  Inl e \<Rightarrow> Inl e
                | Inr st' \<Rightarrow> Inr (ss_events st' \<noteq> [], st'))
          else Inr (False, st)
      | Gap \<Rightarrow> Inr (False, st))"

text \<open>\<open>SingleSubscriberOutputStream::seal_replay\<close>, under the lock.\<close>

definition ss_seal_replay :: "replay_state \<Rightarrow> replay_retention option \<Rightarrow> replay_state outcome" where
  "ss_seal_replay st retention = ss_trim_replay_window (st\<lparr>ss_replay_sealed := True\<rparr>) retention"

section \<open>Invariant\<close>

definition chunk_payload :: "stream_event \<Rightarrow> bytes" where
  "chunk_payload e = (case e of Chunk c \<Rightarrow> c | _ \<Rightarrow> [])"

abbreviation ss_window :: "replay_state \<Rightarrow> bytes list" where
  "ss_window st \<equiv> map chunk_payload (ss_events st)"

definition ss_ok :: "replay_state \<Rightarrow> bool" where
  "ss_ok st \<longleftrightarrow>
     list_all is_chunk (ss_events st) \<and> ss_chunk_count st = length (ss_events st) \<and>
     ss_byte_count st = total_len (ss_window st)"

text \<open>A state that differs only in its retained events, with exact counters.\<close>

definition with_window :: "replay_state \<Rightarrow> bytes list \<Rightarrow> replay_state" where
  "with_window st cs = st\<lparr>ss_events := map Chunk cs, ss_chunk_count := length cs, ss_byte_count := total_len cs\<rparr>"

lemma with_window_simps [simp]:
  "ss_events (with_window st cs) = map Chunk cs" "ss_chunk_count (with_window st cs) = length cs"
  "ss_byte_count (with_window st cs) = total_len cs"
  "ss_replay_sealed (with_window st cs) = ss_replay_sealed st" "ss_terminal_event (with_window st cs) = ss_terminal_event st"
  "active_id (with_window st cs) = active_id st" "ss_next_subscriber_id (with_window st cs) = ss_next_subscriber_id st"
  "with_window (with_window st cs) ds = with_window st ds"
  by (simp_all add: with_window_def)

lemma payload_Chunk [simp]: "chunk_payload (Chunk c) = c" "chunk_payload \<circ> Chunk = id"
  by (auto simp: chunk_payload_def)

lemma ss_ok_with_window [simp]: "ss_ok (with_window st cs)"
  by (simp add: ss_ok_def list_all_iff)

lemma ss_window_with_window [simp]: "ss_window (with_window st cs) = cs"
  by simp

text \<open>Every well-formed state is of that form, so the operations are computed on windows.\<close>

lemma chunks_payload: "list_all is_chunk es \<Longrightarrow> map Chunk (map chunk_payload es) = es"
proof (induction es)
  case (Cons e es)
  then show ?case by (cases e) (auto simp: chunk_payload_def)
qed simp

lemma ss_ok_window: "ss_ok st \<Longrightarrow> st = with_window st (ss_window st)"
  using chunks_payload [of "ss_events st"] by (cases st) (auto simp: ss_ok_def with_window_def)

lemma pop_window [simp]:
  "ss_pop_replay_front (with_window st []) = Inr (None, with_window st [])"
  "ss_pop_replay_front (with_window st (c # cs)) = Inr (Some (Chunk c), with_window st cs)"
  by (simp_all add: ss_pop_replay_front_def with_window_def Let_def)

lemma pop_all_window [simp]: "ss_pop_all (with_window st cs) = Inr (with_window st [])"
  by (induction cs) (simp_all add: ss_pop_all.simps)

lemma trim_chunks_window [simp]: "ss_trim_chunks_loop n (with_window st cs) = Inr (with_window st (last_n n cs))"
proof (induction cs)
  case Nil
  then show ?case by (simp add: ss_trim_chunks_loop.simps)
next
  case (Cons c cs)
  then show ?case
    by (cases "n < length (c # cs)")
      (auto simp: ss_trim_chunks_loop.simps [of n "with_window st (c # cs)"] last_n_def Suc_diff_le less_Suc_eq_le)
qed

lemma trim_bytes_window [simp]: "ss_trim_bytes_loop b (with_window st cs) = Inr (with_window st (cover b cs))"
  by (induction cs) (auto simp: ss_trim_bytes_loop.simps)

lemma trim_replay_window [simp]:
  "ss_trim_replay_window (with_window st cs) r =
     Inr (with_window st (if ss_replay_sealed st then [] else window_spec r cs))"
  by (cases "(r, cs)" rule: window_spec.cases) (auto simp: ss_trim_replay_window_def)

lemma push_retained_window [simp]: "push_retained_event (with_window st cs) (Chunk c) = with_window st (cs @ [c])"
  by (simp add: push_retained_event_def with_window_def Let_def)

text \<open>Everything \<open>push_replay_event\<close> does, and that it reports exactly whether a later subscriber gets the
  event: a terminal event always, a chunk if it is retained.\<close>

definition records :: "replay_state \<Rightarrow> replay_retention option \<Rightarrow> stream_event \<Rightarrow> bool" where
  "records st r ev \<longleftrightarrow> is_terminal ev \<or> is_chunk ev \<and> r \<noteq> None \<and> \<not> ss_replay_sealed st"

definition ss_pushed :: "replay_state \<Rightarrow> stream_event \<Rightarrow> replay_retention option \<Rightarrow> replay_state" where
  "ss_pushed st ev r =
     (case ev of
        Chunk c \<Rightarrow> if records st r ev then with_window st (window_spec r (ss_window st @ [c])) else st
      | Gap \<Rightarrow> st
      | _ \<Rightarrow> st\<lparr>ss_terminal_event := Some ev\<rparr>)"

lemma push_replay_event_ok:
  assumes "ss_ok st" and "retention_ok r"
  shows "push_replay_event st ev r = Inr (records st r ev, ss_pushed st ev r)" and "ss_ok (ss_pushed st ev r)"
proof -
  have w: "with_window st (ss_window st) = st" using ss_ok_window [OF assms(1)] by simp
  have push: "push_retained_event st (Chunk c) = with_window st (ss_window st @ [c])" for c
    using push_retained_window [of st "ss_window st" c] w by simp
  show "push_replay_event st ev r = Inr (records st r ev, ss_pushed st ev r)"
    using window_spec_last [OF assms(2)]
    by (cases ev) (auto simp: push_replay_event_def records_def ss_pushed_def push)
  show "ss_ok (ss_pushed st ev r)"
    using assms(1) by (cases ev) (simp_all add: ss_pushed_def, simp_all add: ss_ok_def)
qed

lemma ss_seal_ok:
  assumes "ss_ok st"
  shows "ss_seal_replay st r = Inr ((with_window st [])\<lparr>ss_replay_sealed := True\<rparr>)"
proof -
  let ?st = "st\<lparr>ss_replay_sealed := True\<rparr>"
  have "?st = with_window ?st (ss_window st)"
    using assms ss_ok_window [of ?st] by (simp add: ss_ok_def)
  then show ?thesis
    using trim_replay_window [of ?st "ss_window st" r] by (simp add: ss_seal_replay_def with_window_def)
qed

section \<open>The buffer as a replay window\<close>

definition push_chunk_replay :: "replay_retention option \<Rightarrow> replay_state \<Rightarrow> bytes \<Rightarrow> replay_state outcome" where
  "push_chunk_replay r st c =
     (case push_replay_event st (Chunk c) r of Inl e \<Rightarrow> Inl e | Inr (_, st') \<Rightarrow> Inr st')"

lemma push_chunk_replay_ok:
  assumes "ss_ok st" and "\<not> ss_replay_sealed st" and "r \<noteq> None"
  shows "push_chunk_replay r st c = Inr (with_window st (window_spec r (ss_window st @ [c])))"
proof -
  have "push_retained_event st (Chunk c) = with_window st (ss_window st @ [c])"
    using push_retained_window [of st "ss_window st" c] ss_ok_window [OF assms(1)] by simp
  then show ?thesis using assms(2,3) by (auto simp: push_chunk_replay_def push_replay_event_def)
qed

lemma replay_state_new_ok [simp]:
  "ss_ok replay_state_new" "ss_events replay_state_new = []" "\<not> ss_replay_sealed replay_state_new"
  by (simp_all add: replay_state_new_def ss_ok_def)

interpretation single_window: replay_window r replay_state_new "push_chunk_replay r" ss_window
  "\<lambda>st. ss_ok st \<and> \<not> ss_replay_sealed st"
  for r
  by unfold_locales (auto simp: push_chunk_replay_ok)

text \<open>The single-subscriber backend retains exactly what the documentation of replay retention promises:
  after any chunks, its buffer holds the specified window of all of them (everything, the last
  chunks, or whole chunks covering at least the last bytes and less than one chunk more), its
  counters are exact, and recording never panics or loops forever.\<close>

theorem replay_state_retains:
  assumes "r \<noteq> None"
  shows "\<exists>st. push_all (push_chunk_replay r) replay_state_new cs = Inr st \<and> ss_ok st \<and> snapshot_events st = map Chunk (window_spec r cs) \<and>
     (\<forall>n. r = Some (LastChunks n) \<longrightarrow> window_spec r cs = last_n n cs) \<and>
     (\<forall>b k. r = Some (LastBytes b) \<longrightarrow> 0 < bytes b \<longrightarrow> 0 < k \<longrightarrow> list_all (\<lambda>c. length c \<le> k) cs \<longrightarrow>
        suffix (window_spec r cs) cs \<and> min (bytes b) (total_len cs) \<le> total_len (window_spec r cs) \<and>
        total_len (window_spec r cs) < bytes b + k)"
proof -
  obtain st where st: "push_all (push_chunk_replay r) replay_state_new cs = Inr st" "ss_ok st" "ss_window st = window_spec r cs"
    using single_window.window_of_stream [OF assms, of cs] by blast
  have "snapshot_events st = map Chunk (window_spec r cs)"
    using st(2,3) chunks_payload [of "ss_events st"] by (auto simp: snapshot_events_def ss_ok_def)
  then show ?thesis
    using st(1,2) window_spec_suffix [of r cs] window_spec_bytes [of _ cs]
    by (auto simp: list_all_iff simp del: window_spec.simps(3))
qed

theorem replay_state_retains_witness:
  "\<exists>st. push_all (push_chunk_replay (Some (LastBytes (NumBytes 3)))) replay_state_new [''aa'', ''bb'', ''cc''] = Inr st \<and>
     snapshot_events st = [Chunk ''bb'', Chunk ''cc'']"
  using replay_state_retains [of "Some (LastBytes (NumBytes 3))" "[''aa'', ''bb'', ''cc'']"] by auto

end
