(* ===== verification/Single_Subscriber.thy ===== *)
theory Single_Subscriber
  imports Single_State Reader_Loop
begin

text \<open>
  The single-subscriber backend (\<open>backend/single_subscriber/\<close>): the state shared by the reader task, the
  stream and the subscription (\<open>ConfiguredShared\<close>, \<open>state.rs\<close>), the two reader loops with their delivery
  policies (\<open>reader.rs\<close>), the subscription (\<open>subscription.rs\<close>) and the stream (\<open>mod.rs\<close>).

  Every subscriber has a channel of its own, so a sender is named by the id of its subscriber, and
  \<open>sh_chans\<close> is the store of channels; the active subscriber in the watch channel is therefore its id.
  tokio's bounded channel is the parameter \<open>event_chan_ops\<close>, with \<open>event_chan_ok\<close> as what the code relies
  on.  The watch channels are their last value: the reader always reads the current one.
\<close>

section \<open>Channels\<close>

datatype try_send_result = SendOk | SendFull | SendClosed

record 'ch event_chan_ops =
  ev_channel :: "nat \<Rightarrow> 'ch"
  ev_send :: "'ch \<Rightarrow> stream_event \<Rightarrow> bool poll_result \<times> 'ch"
  ev_try_send :: "'ch \<Rightarrow> stream_event \<Rightarrow> try_send_result \<times> 'ch"
  ev_recv :: "'ch \<Rightarrow> stream_event option poll_result \<times> 'ch"
  ev_drop_rx :: "'ch \<Rightarrow> 'ch"

text \<open>What is relied on, for some reading of a channel's contents and of whether its receiver is gone:
  first in, first out; a send fails only once the receiver is gone, and from then on always; and a
  channel is full only if it holds as many events as it was created for.\<close>

definition event_chan_ok ::
  "'ch event_chan_ops \<Rightarrow> ('ch \<Rightarrow> stream_event list) \<Rightarrow> ('ch \<Rightarrow> bool) \<Rightarrow> ('ch \<Rightarrow> nat) \<Rightarrow> bool" where
  "event_chan_ok ops contents gone capacity \<longleftrightarrow>
     (\<forall>n. contents (ev_channel ops n) = [] \<and> capacity (ev_channel ops n) = n) \<and>
     (\<forall>c e r c'. ev_send ops c e = (r, c') \<longrightarrow> capacity c' = capacity c \<and>
        (case r of
           Ready True \<Rightarrow> \<not> gone c \<and> \<not> gone c' \<and> contents c' = contents c @ [e]
         | Ready False \<Rightarrow> gone c' \<and> contents c' = contents c
         | Pending \<Rightarrow> gone c' = gone c \<and> contents c' = contents c)) \<and>
     (\<forall>c e r c'. ev_try_send ops c e = (r, c') \<longrightarrow> capacity c' = capacity c \<and>
        (case r of
           SendOk \<Rightarrow> \<not> gone c \<and> \<not> gone c' \<and> contents c' = contents c @ [e]
         | SendFull \<Rightarrow> \<not> gone c \<and> \<not> gone c' \<and> contents c' = contents c \<and> capacity c \<le> length (contents c)
         | SendClosed \<Rightarrow> gone c' \<and> contents c' = contents c)) \<and>
     (\<forall>c r c'. ev_recv ops c = (r, c') \<longrightarrow> capacity c' = capacity c \<and> gone c' = gone c \<and>
        (case r of Ready (Some e) \<Rightarrow> contents c = e # contents c' | _ \<Rightarrow> contents c' = contents c)) \<and>
     (\<forall>c. gone (ev_drop_rx ops c) \<and> capacity (ev_drop_rx ops c) = capacity c)"

section \<open>Shared state\<close>

record 'ch configured_shared =
  sh_state :: replay_state
  active_tx :: "u64 option"
  sh_bytes_ingested :: u64
  terminal_tx :: "stream_event option"
  sh_chans :: "u64 \<Rightarrow> 'ch"

definition configured_shared_new :: "'ch event_chan_ops \<Rightarrow> 'ch configured_shared" where
  "configured_shared_new ops =
     \<lparr>sh_state = replay_state_new, active_tx = None, sh_bytes_ingested = 0, terminal_tx = None,
      sh_chans = (\<lambda>_. ev_channel ops 0)\<rparr>"

definition ss_record_bytes_ingested :: "'ch configured_shared \<Rightarrow> usize \<Rightarrow> 'ch configured_shared" where
  "ss_record_bytes_ingested sh n = sh\<lparr>sh_bytes_ingested := record_bytes_ingested (sh_bytes_ingested sh) n\<rparr>"

definition clear_active_if_current :: "'ch configured_shared \<Rightarrow> u64 \<Rightarrow> 'ch configured_shared" where
  "clear_active_if_current sh sid =
     (if active_id (sh_state sh) = Some sid
      then sh\<lparr>sh_state := (sh_state sh)\<lparr>active_id := None\<rparr>, active_tx := None\<rparr>
      else sh)"

definition clear_active :: "'ch configured_shared \<Rightarrow> 'ch configured_shared" where
  "clear_active sh = sh\<lparr>sh_state := (sh_state sh)\<lparr>active_id := None\<rparr>, active_tx := None\<rparr>"

definition put_chan :: "'ch configured_shared \<Rightarrow> u64 \<Rightarrow> 'ch \<Rightarrow> 'ch configured_shared" where
  "put_chan sh sid ch = sh\<lparr>sh_chans := (sh_chans sh)(sid := ch)\<rparr>"

section \<open>Recording and reliable delivery\<close>

definition refresh_cached_active :: "'ch configured_shared \<Rightarrow> u64 option" where
  "refresh_cached_active sh = active_tx sh"

definition record_event ::
  "stream_event \<Rightarrow> replay_retention option \<Rightarrow> 'ch configured_shared \<Rightarrow> (bool \<times> u64 option \<times> 'ch configured_shared) outcome" where
  "record_event event retention sh =
     (case push_replay_event (sh_state sh) event retention of
        Inl e \<Rightarrow> Inl e
      | Inr (recorded, st) \<Rightarrow>
          (let sh1 = sh\<lparr>sh_state := st\<rparr>;
               cached = refresh_cached_active sh1
           in Inr (recorded, cached, if is_terminal event then sh1\<lparr>terminal_tx := Some event\<rparr> else sh1)))"

text \<open>After a failed send: unregister the subscriber, unless another one is active by now, and look
  again.\<close>

definition send_failed :: "u64 \<Rightarrow> 'ch configured_shared \<Rightarrow> u64 option \<times> 'ch configured_shared" where
  "send_failed sid sh = (let sh1 = clear_active_if_current sh sid in (refresh_cached_active sh1, sh1))"

function deliver_reliable_loop ::
  "'ch event_chan_ops \<Rightarrow> stream_event \<Rightarrow> bool \<Rightarrow> bool \<Rightarrow> u64 option \<Rightarrow> 'ch configured_shared
     \<Rightarrow> unit poll_result \<times> u64 option \<times> 'ch configured_shared" where
  "deliver_reliable_loop ops event recorded retried cached sh =
     (case cached of
        None \<Rightarrow> (Ready (), cached, sh)
      | Some sid \<Rightarrow>
          (case ev_send ops (sh_chans sh sid) event of
             (Ready True, ch) \<Rightarrow> (Ready (), cached, put_chan sh sid ch)
           | (Pending, ch) \<Rightarrow> (Pending, cached, put_chan sh sid ch)
           | (Ready False, ch) \<Rightarrow>
               (case send_failed sid (put_chan sh sid ch) of
                  (cached', sh') \<Rightarrow>
                    if recorded \<or> retried then (Ready (), cached', sh')
                    else deliver_reliable_loop ops event recorded True cached' sh')))"
  by pat_completeness auto
termination by (relation "measure (\<lambda>(ops, event, recorded, retried, cached, sh). if retried then 0 else 1)") auto

declare deliver_reliable_loop.simps [simp del]

definition deliver_reliable_event ::
  "'ch event_chan_ops \<Rightarrow> stream_event \<Rightarrow> bool \<Rightarrow> u64 option \<Rightarrow> 'ch configured_shared
     \<Rightarrow> unit poll_result \<times> u64 option \<times> 'ch configured_shared" where
  "deliver_reliable_event ops event recorded cached sh = deliver_reliable_loop ops event recorded False cached sh"

definition send_reliable_event ::
  "'ch event_chan_ops \<Rightarrow> stream_event \<Rightarrow> replay_retention option \<Rightarrow> 'ch configured_shared
     \<Rightarrow> (unit poll_result \<times> u64 option \<times> 'ch configured_shared) outcome" where
  "send_reliable_event ops event retention sh =
     (case record_event event retention sh of
        Inl e \<Rightarrow> Inl e
      | Inr (recorded, cached, sh') \<Rightarrow> Inr (deliver_reliable_event ops event recorded cached sh'))"

section \<open>Best-effort delivery\<close>

datatype best_effort_send = Delivered | ChannelFull | Inactive

function try_send_loop ::
  "'ch event_chan_ops \<Rightarrow> stream_event \<Rightarrow> bool \<Rightarrow> bool \<Rightarrow> bool \<Rightarrow> u64 option \<Rightarrow> 'ch configured_shared
     \<Rightarrow> best_effort_send \<times> u64 option \<times> 'ch configured_shared" where
  "try_send_loop ops event recorded retry_on_closed retried cached sh =
     (case cached of
        None \<Rightarrow> (Inactive, cached, sh)
      | Some sid \<Rightarrow>
          (case ev_try_send ops (sh_chans sh sid) event of
             (SendOk, ch) \<Rightarrow> (Delivered, cached, put_chan sh sid ch)
           | (SendFull, ch) \<Rightarrow> (ChannelFull, cached, put_chan sh sid ch)
           | (SendClosed, ch) \<Rightarrow>
               (case send_failed sid (put_chan sh sid ch) of
                  (cached', sh') \<Rightarrow>
                    if recorded \<or> \<not> retry_on_closed \<or> retried then (Inactive, cached', sh')
                    else try_send_loop ops event recorded retry_on_closed True cached' sh')))"
  by pat_completeness auto
termination
  by (relation "measure (\<lambda>(ops, event, recorded, retry_on_closed, retried, cached, sh). if retried then 0 else 1)") auto

declare try_send_loop.simps [simp del]

definition try_send_best_effort_event ::
  "'ch event_chan_ops \<Rightarrow> stream_event \<Rightarrow> replay_retention option \<Rightarrow> bool \<Rightarrow> u64 option \<Rightarrow> 'ch configured_shared
     \<Rightarrow> (best_effort_send \<times> u64 option \<times> 'ch configured_shared) outcome" where
  "try_send_best_effort_event ops event retention retry_on_closed cached sh =
     (case (case event of
              Chunk _ \<Rightarrow> record_event event retention sh
            | Gap \<Rightarrow> Inr (False, cached, sh)
            | _ \<Rightarrow> Inl (UnreachableCode ''terminal events are sent with `send_terminal_event_best_effort`'')) of
        Inl e \<Rightarrow> Inl e
      | Inr (recorded, cached', sh') \<Rightarrow> Inr (try_send_loop ops event recorded retry_on_closed False cached' sh'))"

record best_effort_lag =
  lag_subscriber_id :: "u64 option"
  lagged :: usize
  gap_pending :: bool

definition best_effort_lag_default :: best_effort_lag where
  "best_effort_lag_default = \<lparr>lag_subscriber_id = None, lagged = 0, gap_pending = False\<rparr>"

definition observe_active :: "best_effort_lag \<Rightarrow> u64 option \<Rightarrow> best_effort_lag" where
  "observe_active lag active =
     (if lag_subscriber_id lag \<noteq> active then \<lparr>lag_subscriber_id = active, lagged = 0, gap_pending = False\<rparr> else lag)"

definition log_if_lagged :: "best_effort_lag \<Rightarrow> best_effort_lag" where
  "log_if_lagged lag = (if 0 < lagged lag then lag\<lparr>lagged := 0\<rparr> else lag)"

definition buffered_chunk_count :: "usize \<Rightarrow> num_bytes \<Rightarrow> usize outcome" where
  "buffered_chunk_count buffer_len csize =
     (if bytes csize = 0 then Inl ArithmeticOverflow else Inr (div_ceil buffer_len (bytes csize)))"

definition send_pending_gap_before_terminal ::
  "'ch event_chan_ops \<Rightarrow> best_effort_lag \<Rightarrow> u64 option \<Rightarrow> 'ch configured_shared
     \<Rightarrow> unit poll_result \<times> best_effort_lag \<times> u64 option \<times> 'ch configured_shared" where
  "send_pending_gap_before_terminal ops lag cached sh =
     (if \<not> gap_pending lag then (Ready (), lag, cached, sh)
      else (case cached of
              None \<Rightarrow> (Ready (), observe_active lag None, cached, sh)
            | Some sid \<Rightarrow>
                (case ev_send ops (sh_chans sh sid) Gap of
                   (Ready True, ch) \<Rightarrow> (Ready (), (log_if_lagged lag)\<lparr>gap_pending := False\<rparr>, cached, put_chan sh sid ch)
                 | (Pending, ch) \<Rightarrow> (Pending, lag, cached, put_chan sh sid ch)
                 | (Ready False, ch) \<Rightarrow>
                     (case send_failed sid (put_chan sh sid ch) of
                        (cached', sh') \<Rightarrow> (Ready (), observe_active lag cached', cached', sh')))))"

definition send_terminal_event_best_effort ::
  "'ch event_chan_ops \<Rightarrow> stream_event \<Rightarrow> replay_retention option \<Rightarrow> best_effort_lag \<Rightarrow> 'ch configured_shared
     \<Rightarrow> (unit poll_result \<times> best_effort_lag \<times> u64 option \<times> 'ch configured_shared) outcome" where
  "send_terminal_event_best_effort ops event retention lag sh =
     (case record_event event retention sh of
        Inl e \<Rightarrow> Inl e
      | Inr (recorded, cached, sh1) \<Rightarrow>
          (case send_pending_gap_before_terminal ops (observe_active lag cached) cached sh1 of
             (Pending, lag', cached', sh2) \<Rightarrow> Inr (Pending, lag', cached', sh2)
           | (Ready _, lag', cached', sh2) \<Rightarrow>
               (case deliver_reliable_event ops event recorded cached' sh2 of
                  (r, cached'', sh3) \<Rightarrow> Inr (r, lag', cached'', sh3))))"

text \<open>One round of the chunk loop: a pending gap goes first; if there is no room even for that, the
  whole buffer is dropped (the first component says whether the round goes on).\<close>

type_synonym 'ch be_reader = "best_effort_lag \<times> u64 option \<times> 'ch configured_shared"

definition send_pending_gap ::
  "'ch event_chan_ops \<Rightarrow> num_bytes \<Rightarrow> replay_retention option \<Rightarrow> usize \<Rightarrow> 'ch be_reader \<Rightarrow> (bool \<times> 'ch be_reader) outcome" where
  "send_pending_gap ops csize retention buffer_len s =
     (case s of (lag, cached, sh) \<Rightarrow>
        if \<not> gap_pending lag then Inr (True, lag, cached, sh)
        else (case try_send_best_effort_event ops Gap retention False cached sh of
                Inl e \<Rightarrow> Inl e
              | Inr (Delivered, cached', sh') \<Rightarrow> Inr (True, (log_if_lagged lag)\<lparr>gap_pending := False\<rparr>, cached', sh')
              | Inr (ChannelFull, cached', sh') \<Rightarrow>
                  (case buffered_chunk_count buffer_len csize of
                     Inl e \<Rightarrow> Inl e
                   | Inr n \<Rightarrow> Inr (False, lag\<lparr>lagged := lagged lag + n\<rparr>, cached', sh'))
              | Inr (Inactive, cached', sh') \<Rightarrow> Inr (True, observe_active lag cached', cached', sh')))"

definition send_chunk ::
  "'ch event_chan_ops \<Rightarrow> replay_retention option \<Rightarrow> bytes \<Rightarrow> 'ch be_reader \<Rightarrow> 'ch be_reader outcome" where
  "send_chunk ops retention chunk s =
     (case s of (lag, cached, sh) \<Rightarrow>
        (case try_send_best_effort_event ops (Chunk chunk) retention True cached sh of
           Inl e \<Rightarrow> Inl e
         | Inr (Delivered, cached', sh') \<Rightarrow> Inr (log_if_lagged lag, cached', sh')
         | Inr (ChannelFull, cached', sh') \<Rightarrow> Inr (lag\<lparr>lagged := lagged lag + 1, gap_pending := True\<rparr>, cached', sh')
         | Inr (Inactive, cached', sh') \<Rightarrow> Inr (observe_active lag cached', cached', sh')))"

function best_effort_chunks ::
  "'ch event_chan_ops \<Rightarrow> num_bytes \<Rightarrow> replay_retention option \<Rightarrow> bytes \<Rightarrow> 'ch be_reader \<Rightarrow> 'ch be_reader outcome" where
  "best_effort_chunks ops csize retention buf s =
     (if buf = [] then Inr s
      else (case s of (lag, cached, sh) \<Rightarrow>
        (case send_pending_gap ops csize retention (length buf) (observe_active lag cached, cached, sh) of
           Inl e \<Rightarrow> Inl e
         | Inr (False, s1) \<Rightarrow> Inr s1
         | Inr (True, s1) \<Rightarrow>
             (let split_to = min (bytes csize) (length buf) in
              if split_to = 0 then Inl Diverges
              else (case send_chunk ops retention (take split_to buf) s1 of
                      Inl e \<Rightarrow> Inl e
                    | Inr s2 \<Rightarrow> best_effort_chunks ops csize retention (drop split_to buf) s2)))))"
  by pat_completeness auto
termination by (relation "measure (\<lambda>(ops, csize, retention, buf, s). length buf)") auto

declare best_effort_chunks.simps [simp del]

section \<open>The reader loops\<close>

text \<open>What the loops wait for: a read, or a change of the active subscriber, which is only awaited
  while there is none.  The watch sender cannot be dropped while the reader holds the shared state, so
  \<open>changed()\<close> never fails.\<close>

datatype reader_input = ReadReturned read_result | ActiveChanged

fun read_chunked_best_effort ::
  "'ch event_chan_ops \<Rightarrow> num_bytes \<Rightarrow> replay_retention option \<Rightarrow> string \<Rightarrow> reader_input list \<Rightarrow> 'ch be_reader
     \<Rightarrow> (unit poll_result \<times> 'ch be_reader) outcome" where
  "read_chunked_best_effort ops csize retention name [] s = Inr (Pending, s)"
| "read_chunked_best_effort ops csize retention name (ActiveChanged # is) (lag, cached, sh) =
     (if cached = None
      then (let cached' = refresh_cached_active sh in
            read_chunked_best_effort ops csize retention name is (observe_active lag cached', cached', sh))
      else read_chunked_best_effort ops csize retention name is (lag, cached, sh))"
| "read_chunked_best_effort ops csize retention name (ReadReturned r # is) (lag, cached, sh) =
     (let cached1 = (if cached = None then refresh_cached_active sh else cached);
          lag1 = (if cached = None then observe_active lag cached1 else lag)
      in case r of
           Inl err \<Rightarrow>
             (case send_terminal_event_best_effort ops (ReadError (StreamReadError name err)) retention lag1 sh of
                Inl e \<Rightarrow> Inl e | Inr (p, s') \<Rightarrow> Inr (p, s'))
         | Inr bs \<Rightarrow>
             (let sh1 = ss_record_bytes_ingested sh (length bs) in
              if bs = []
              then (case send_terminal_event_best_effort ops Eof retention lag1 sh1 of
                      Inl e \<Rightarrow> Inl e | Inr (p, s') \<Rightarrow> Inr (p, s'))
              else (case best_effort_chunks ops csize retention bs (lag1, cached1, sh1) of
                      Inl e \<Rightarrow> Inl e
                    | Inr s' \<Rightarrow> read_chunked_best_effort ops csize retention name is s')))"

fun send_reliable_chunks ::
  "'ch event_chan_ops \<Rightarrow> replay_retention option \<Rightarrow> stream_event list \<Rightarrow> u64 option \<times> 'ch configured_shared
     \<Rightarrow> (unit poll_result \<times> u64 option \<times> 'ch configured_shared) outcome" where
  "send_reliable_chunks ops retention [] (cached, sh) = Inr (Ready (), cached, sh)"
| "send_reliable_chunks ops retention (event # rest) (cached, sh) =
     (case send_reliable_event ops event retention sh of
        Inl e \<Rightarrow> Inl e
      | Inr (Pending, cached', sh') \<Rightarrow> Inr (Pending, cached', sh')
      | Inr (Ready _, cached', sh') \<Rightarrow> send_reliable_chunks ops retention rest (cached', sh'))"

fun read_chunked_reliable ::
  "'ch event_chan_ops \<Rightarrow> num_bytes \<Rightarrow> replay_retention option \<Rightarrow> string \<Rightarrow> reader_input list \<Rightarrow> u64 option \<times> 'ch configured_shared
     \<Rightarrow> (unit poll_result \<times> u64 option \<times> 'ch configured_shared) outcome" where
  "read_chunked_reliable ops csize retention name [] (cached, sh) = Inr (Pending, cached, sh)"
| "read_chunked_reliable ops csize retention name (ActiveChanged # is) (cached, sh) =
     read_chunked_reliable ops csize retention name is (if cached = None then refresh_cached_active sh else cached, sh)"
| "read_chunked_reliable ops csize retention name (ReadReturned r # is) (cached, sh) =
     (let cached1 = (if cached = None then refresh_cached_active sh else cached) in
      case r of
        Inl err \<Rightarrow> send_reliable_event ops (ReadError (StreamReadError name err)) retention sh
      | Inr bs \<Rightarrow>
          (let sh1 = ss_record_bytes_ingested sh (length bs) in
           if bs = [] then send_reliable_event ops Eof retention sh1
           else (case split_chunks (bytes csize) bs of
                   Inl e \<Rightarrow> Inl e
                 | Inr cs \<Rightarrow>
                     (case send_reliable_chunks ops retention (map Chunk cs) (cached1, sh1) of
                        Inl e \<Rightarrow> Inl e
                      | Inr (Pending, s') \<Rightarrow> Inr (Pending, s')
                      | Inr (Ready _, s') \<Rightarrow> read_chunked_reliable ops csize retention name is s'))))"

section \<open>Subscriptions\<close>

datatype stream_consumer_error = ActiveConsumer string

fun consumer_error_stream_name :: "stream_consumer_error \<Rightarrow> string" where
  "consumer_error_stream_name (ActiveConsumer name) = name"

record single_subscription =
  ssub_id :: u64
  ssub_replay :: "stream_event list"
  ssub_terminal_event :: "stream_event option"
  ssub_live_receiver :: bool

definition drop_live_receiver ::
  "'ch event_chan_ops \<Rightarrow> single_subscription \<Rightarrow> 'ch configured_shared \<Rightarrow> single_subscription \<times> 'ch configured_shared" where
  "drop_live_receiver ops sub sh =
     (if ssub_live_receiver sub
      then (sub\<lparr>ssub_live_receiver := False\<rparr>, put_chan sh (ssub_id sub) (ev_drop_rx ops (sh_chans sh (ssub_id sub))))
      else (sub, sh))"

definition single_next_event ::
  "'ch event_chan_ops \<Rightarrow> single_subscription \<Rightarrow> 'ch configured_shared
     \<Rightarrow> stream_event option poll_result \<times> single_subscription \<times> 'ch configured_shared" where
  "single_next_event ops sub sh =
     (case ssub_replay sub of
        event # rest \<Rightarrow> (Ready (Some event), sub\<lparr>ssub_replay := rest\<rparr>, sh)
      | [] \<Rightarrow>
          (case ssub_terminal_event sub of
             Some event \<Rightarrow>
               (case drop_live_receiver ops (sub\<lparr>ssub_terminal_event := None\<rparr>) sh of
                  (sub', sh') \<Rightarrow> (Ready (Some event), sub', sh'))
           | None \<Rightarrow>
               if ssub_live_receiver sub
               then (case ev_recv ops (sh_chans sh (ssub_id sub)) of (r, ch) \<Rightarrow> (r, sub, put_chan sh (ssub_id sub) ch))
               else (Ready None, sub, sh)))"

definition single_subscription_drop ::
  "'ch event_chan_ops \<Rightarrow> single_subscription \<Rightarrow> 'ch configured_shared \<Rightarrow> 'ch configured_shared" where
  "single_subscription_drop ops sub sh =
     (case drop_live_receiver ops sub sh of (sub', sh') \<Rightarrow> clear_active_if_current sh' (ssub_id sub))"

section \<open>The stream\<close>

record 'ch single_stream =
  single_options :: stream_config
  single_shared :: "'ch configured_shared"
  single_name :: string

definition single_from_stream ::
  "'ch event_chan_ops \<Rightarrow> string \<Rightarrow> stream_config \<Rightarrow> 'ch single_stream outcome" where
  "single_from_stream ops name options =
     (case assert_valid options ''options'' of
        Inl e \<Rightarrow> Inl e
      | Inr _ \<Rightarrow> Inr \<lparr>single_options = options, single_shared = configured_shared_new ops, single_name = name\<rparr>)"

text \<open>The reader task the constructor spawns, from what it waits for.\<close>

definition single_reader ::
  "'ch event_chan_ops \<Rightarrow> 'ch single_stream \<Rightarrow> reader_input list \<Rightarrow> (unit poll_result \<times> 'ch configured_shared) outcome" where
  "single_reader ops s is =
     (let sh = single_shared s; options = single_options s; cached = refresh_cached_active sh;
          csize = read_chunk_size options; retention = config_replay_retention options
      in case config_delivery_guarantee options of
           LossyWithoutBackpressure \<Rightarrow>
             (case read_chunked_best_effort ops csize retention (single_name s) is
                     (observe_active best_effort_lag_default cached, cached, sh) of
                Inl e \<Rightarrow> Inl e | Inr (p, lag, cached', sh') \<Rightarrow> Inr (p, sh'))
         | ReliableWithBackpressure \<Rightarrow>
             (case read_chunked_reliable ops csize retention (single_name s) is (cached, sh) of
                Inl e \<Rightarrow> Inl e | Inr (p, cached', sh') \<Rightarrow> Inr (p, sh')))"

definition single_try_subscribe ::
  "'ch event_chan_ops \<Rightarrow> stream_config \<Rightarrow> string \<Rightarrow> 'ch configured_shared
     \<Rightarrow> stream_consumer_error + single_subscription \<times> 'ch configured_shared" where
  "single_try_subscribe ops options name sh =
     (let st = sh_state sh in
      if active_id st \<noteq> None then Inl (ActiveConsumer name)
      else (let snapshot = (if ss_replay_sealed st \<or> config_replay_retention options = None then [] else snapshot_events st);
                (sid, st') = attach_subscriber st;
                sh1 = put_chan (sh\<lparr>sh_state := st'\<rparr>) sid (ev_channel ops (max_buffered_chunks options));
                sh2 = sh1\<lparr>active_tx := Some sid\<rparr>
            in Inr (\<lparr>ssub_id = sid, ssub_replay = snapshot, ssub_terminal_event = ss_terminal_event st',
                     ssub_live_receiver = True\<rparr>, sh2)))"

definition single_seal_replay :: "stream_config \<Rightarrow> 'ch configured_shared \<Rightarrow> 'ch configured_shared outcome" where
  "single_seal_replay options sh =
     (case ss_seal_replay (sh_state sh) (config_replay_retention options) of
        Inl e \<Rightarrow> Inl e
      | Inr st \<Rightarrow> Inr (sh\<lparr>sh_state := st\<rparr>))"

definition single_is_replay_sealed :: "'ch configured_shared \<Rightarrow> bool" where
  "single_is_replay_sealed sh = ss_replay_sealed (sh_state sh)"

text \<open>Dropping the stream aborts the reader and unregisters the active subscriber, which drops its
  sender with the reader's.\<close>

definition single_drop :: "'ch configured_shared \<Rightarrow> 'ch configured_shared" where
  "single_drop sh = clear_active sh"

end
