(* ===== verification/Process_Builder.thy ===== *)
theory Process_Builder
  imports Process_Name Process_Handle Broadcast_Stream Single_Subscriber
begin

text \<open>
  Configuring and spawning a process: \<open>process/stream_config.rs\<close>, \<open>process/builder.rs\<close>,
  \<open>process_handle/spawn.rs\<close> and \<open>process_handle/replay.rs\<close>.

  The trait \<open>ProcessStreamConfig\<close> is the record \<open>process_stream_config\<close> of its two methods, with one value
  for each of its three implementations.  \<open>Command::spawn\<close> is a parameter that is given the prepared
  command and answers with the child and its pipes.
\<close>

section \<open>Stream configuration\<close>

datatype stdio = StdioPiped | StdioNull

datatype process_stream_builder = ProcessStreamBuilder

datatype broadcast_backend_tag = BroadcastBackend
datatype single_subscriber_backend_tag = SingleSubscriberBackend
datatype stream_config_builder = StreamConfigBuilder

text \<open>\<open>'backend\<close> is a phantom type, \<open>'stage\<close> the stage of the stream configuration's builder.\<close>

datatype ('backend, 'stage) piped_stream_config = PipedStreamConfig (config_stage: 'stage)
datatype discarded_stream_config = DiscardedStreamConfig

definition psb_broadcast :: "process_stream_builder \<Rightarrow> (broadcast_backend_tag, stream_config_builder) piped_stream_config" where
  "psb_broadcast b = PipedStreamConfig StreamConfigBuilder"

definition psb_single_subscriber ::
  "process_stream_builder \<Rightarrow> (single_subscriber_backend_tag, stream_config_builder) piped_stream_config" where
  "psb_single_subscriber b = PipedStreamConfig StreamConfigBuilder"

definition psb_discard :: "process_stream_builder \<Rightarrow> discarded_stream_config" where
  "psb_discard b = DiscardedStreamConfig"

definition piped_lossy_without_backpressure ::
  "('b, stream_config_builder) piped_stream_config \<Rightarrow> ('b, stream_config_replay_builder) piped_stream_config" where
  "piped_lossy_without_backpressure c = PipedStreamConfig lossy_without_backpressure"

definition piped_reliable_with_backpressure ::
  "('b, stream_config_builder) piped_stream_config \<Rightarrow> ('b, stream_config_replay_builder) piped_stream_config" where
  "piped_reliable_with_backpressure c = PipedStreamConfig reliable_with_backpressure"

definition piped_no_replay ::
  "('b, stream_config_replay_builder) piped_stream_config \<Rightarrow> ('b, stream_config_read_chunk_size_builder) piped_stream_config" where
  "piped_no_replay c = PipedStreamConfig (no_replay (config_stage c))"

text \<open>The stages that may panic pass the panic on.\<close>

definition restage :: "'s outcome \<Rightarrow> ('b, 's) piped_stream_config outcome" where
  "restage r = (case r of Inl p \<Rightarrow> Inl p | Inr s \<Rightarrow> Inr (PipedStreamConfig s))"

definition piped_replay_last_chunks ::
  "('b, stream_config_replay_builder) piped_stream_config \<Rightarrow> usize
   \<Rightarrow> ('b, stream_config_read_chunk_size_builder) piped_stream_config outcome" where
  "piped_replay_last_chunks c chunks = restage (replay_last_chunks (config_stage c) chunks)"

definition piped_replay_last_bytes ::
  "('b, stream_config_replay_builder) piped_stream_config \<Rightarrow> num_bytes
   \<Rightarrow> ('b, stream_config_read_chunk_size_builder) piped_stream_config outcome" where
  "piped_replay_last_bytes c b = restage (replay_last_bytes (config_stage c) b)"

definition piped_replay_all ::
  "('b, stream_config_replay_builder) piped_stream_config
   \<Rightarrow> ('b, stream_config_read_chunk_size_builder) piped_stream_config outcome" where
  "piped_replay_all c = restage (replay_all (config_stage c))"

definition piped_read_chunk_size ::
  "('b, stream_config_read_chunk_size_builder) piped_stream_config \<Rightarrow> num_bytes
   \<Rightarrow> ('b, stream_config_max_buffered_chunks_builder) piped_stream_config outcome" where
  "piped_read_chunk_size c sz = restage (builder_read_chunk_size (config_stage c) sz)"

definition piped_max_buffered_chunks ::
  "('b, stream_config_max_buffered_chunks_builder) piped_stream_config \<Rightarrow> usize
   \<Rightarrow> ('b, stream_config_ready_builder) piped_stream_config outcome" where
  "piped_max_buffered_chunks c chunks = restage (builder_max_buffered_chunks (config_stage c) chunks)"

section \<open>From configuration to stream\<close>

record 'stream process_stream_config =
  child_stdio :: stdio
  into_stream :: "child_pipe option \<Rightarrow> string \<Rightarrow> 'stream outcome"

text \<open>The discarded stream is its name.\<close>

datatype discarded_stream = DiscardedStream string

definition broadcast_stream_config ::
  "('b, 'rx) broadcast_ops \<Rightarrow> 'ch mpsc_ops \<Rightarrow> (broadcast_backend_tag, stream_config_ready_builder) piped_stream_config
   \<Rightarrow> ('b fast_backend, 'ch fan_world \<times> stream_config \<times> string) broadcast_backend process_stream_config" where
  "broadcast_stream_config bops ops c =
     \<lparr>child_stdio = StdioPiped,
      into_stream = (\<lambda>captured stream_name.
        case captured of
          None \<Rightarrow> Inl (ExpectFailed ''broadcast backend requires a captured pipe; child_stdio() promised Stdio::piped()'')
        | Some _ \<Rightarrow> broadcast_from_stream bops ops stream_name (config_build (config_stage c)))\<rparr>"

definition single_subscriber_stream_config ::
  "'ch event_chan_ops \<Rightarrow> (single_subscriber_backend_tag, stream_config_ready_builder) piped_stream_config
   \<Rightarrow> 'ch single_stream process_stream_config" where
  "single_subscriber_stream_config ops c =
     \<lparr>child_stdio = StdioPiped,
      into_stream = (\<lambda>captured stream_name.
        case captured of
          None \<Rightarrow> Inl (ExpectFailed ''single-subscriber backend requires a captured pipe; child_stdio() promised Stdio::piped()'')
        | Some _ \<Rightarrow> single_from_stream ops stream_name (config_build (config_stage c)))\<rparr>"

definition discarded_process_stream_config :: "discarded_stream_config \<Rightarrow> discarded_stream process_stream_config" where
  "discarded_process_stream_config c =
     \<lparr>child_stdio = StdioNull, into_stream = (\<lambda>captured stream_name. Inr (DiscardedStream stream_name))\<rparr>"

section \<open>Spawning\<close>

text \<open>What \<open>prepare_command\<close> sets: the child leads a new process group (Unix), or the creation flag for one
  (Windows).\<close>

datatype group_setup = ProcessGroupZero | CreateNewProcessGroup | NoGroupSetup

definition prepare_command :: "platform \<Rightarrow> group_setup" where
  "prepare_command P = (case P of Unix \<Rightarrow> ProcessGroupZero | Windows \<Rightarrow> CreateNewProcessGroup | OtherPlatform \<Rightarrow> NoGroupSetup)"

record prepared_command =
  pc_command :: os_command
  pc_group :: group_setup
  pc_stdin :: stdio
  pc_stdout :: stdio
  pc_stderr :: stdio
  pc_kill_on_drop :: bool

record 'c spawned_child =
  sp_child :: "'c leader"
  sp_stdin :: "child_stdin option"
  sp_stdout :: "child_pipe option"
  sp_stderr :: "child_pipe option"

type_synonym 'c spawner = "prepared_command \<Rightarrow> io_error + 'c spawned_child"

definition STDOUT_STREAM_NAME :: string where
  "STDOUT_STREAM_NAME = ''stdout''"

definition STDERR_STREAM_NAME :: string where
  "STDERR_STREAM_NAME = ''stderr''"

text \<open>The second component is the child of a spawn that failed after the child had started.\<close>

definition spawn_with_stream_configs ::
  "'c child_ops \<Rightarrow> platform \<Rightarrow> 'c spawner \<Rightarrow> string \<Rightarrow> os_command
   \<Rightarrow> 'o process_stream_config \<Rightarrow> 'e process_stream_config
   \<Rightarrow> ((spawn_error + ('c, 'o, 'e) process_handle) \<times> 'c leader option) outcome" where
  "spawn_with_stream_configs E P command_spawn process_name cmd stdout_config stderr_config =
     (case command_spawn \<lparr>pc_command = cmd, pc_group = prepare_command P, pc_stdin = StdioPiped,
             pc_stdout = child_stdio stdout_config, pc_stderr = child_stdio stderr_config, pc_kill_on_drop = False\<rparr> of
        Inl source \<Rightarrow> Inr (Inl (SpawnFailed process_name source), None)
      | Inr child \<Rightarrow>
          (case from_spawned_child E P (sp_child child) of
             (Inl source, l) \<Rightarrow>
               if P = Windows then Inr (Inl (JobAttachmentFailed process_name source), Some l)
               else Inl (ExpectFailed ''ProcessGroup::from_spawned_child is infallible on non-Windows targets.'')
           | (Inr pg, _) \<Rightarrow>
               (let stdin = (case sp_stdin child of None \<Rightarrow> StdinClosed | Some i \<Rightarrow> StdinOpen i)
                in (case into_stream stdout_config (sp_stdout child) STDOUT_STREAM_NAME of
                      Inl p \<Rightarrow> Inl p
                    | Inr so \<Rightarrow>
                        (case into_stream stderr_config (sp_stderr child) STDERR_STREAM_NAME of
                           Inl p \<Rightarrow> Inl p
                         | Inr se \<Rightarrow>
                             Inr (Inr \<lparr>ph_name = process_name, ph_group = pg, std_in = stdin,
                                       std_out_stream = so, std_err_stream = se,
                                       drop_mode = new_armed_drop_mode\<rparr>, None))))))"

section \<open>The process builder\<close>

datatype unnamed = Unnamed
datatype named = Named (named_name: process_name)
datatype unset = Unset

record ('name, 'oc, 'ec) process_builder =
  pb_cmd :: os_command
  pb_name :: 'name
  pb_stdout :: 'oc
  pb_stderr :: 'ec

definition process_new :: "os_command \<Rightarrow> (unnamed, unset, unset) process_builder" where
  "process_new cmd = \<lparr>pb_cmd = cmd, pb_name = Unnamed, pb_stdout = Unset, pb_stderr = Unset\<rparr>"

definition process_set_name :: "(unnamed, unset, unset) process_builder \<Rightarrow> process_name \<Rightarrow> (named, unset, unset) process_builder" where
  "process_set_name b name = \<lparr>pb_cmd = pb_cmd b, pb_name = Named name, pb_stdout = Unset, pb_stderr = Unset\<rparr>"

text \<open>The configuring closure may panic (in a builder stage).\<close>

definition stdout_and_stderr ::
  "(named, unset, unset) process_builder \<Rightarrow> (process_stream_builder \<Rightarrow> 'c outcome) \<Rightarrow> (named, 'c, 'c) process_builder outcome" where
  "stdout_and_stderr b configure =
     (case configure ProcessStreamBuilder of
        Inl p \<Rightarrow> Inl p
      | Inr config \<Rightarrow> Inr \<lparr>pb_cmd = pb_cmd b, pb_name = pb_name b, pb_stdout = config, pb_stderr = config\<rparr>)"

definition builder_stdout ::
  "(named, unset, 'e) process_builder \<Rightarrow> (process_stream_builder \<Rightarrow> 'o outcome) \<Rightarrow> (named, 'o, 'e) process_builder outcome" where
  "builder_stdout b configure =
     (case configure ProcessStreamBuilder of
        Inl p \<Rightarrow> Inl p
      | Inr config \<Rightarrow> Inr \<lparr>pb_cmd = pb_cmd b, pb_name = pb_name b, pb_stdout = config, pb_stderr = pb_stderr b\<rparr>)"

definition builder_stderr ::
  "(named, 'o, unset) process_builder \<Rightarrow> (process_stream_builder \<Rightarrow> 'e outcome) \<Rightarrow> (named, 'o, 'e) process_builder outcome" where
  "builder_stderr b configure =
     (case configure ProcessStreamBuilder of
        Inl p \<Rightarrow> Inl p
      | Inr config \<Rightarrow> Inr \<lparr>pb_cmd = pb_cmd b, pb_name = pb_name b, pb_stdout = pb_stdout b, pb_stderr = config\<rparr>)"

definition process_spawn ::
  "'c child_ops \<Rightarrow> platform \<Rightarrow> 'c spawner \<Rightarrow> (os_command \<Rightarrow> string)
   \<Rightarrow> (named, 'o process_stream_config, 'e process_stream_config) process_builder
   \<Rightarrow> ((spawn_error + ('c, 'o, 'e) process_handle) \<times> 'c leader option) outcome" where
  "process_spawn E P command_spawn debug_command b =
     (let name = generate_name debug_command (named_name (pb_name b)) (pb_cmd b)
      in spawn_with_stream_configs E P command_spawn name (pb_cmd b) (pb_stdout b) (pb_stderr b))"

section \<open>Sealing replay\<close>

text \<open>For a replay-enabled backend with the sealing operation \<open>seal_out\<close> (\<open>seal_err\<close>).\<close>

definition seal_stdout_replay :: "('o \<Rightarrow> 'o) \<Rightarrow> ('c, 'o, 'e) process_handle \<Rightarrow> ('c, 'o, 'e) process_handle" where
  "seal_stdout_replay seal_out h = h\<lparr>std_out_stream := seal_out (std_out_stream h)\<rparr>"

definition seal_stderr_replay :: "('e \<Rightarrow> 'e) \<Rightarrow> ('c, 'o, 'e) process_handle \<Rightarrow> ('c, 'o, 'e) process_handle" where
  "seal_stderr_replay seal_err h = h\<lparr>std_err_stream := seal_err (std_err_stream h)\<rparr>"

definition seal_output_replay ::
  "('o \<Rightarrow> 'o) \<Rightarrow> ('e \<Rightarrow> 'e) \<Rightarrow> ('c, 'o, 'e) process_handle \<Rightarrow> ('c, 'o, 'e) process_handle" where
  "seal_output_replay seal_out seal_err h = seal_stderr_replay seal_err (seal_stdout_replay seal_out h)"

section \<open>The contract of spawning\<close>

text \<open>A configuration builds its stream when it is given the pipe it asked for.\<close>

definition config_builds :: "'s process_stream_config \<Rightarrow> bool" where
  "config_builds c \<longleftrightarrow>
     (\<forall>pipe name. (child_stdio c = StdioPiped \<longrightarrow> pipe \<noteq> None) \<longrightarrow> (\<exists>s. into_stream c pipe name = Inr s))"

text \<open>Every backend's configuration does, whatever valid options it was built with.\<close>

lemma backend_configs_build:
  "config_ok (config_build stage) \<Longrightarrow> config_builds (broadcast_stream_config bops ops (PipedStreamConfig stage))"
  "config_ok (config_build stage) \<Longrightarrow> config_builds (single_subscriber_stream_config cops (PipedStreamConfig stage))"
  "config_builds (discarded_process_stream_config c)"
  using assert_valid_iff [of "config_build stage" "''options''"]
  by (auto simp: config_builds_def broadcast_stream_config_def single_subscriber_stream_config_def
      discarded_process_stream_config_def broadcast_from_stream_def single_from_stream_def)

text \<open>Documented behaviour of \<open>Command::spawn\<close>: the child has a pipe wherever one was requested.\<close>

definition spawner_ok :: "'c spawner \<Rightarrow> bool" where
  "spawner_ok f \<longleftrightarrow>
     (\<forall>pc child. f pc = Inr child \<longrightarrow>
        (pc_stdin pc = StdioPiped \<longrightarrow> sp_stdin child \<noteq> None) \<and>
        (pc_stdout pc = StdioPiped \<longrightarrow> sp_stdout child \<noteq> None) \<and>
        (pc_stderr pc = StdioPiped \<longrightarrow> sp_stderr child \<noteq> None))"

lemma from_spawned_child_result:
  assumes "from_spawned_child E P l = (r, l')"
  shows "case r of
     Inr g \<Rightarrow> target g = P \<and> leader g = l' \<and> sent l' = sent l \<and>
       (P = Windows \<longrightarrow> (job g = None \<longleftrightarrow> child_id E (os_state l) = None))
   | Inl _ \<Rightarrow> P = Windows \<and> last (calls l') = CallStartKill"
  using assms
  by (auto simp: from_spawned_child_def job_new_with_child_def child_start_kill_call_def Let_def
      split: if_splits option.splits prod.splits sum.splits)

text \<open>C21: Spawning.  With a spawner that delivers the requested pipes, spawning never panics.  A handle that is
  returned is armed (so dropping it kills the child), has the generated name, an open stdin, the group of
  the target (with a job for every running child on Windows) and streams built by the configurations over
  the pipes of the child that was spawned from the prepared command (own process group, piped stdin, the
  configured stdout and stderr, no kill on drop), and no signal has been sent.  Otherwise the command could not be
  spawned, or on Windows the child could not be attached to a job and has been killed.\<close>

theorem spawn_contract:
  assumes "spawner_ok spawn" "config_builds oc" "config_builds ec"
    and pc_def: "pc = \<lparr>pc_command = cmd, pc_group = prepare_command P, pc_stdin = StdioPiped,
      pc_stdout = child_stdio oc, pc_stderr = child_stdio ec, pc_kill_on_drop = False\<rparr>"
  shows "\<exists>r l. process_spawn E P spawn dbg \<lparr>pb_cmd = cmd, pb_name = Named n, pb_stdout = oc, pb_stderr = ec\<rparr> = Inr (r, l) \<and>
    (case r of
       Inr h \<Rightarrow> is_drop_armed h \<and> ph_name h = generate_name dbg n cmd \<and> stdin_is_open (std_in h) \<and> target (ph_group h) = P \<and>
         (\<exists>child. spawn pc = Inr child \<and>
            into_stream oc (sp_stdout child) ''stdout'' = Inr (std_out_stream h) \<and>
            into_stream ec (sp_stderr child) ''stderr'' = Inr (std_err_stream h) \<and> handle_sent h = sent (sp_child child) \<and>
            (P = Windows \<longrightarrow> (job (ph_group h) = None \<longleftrightarrow> child_id E (os_state (sp_child child)) = None)))
     | Inl e \<Rightarrow>
         (\<exists>source. e = SpawnFailed (generate_name dbg n cmd) source \<and> l = None \<and> spawn pc = Inl source) \<or>
         (\<exists>source l'. P = Windows \<and> e = JobAttachmentFailed (generate_name dbg n cmd) source \<and> l = Some l' \<and> last (calls l') = CallStartKill))"
proof -
  let ?spawn = "process_spawn E P spawn dbg \<lparr>pb_cmd = cmd, pb_name = Named n, pb_stdout = oc, pb_stderr = ec\<rparr>"
  note defs = process_spawn_def spawn_with_stream_configs_def Let_def
  show ?thesis
  proof (cases "spawn pc")
    case (Inl source)
    then have "?spawn = Inr (Inl (SpawnFailed (generate_name dbg n cmd) source), None)"
      by (simp add: defs pc_def)
    then show ?thesis using Inl by auto
  next
    case child: (Inr child)
    have pc: "pc_stdin pc = StdioPiped" "pc_stdout pc = child_stdio oc" "pc_stderr pc = child_stdio ec"
      by (simp_all add: pc_def)
    note ok = assms(1) [unfolded spawner_ok_def, rule_format, OF child, unfolded pc]
    from ok obtain i where i: "sp_stdin child = Some i" by auto
    from ok have pipes: "child_stdio oc = StdioPiped \<longrightarrow> sp_stdout child \<noteq> None"
      "child_stdio ec = StdioPiped \<longrightarrow> sp_stderr child \<noteq> None" by simp_all
    obtain so where so: "into_stream oc (sp_stdout child) STDOUT_STREAM_NAME = Inr so"
      using assms(2) pipes(1) unfolding config_builds_def by blast
    obtain se where se: "into_stream ec (sp_stderr child) STDERR_STREAM_NAME = Inr se"
      using assms(3) pipes(2) unfolding config_builds_def by blast
    obtain r l' where g: "from_spawned_child E P (sp_child child) = (r, l')" by fastforce
    note gf = from_spawned_child_result [OF g]
    show ?thesis
    proof (cases r)
      case (Inl source)
      then have "?spawn = Inr (Inl (JobAttachmentFailed (generate_name dbg n cmd) source), Some l')"
        using child g gf by (simp add: defs pc_def)
      then show ?thesis using Inl gf by auto
    next
      case (Inr pg)
      let ?h = "\<lparr>ph_name = generate_name dbg n cmd, ph_group = pg, std_in = StdinOpen i,
        std_out_stream = so, std_err_stream = se, drop_mode = new_armed_drop_mode\<rparr>"
      have "?spawn = Inr (Inr ?h, None)"
        using child g Inr so se i by (simp add: defs pc_def)
      moreover have "is_drop_armed ?h" "stdin_is_open (std_in ?h)"
        by (simp_all add: is_drop_armed_def new_armed_drop_mode_def armed_panic_guard_def stdin_is_open_def)
      ultimately show ?thesis
        using child Inr gf so se unfolding STDOUT_STREAM_NAME_def STDERR_STREAM_NAME_def
        by (intro exI [of _ "Inr ?h"] exI [of _ None]) auto
    qed
  qed
qed

text \<open>A spawner for the simulated child.\<close>

definition sim_spawner :: "sim_child spawner" where
  "sim_spawner pc = Inr \<lparr>sp_child = \<lparr>os_state = sim_stubborn, clock = 0, calls = []\<rparr>,
     sp_stdin = Some 0, sp_stdout = Some 1, sp_stderr = Some 2\<rparr>"

theorem spawn_contract_witness:
  "spawner_ok sim_spawner \<and>
   (\<exists>r l. process_spawn sim_ops Unix sim_spawner (\<lambda>_. []) \<lparr>pb_cmd = example_command, pb_name = Named process_name_default,
        pb_stdout = discarded_process_stream_config DiscardedStreamConfig,
        pb_stderr = discarded_process_stream_config DiscardedStreamConfig\<rparr> = Inr (r, l) \<and>
      (\<exists>h. r = Inr h \<and> is_drop_armed h))"
proof -
  have ok: "spawner_ok sim_spawner" by (simp add: spawner_ok_def sim_spawner_def)
  note builds = backend_configs_build(3) [of DiscardedStreamConfig]
  show ?thesis
    using spawn_contract [OF ok builds builds, where E = sim_ops and P = Unix
        and dbg = "\<lambda>_. []" and n = process_name_default and cmd = example_command] ok
    by (auto simp: sim_spawner_def split: sum.splits) (metis sum.exhaust)
qed

end
