(* ===== verification/Single_Reliable.thy ===== *)
theory Single_Reliable
  imports Single_Subscriber
begin

text \<open>
  Reliable delivery of the single-subscriber backend under concurrency.  The reader task is taken
  apart where another task can run: recording an event under the state lock, each attempt to send it,
  unregistering a subscriber whose receiver is gone, and looking up the active subscriber again.
  \<open>single_step\<close> interleaves these with subscribing, receiving, dropping a subscription, sealing and
  dropping the stream.  The ghost fields of \<open>single_sys\<close> record the events in the order in which they
  were recorded and, per subscriber, where it attached, what it was given to replay, what was sent to
  it and what it received.

  The invariant says where every subscriber stands; the properties are that hand-over loses and
  duplicates nothing, and that the replayed events are the specified window of what came before.
\<close>

section \<open>Interleavings\<close>

datatype reader_phase =
    Idle
  | Sending stream_event bool bool
  | SendRefused stream_event bool bool u64
  | Unregistered stream_event bool bool

record 'ch single_sys =
  sy_shared :: "'ch configured_shared"
  sy_cached :: "u64 option"
  sy_phase :: reader_phase
  sy_log :: "stream_event list"
  sy_start :: "u64 \<Rightarrow> nat"
  sy_snap :: "u64 \<Rightarrow> stream_event list"
  sy_sent :: "u64 \<Rightarrow> stream_event list"
  sy_recd :: "u64 \<Rightarrow> stream_event list"

abbreviation sy_chan :: "'ch single_sys \<Rightarrow> u64 \<Rightarrow> 'ch" where
  "sy_chan s a \<equiv> sh_chans (sy_shared s) a"

abbreviation sy_next :: "'ch single_sys \<Rightarrow> u64" where
  "sy_next s \<equiv> ss_next_subscriber_id (sh_state (sy_shared s))"

inductive single_step :: "'ch event_chan_ops \<Rightarrow> stream_config \<Rightarrow> string \<Rightarrow> 'ch single_sys \<Rightarrow> 'ch single_sys \<Rightarrow> bool"
  for ops options name where
  s_record: "sy_phase s = Idle \<Longrightarrow> ss_terminal_event (sh_state (sy_shared s)) = None \<Longrightarrow> ev \<noteq> Gap \<Longrightarrow>
     record_event ev (config_replay_retention options) (sy_shared s) = Inr (recorded, cached, sh) \<Longrightarrow>
     single_step ops options name s
       (s\<lparr>sy_shared := sh, sy_cached := cached, sy_phase := Sending ev recorded False, sy_log := sy_log s @ [ev]\<rparr>)"
| s_no_active: "sy_phase s = Sending ev recorded retried \<Longrightarrow> sy_cached s = None \<Longrightarrow>
     single_step ops options name s (s\<lparr>sy_phase := Idle\<rparr>)"
| s_sent: "sy_phase s = Sending ev recorded retried \<Longrightarrow> sy_cached s = Some sid \<Longrightarrow>
     ev_send ops (sy_chan s sid) ev = (Ready True, ch) \<Longrightarrow>
     single_step ops options name s
       (s\<lparr>sy_shared := put_chan (sy_shared s) sid ch, sy_phase := Idle, sy_sent := (sy_sent s)(sid := sy_sent s sid @ [ev])\<rparr>)"
| s_blocked: "sy_phase s = Sending ev recorded retried \<Longrightarrow> sy_cached s = Some sid \<Longrightarrow>
     ev_send ops (sy_chan s sid) ev = (Pending, ch) \<Longrightarrow>
     single_step ops options name s (s\<lparr>sy_shared := put_chan (sy_shared s) sid ch\<rparr>)"
| s_refused: "sy_phase s = Sending ev recorded retried \<Longrightarrow> sy_cached s = Some sid \<Longrightarrow>
     ev_send ops (sy_chan s sid) ev = (Ready False, ch) \<Longrightarrow>
     single_step ops options name s
       (s\<lparr>sy_shared := put_chan (sy_shared s) sid ch, sy_phase := SendRefused ev recorded retried sid\<rparr>)"
| s_unregister: "sy_phase s = SendRefused ev recorded retried sid \<Longrightarrow>
     single_step ops options name s
       (s\<lparr>sy_shared := clear_active_if_current (sy_shared s) sid, sy_phase := Unregistered ev recorded retried\<rparr>)"
| s_refresh: "sy_phase s = Unregistered ev recorded retried \<Longrightarrow>
     single_step ops options name s
       (s\<lparr>sy_cached := refresh_cached_active (sy_shared s),
          sy_phase := (if recorded \<or> retried then Idle else Sending ev recorded True)\<rparr>)"
| s_look: "sy_phase s = Idle \<Longrightarrow> single_step ops options name s (s\<lparr>sy_cached := refresh_cached_active (sy_shared s)\<rparr>)"
| s_ingest: "single_step ops options name s (s\<lparr>sy_shared := ss_record_bytes_ingested (sy_shared s) n\<rparr>)"
| s_subscribe: "single_try_subscribe ops options name (sy_shared s) = Inr (sub, sh) \<Longrightarrow>
     single_step ops options name s
       (s\<lparr>sy_shared := sh, sy_start := (sy_start s)(ssub_id sub := length (sy_log s)),
          sy_snap := (sy_snap s)(ssub_id sub := ssub_replay sub @ (case ssub_terminal_event sub of None \<Rightarrow> [] | Some t \<Rightarrow> [t])),
          sy_sent := (sy_sent s)(ssub_id sub := []), sy_recd := (sy_recd s)(ssub_id sub := [])\<rparr>)"
| s_receive: "ev_recv ops (sy_chan s sid) = (Ready (Some ev), ch) \<Longrightarrow>
     single_step ops options name s
       (s\<lparr>sy_shared := put_chan (sy_shared s) sid ch, sy_recd := (sy_recd s)(sid := sy_recd s sid @ [ev])\<rparr>)"
| s_drop_receiver: "single_step ops options name s
       (s\<lparr>sy_shared := put_chan (sy_shared s) sid (ev_drop_rx ops (sy_chan s sid))\<rparr>)"
| s_unsubscribe: "single_step ops options name s (s\<lparr>sy_shared := clear_active_if_current (sy_shared s) sid\<rparr>)"
| s_seal: "single_seal_replay options (sy_shared s) = Inr sh \<Longrightarrow> single_step ops options name s (s\<lparr>sy_shared := sh\<rparr>)"
| s_drop: "single_step ops options name s (s\<lparr>sy_shared := single_drop (sy_shared s), sy_phase := Idle\<rparr>)"

definition single_initial :: "'ch event_chan_ops \<Rightarrow> 'ch single_sys \<Rightarrow> bool" where
  "single_initial ops s \<longleftrightarrow>
     sy_shared s = configured_shared_new ops \<and> sy_cached s = None \<and> sy_phase s = Idle \<and> sy_log s = []"

inductive single_reachable :: "'ch event_chan_ops \<Rightarrow> stream_config \<Rightarrow> string \<Rightarrow> 'ch single_sys \<Rightarrow> bool"
  for ops options name where
  single_init: "single_initial ops s \<Longrightarrow> single_reachable ops options name s"
| single_next: "single_reachable ops options name s \<Longrightarrow> single_step ops options name s s' \<Longrightarrow> single_reachable ops options name s'"

section \<open>Consequences of the channel's contract\<close>

lemma chan_send:
  assumes "event_chan_ok ops contents gone capacity" and "ev_send ops c e = (r, c')"
  shows "capacity c' = capacity c \<and>
        (case r of
           Ready True \<Rightarrow> \<not> gone c \<and> \<not> gone c' \<and> contents c' = contents c @ [e]
         | Ready False \<Rightarrow> gone c' \<and> contents c' = contents c
         | Pending \<Rightarrow> gone c' = gone c \<and> contents c' = contents c)"
  using assms unfolding event_chan_ok_def by blast

lemma chan_try_send:
  assumes "event_chan_ok ops contents gone capacity" and "ev_try_send ops c e = (r, c')"
  shows "capacity c' = capacity c \<and>
        (case r of
           SendOk \<Rightarrow> \<not> gone c \<and> \<not> gone c' \<and> contents c' = contents c @ [e]
         | SendFull \<Rightarrow> \<not> gone c \<and> \<not> gone c' \<and> contents c' = contents c \<and> capacity c \<le> length (contents c)
         | SendClosed \<Rightarrow> gone c' \<and> contents c' = contents c)"
  using assms unfolding event_chan_ok_def by blast

lemma chan_recv:
  assumes "event_chan_ok ops contents gone capacity" and "ev_recv ops c = (r, c')"
  shows "capacity c' = capacity c \<and> gone c' = gone c \<and>
        (case r of Ready (Some e) \<Rightarrow> contents c = e # contents c' | _ \<Rightarrow> contents c' = contents c)"
  using assms unfolding event_chan_ok_def by blast

lemma chan_new:
  assumes "event_chan_ok ops contents gone capacity"
  shows "contents (ev_channel ops n) = []" "capacity (ev_channel ops n) = n"
    "gone (ev_drop_rx ops c)" "capacity (ev_drop_rx ops c) = capacity c"
  using assms unfolding event_chan_ok_def by blast+

text \<open>Channel operations never bring a receiver back.\<close>

lemma chan_gone:
  assumes "event_chan_ok ops contents gone capacity"
  shows "ev_send ops c e = (r, c') \<Longrightarrow> gone c \<Longrightarrow> gone c'" and "ev_recv ops c = (r2, c') \<Longrightarrow> gone c' = gone c"
    and "ev_send ops c e = (Ready True, c') \<Longrightarrow> \<not> gone c \<and> \<not> gone c' \<and> contents c' = contents c @ [e]"
    and "ev_send ops c e = (Ready False, c') \<Longrightarrow> gone c'"
    and "ev_send ops c e = (Pending, c') \<Longrightarrow> contents c' = contents c \<and> gone c' = gone c"
    and "ev_recv ops c = (Ready (Some e), c') \<Longrightarrow> contents c = e # contents c'"
  subgoal using chan_send [OF assms, of c e r c'] by (cases r) (auto split: bool.splits)
  subgoal using chan_recv [OF assms] by blast
  subgoal using chan_send [OF assms, of c e "Ready True" c'] by simp
  subgoal using chan_send [OF assms, of c e "Ready False" c'] by simp
  subgoal using chan_send [OF assms, of c e Pending c'] by simp
  subgoal using chan_recv [OF assms, of c "Ready (Some e)" c'] by simp
  done

section \<open>Invariant of the shared state\<close>

definition event_chunks :: "stream_event list \<Rightarrow> bytes list" where
  "event_chunks es = map chunk_payload (filter is_chunk es)"

lemma event_chunks_simps [simp]:
  "event_chunks [] = []" "event_chunks (es @ fs) = event_chunks es @ event_chunks fs"
  by (simp_all add: event_chunks_def)

definition log_terminal :: "stream_event list \<Rightarrow> stream_event option" where
  "log_terminal es = (if es \<noteq> [] \<and> is_terminal (last es) then Some (last es) else None)"

text \<open>The registration agrees with the watch channel, the buffer is the specified window, and a terminal
  event is the last one.\<close>

definition shared_ok :: "stream_config \<Rightarrow> 'ch single_sys \<Rightarrow> bool" where
  "shared_ok options s \<longleftrightarrow>
     (let st = sh_state (sy_shared s); r = config_replay_retention options in
      ss_ok st \<and> active_id st = active_tx (sy_shared s) \<and>
      (\<forall>a. active_tx (sy_shared s) = Some a \<longrightarrow> a < sy_next s) \<and> (\<forall>a. sy_cached s = Some a \<longrightarrow> a < sy_next s) \<and>
      ss_window st = (if ss_replay_sealed st then [] else window_spec r (event_chunks (sy_log s))) \<and>
      ss_terminal_event st = log_terminal (sy_log s))"

lemma put_chan_simps [simp]:
  "sh_state (put_chan sh a ch) = sh_state sh" "active_tx (put_chan sh a ch) = active_tx sh"
  "sh_chans (put_chan sh a ch) = (sh_chans sh)(a := ch)"
  by (simp_all add: put_chan_def)

lemma ss_record_bytes_ingested_simps [simp]:
  "sh_state (ss_record_bytes_ingested sh n) = sh_state sh" "active_tx (ss_record_bytes_ingested sh n) = active_tx sh"
  "sh_chans (ss_record_bytes_ingested sh n) = sh_chans sh"
  by (simp_all add: ss_record_bytes_ingested_def)

lemma clear_active_if_current_simps [simp]:
  "sh_chans (clear_active_if_current sh a) = sh_chans sh"
  "ss_next_subscriber_id (sh_state (clear_active_if_current sh a)) = ss_next_subscriber_id (sh_state sh)"
  "ss_events (sh_state (clear_active_if_current sh a)) = ss_events (sh_state sh)"
  "ss_chunk_count (sh_state (clear_active_if_current sh a)) = ss_chunk_count (sh_state sh)"
  "ss_byte_count (sh_state (clear_active_if_current sh a)) = ss_byte_count (sh_state sh)"
  "ss_replay_sealed (sh_state (clear_active_if_current sh a)) = ss_replay_sealed (sh_state sh)"
  "ss_terminal_event (sh_state (clear_active_if_current sh a)) = ss_terminal_event (sh_state sh)"
  "active_tx (clear_active_if_current sh a) = (if active_id (sh_state sh) = Some a then None else active_tx sh)"
  "active_id (sh_state (clear_active_if_current sh a)) = (if active_id (sh_state sh) = Some a then None else active_id (sh_state sh))"
  by (simp_all add: clear_active_if_current_def)

lemma single_drop_simps [simp]:
  "sh_chans (single_drop sh) = sh_chans sh" "active_tx (single_drop sh) = None" "active_id (sh_state (single_drop sh)) = None"
  "ss_next_subscriber_id (sh_state (single_drop sh)) = ss_next_subscriber_id (sh_state sh)"
  "ss_events (sh_state (single_drop sh)) = ss_events (sh_state sh)"
  "ss_chunk_count (sh_state (single_drop sh)) = ss_chunk_count (sh_state sh)"
  "ss_byte_count (sh_state (single_drop sh)) = ss_byte_count (sh_state sh)"
  "ss_replay_sealed (sh_state (single_drop sh)) = ss_replay_sealed (sh_state sh)"
  "ss_terminal_event (sh_state (single_drop sh)) = ss_terminal_event (sh_state sh)"
  by (simp_all add: single_drop_def clear_active_def)

lemma ss_ok_cong:
  "ss_events st' = ss_events st \<Longrightarrow> ss_chunk_count st' = ss_chunk_count st \<Longrightarrow> ss_byte_count st' = ss_byte_count st \<Longrightarrow>
   ss_ok st' = ss_ok st"
  by (simp add: ss_ok_def)

lemma ss_ok_clear [simp]:
  "ss_ok (sh_state (clear_active_if_current sh a)) = ss_ok (sh_state sh)" "ss_ok (sh_state (single_drop sh)) = ss_ok (sh_state sh)"
  by (intro ss_ok_cong; simp)+

lemma ss_pushed_frame [simp]:
  "active_id (ss_pushed st ev r) = active_id st" "ss_next_subscriber_id (ss_pushed st ev r) = ss_next_subscriber_id st"
  "ss_replay_sealed (ss_pushed st ev r) = ss_replay_sealed st"
  "ss_terminal_event (ss_pushed st ev r) = (if is_terminal ev then Some ev else ss_terminal_event st)"
  by (cases ev; simp add: ss_pushed_def)+

lemma record_event_ok:
  assumes "ss_ok (sh_state sh)" and "retention_ok r"
  shows "record_event ev r sh = Inr (records (sh_state sh) r ev, active_tx sh,
      (let sh1 = sh\<lparr>sh_state := ss_pushed (sh_state sh) ev r\<rparr> in if is_terminal ev then sh1\<lparr>terminal_tx := Some ev\<rparr> else sh1))"
  by (simp add: record_event_def push_replay_event_ok [OF assms] refresh_cached_active_def Let_def)

lemma subscribe_ok:
  assumes "single_try_subscribe ops options name sh = Inr (sub, sh')"
  shows "active_id (sh_state sh) = None" and "ssub_id sub = ss_next_subscriber_id (sh_state sh)"
    and "ssub_replay sub = (if ss_replay_sealed (sh_state sh) \<or> config_replay_retention options = None then [] else ss_events (sh_state sh))"
    and "ssub_terminal_event sub = ss_terminal_event (sh_state sh)"
    and "sh_state sh' = (sh_state sh)\<lparr>ss_next_subscriber_id := ss_next_subscriber_id (sh_state sh) + 1,
           active_id := Some (ss_next_subscriber_id (sh_state sh))\<rparr>"
    and "active_tx sh' = Some (ss_next_subscriber_id (sh_state sh))"
    and "sh_chans sh' = (sh_chans sh)(ss_next_subscriber_id (sh_state sh) := ev_channel ops (max_buffered_chunks options))"
  using assms
  by (auto simp: single_try_subscribe_def Let_def attach_subscriber_def snapshot_events_def split: if_splits)

lemma config_ok_retention: "config_ok options \<Longrightarrow> retention_ok (config_replay_retention options)"
  by (simp add: config_ok_def)

lemma record_window:
  assumes "ss_ok st" and "ss_window st = (if ss_replay_sealed st then [] else window_spec r (event_chunks es))" and "ev \<noteq> Gap"
  shows "ss_window (ss_pushed st ev r) = (if ss_replay_sealed st then [] else window_spec r (event_chunks (es @ [ev])))"
proof (cases ev)
  case (Chunk c)
  show ?thesis
  proof (cases "records st r ev")
    case True
    then show ?thesis
      using Chunk assms(2) window_spec_append [of r "event_chunks es" "[c]"]
      by (simp add: ss_pushed_def records_def event_chunks_def)
  next
    case False
    then have "r = None \<or> ss_replay_sealed st" using Chunk by (auto simp: records_def)
    then show ?thesis using False Chunk assms(2) by (auto simp: ss_pushed_def)
  qed
qed (use assms in \<open>auto simp: ss_pushed_def event_chunks_def\<close>)

lemma shared_ok_step:
  assumes "single_step ops options name s s'" and "config_ok options" and "shared_ok options s"
  shows "shared_ok options s'"
  using assms(1)
proof cases
  case (s_record ev recorded cached sh)
  have ok: "ss_ok (sh_state (sy_shared s))" using assms(3) by (simp add: shared_ok_def Let_def)
  have sh: "recorded = records (sh_state (sy_shared s)) (config_replay_retention options) ev" "cached = active_tx (sy_shared s)"
    "sh_state sh = ss_pushed (sh_state (sy_shared s)) ev (config_replay_retention options)" "active_tx sh = active_tx (sy_shared s)"
    using s_record(5) record_event_ok [OF ok config_ok_retention [OF assms(2)], of ev] by (auto simp: Let_def)
  show ?thesis
    using assms(3) s_record(3,4) sh push_replay_event_ok(2) [OF ok config_ok_retention [OF assms(2)], of ev]
      record_window [OF ok _ s_record(4), of "config_replay_retention options" "sy_log s"]
    unfolding s_record(1) by (simp add: shared_ok_def Let_def log_terminal_def)
next
  case (s_subscribe sub sh)
  note sub = subscribe_ok [OF s_subscribe(2)]
  have "ss_ok (sh_state sh) = ss_ok (sh_state (sy_shared s))" by (rule ss_ok_cong) (simp_all add: sub)
  then show ?thesis using assms(3) sub unfolding s_subscribe(1) by (auto simp: shared_ok_def Let_def less_Suc_eq)
next
  case (s_seal sh)
  have ok: "ss_ok (sh_state (sy_shared s))" using assms(3) by (simp add: shared_ok_def Let_def)
  have "sh = (sy_shared s)\<lparr>sh_state := (with_window (sh_state (sy_shared s)) [])\<lparr>ss_replay_sealed := True\<rparr>\<rparr>"
    using s_seal(2) ss_seal_ok [OF ok] by (simp add: single_seal_replay_def)
  moreover have "ss_ok ((with_window (sh_state (sy_shared s)) [])\<lparr>ss_replay_sealed := True\<rparr>)"
    by (simp add: ss_ok_def)
  ultimately show ?thesis using assms(3) unfolding s_seal(1) by (simp add: shared_ok_def Let_def)
qed (use assms(3) in \<open>auto simp: shared_ok_def Let_def refresh_cached_active_def\<close>)

lemma shared_ok_initial: "single_initial ops s \<Longrightarrow> shared_ok options s"
  by (simp add: single_initial_def shared_ok_def Let_def configured_shared_new_def log_terminal_def)
    (simp add: replay_state_new_def)

section \<open>Where every subscriber stands\<close>

text \<open>\<open>sent_upto a n\<close>: subscriber \<open>a\<close> was sent the events up to number \<open>n\<close>, from where it attached on, or, when it
  had nothing to replay, from the event that was being delivered when it attached.  A \<open>newcomer\<close>
  attached after the last event was recorded.\<close>

definition sent_upto :: "'ch single_sys \<Rightarrow> u64 \<Rightarrow> nat \<Rightarrow> bool" where
  "sent_upto s a n \<longleftrightarrow>
     (\<exists>k\<le>n. sy_sent s a = drop k (take n (sy_log s)) \<and> (k = sy_start s a \<or> Suc k = sy_start s a \<and> sy_snap s a = []))"

definition newcomer :: "'ch single_sys \<Rightarrow> bool \<Rightarrow> u64 \<Rightarrow> bool" where
  "newcomer s recorded a \<longleftrightarrow>
     sy_start s a = length (sy_log s) \<and> sy_sent s a = [] \<and> (\<not> recorded \<longrightarrow> sy_snap s a = [])"

text \<open>An event that later subscribers will not find in their replay was neither retained nor terminal.\<close>

definition unrecorded_ok :: "stream_config \<Rightarrow> 'ch single_sys \<Rightarrow> bool \<Rightarrow> bool" where
  "unrecorded_ok options s recorded \<longleftrightarrow>
     (\<not> recorded \<longrightarrow> ss_terminal_event (sh_state (sy_shared s)) = None \<and>
        (ss_replay_sealed (sh_state (sy_shared s)) \<or> config_replay_retention options = None))"

definition active_newcomer :: "('ch \<Rightarrow> bool) \<Rightarrow> 'ch single_sys \<Rightarrow> bool \<Rightarrow> u64 \<Rightarrow> bool" where
  "active_newcomer gone s recorded a \<longleftrightarrow> gone (sy_chan s a) \<or> newcomer s recorded a"

definition phase_ok :: "('ch \<Rightarrow> bool) \<Rightarrow> stream_config \<Rightarrow> 'ch single_sys \<Rightarrow> bool" where
  "phase_ok gone options s \<longleftrightarrow>
     (case sy_phase s of
        Idle \<Rightarrow> \<forall>a. active_tx (sy_shared s) = Some a \<longrightarrow> gone (sy_chan s a) \<or> sent_upto s a (length (sy_log s))
      | Sending ev recorded retried \<Rightarrow>
          unrecorded_ok options s recorded \<and> sy_log s \<noteq> [] \<and> ev = last (sy_log s) \<and> (retried \<longrightarrow> \<not> recorded) \<and>
          (\<forall>a. sy_cached s = Some a \<longrightarrow> gone (sy_chan s a) \<or>
             (if retried then newcomer s recorded a else sent_upto s a (length (sy_log s) - 1))) \<and>
          (\<forall>a. active_tx (sy_shared s) = Some a \<longrightarrow> sy_cached s = Some a \<or> active_newcomer gone s recorded a)
      | SendRefused ev recorded retried sid \<Rightarrow>
          unrecorded_ok options s recorded \<and> sy_log s \<noteq> [] \<and> ev = last (sy_log s) \<and> (retried \<longrightarrow> \<not> recorded) \<and>
          (\<forall>a. active_tx (sy_shared s) = Some a \<longrightarrow> active_newcomer gone s recorded a)
      | Unregistered ev recorded retried \<Rightarrow>
          unrecorded_ok options s recorded \<and> sy_log s \<noteq> [] \<and> ev = last (sy_log s) \<and> (retried \<longrightarrow> \<not> recorded) \<and>
          (\<forall>a. active_tx (sy_shared s) = Some a \<longrightarrow> active_newcomer gone s recorded a))"

definition blocks_ok :: "'ch single_sys \<Rightarrow> bool" where
  "blocks_ok s \<longleftrightarrow> (\<forall>a<sy_next s. sy_start s a \<le> length (sy_log s) \<and> (\<exists>n\<le>length (sy_log s). sent_upto s a n))"

definition received_ok :: "('ch \<Rightarrow> stream_event list) \<Rightarrow> ('ch \<Rightarrow> bool) \<Rightarrow> 'ch single_sys \<Rightarrow> bool" where
  "received_ok contents gone s \<longleftrightarrow>
     (\<forall>a<sy_next s. \<not> gone (sy_chan s a) \<longrightarrow> sy_recd s a @ contents (sy_chan s a) = sy_sent s a)"

lemma upto_cong:
  "sy_log s' = sy_log s \<Longrightarrow> sy_sent s' a = sy_sent s a \<Longrightarrow> sy_start s' a = sy_start s a \<Longrightarrow> sy_snap s' a = sy_snap s a \<Longrightarrow>
   sent_upto s' a n = sent_upto s a n"
  by (simp add: sent_upto_def)

lemma newcomer_upto: "newcomer s recorded a \<Longrightarrow> sent_upto s a (length (sy_log s))"
  by (auto simp: newcomer_def sent_upto_def)

lemma upto_record:
  "sent_upto s a n \<Longrightarrow> n \<le> length (sy_log s) \<Longrightarrow> sy_log s' = sy_log s @ [ev] \<Longrightarrow>
   sy_sent s' a = sy_sent s a \<Longrightarrow> sy_start s' a = sy_start s a \<Longrightarrow> sy_snap s' a = sy_snap s a \<Longrightarrow> sent_upto s' a n"
  by (auto simp: sent_upto_def)

lemma take_drop_last:
  "xs \<noteq> [] \<Longrightarrow> k \<le> length xs - 1 \<Longrightarrow> drop k (take (length xs - 1) xs) @ [last xs] = drop k xs"
  by (cases xs rule: rev_cases) auto

lemma upto_sent:
  assumes "sent_upto s a (length (sy_log s) - 1)" and "sy_log s \<noteq> []"
    and "sy_log s' = sy_log s" "sy_sent s' a = sy_sent s a @ [last (sy_log s)]" "sy_start s' a = sy_start s a" "sy_snap s' a = sy_snap s a"
  shows "sent_upto s' a (length (sy_log s))"
proof -
  obtain k where k: "k \<le> length (sy_log s) - 1" "sy_sent s a = drop k (take (length (sy_log s) - 1) (sy_log s))"
      "k = sy_start s a \<or> Suc k = sy_start s a \<and> sy_snap s a = []"
    using assms(1) by (auto simp: sent_upto_def)
  then show ?thesis
    using assms(3-6) take_drop_last [OF assms(2) k(1)] by (auto simp: sent_upto_def intro!: exI [of _ k])
qed

lemma newcomer_sent:
  assumes "newcomer s False a" and "sy_log s \<noteq> []"
    and "sy_log s' = sy_log s" "sy_sent s' a = sy_sent s a @ [last (sy_log s)]" "sy_start s' a = sy_start s a" "sy_snap s' a = sy_snap s a"
  shows "sent_upto s' a (length (sy_log s))"
  using assms by (cases "sy_log s" rule: rev_cases) (auto simp: newcomer_def sent_upto_def intro!: exI [of _ "length (sy_log s) - 1"])

text \<open>A step that leaves the log and the bookkeeping of a subscriber alone leaves its standing alone.\<close>

lemma newcomer_cong:
  "sy_log s' = sy_log s \<Longrightarrow> sy_sent s' a = sy_sent s a \<Longrightarrow> sy_start s' a = sy_start s a \<Longrightarrow> sy_snap s' a = sy_snap s a \<Longrightarrow>
   newcomer s' recorded a = newcomer s recorded a"
  by (simp add: newcomer_def)

text \<open>Steps of other tasks: the phase invariant only looks at the active subscriber, and a channel
  update can only make a receiver go away.\<close>

lemma phase_ok_other:
  assumes "phase_ok gone options s"
    and "sy_phase s' = sy_phase s" "sy_cached s' = sy_cached s" "sy_log s' = sy_log s" "sy_start s' = sy_start s"
      "sy_snap s' = sy_snap s" "sy_sent s' = sy_sent s"
    and "\<And>a. active_tx (sy_shared s') = Some a \<Longrightarrow> active_tx (sy_shared s) = Some a"
    and "\<And>a. gone (sy_chan s a) \<Longrightarrow> gone (sy_chan s' a)"
    and "ss_terminal_event (sh_state (sy_shared s')) = ss_terminal_event (sh_state (sy_shared s))"
    and "ss_replay_sealed (sh_state (sy_shared s)) \<Longrightarrow> ss_replay_sealed (sh_state (sy_shared s'))"
  shows "phase_ok gone options s'"
proof -
  have u: "sent_upto s' a n = sent_upto s a n" "newcomer s' b a = newcomer s b a" for a n b
    using assms(4-7) by (simp_all add: sent_upto_def newcomer_def)
  show ?thesis
    using assms(1) unfolding phase_ok_def assms(2-4) unrecorded_ok_def assms(10) active_newcomer_def u
    using assms(8,9,11) by (cases "sy_phase s") (auto split: if_splits)
qed

lemma phase_ok_record:
  assumes "phase_ok gone options s" and "shared_ok options s" and "config_ok options"
    and "sy_phase s = Idle" "ss_terminal_event (sh_state (sy_shared s)) = None" "ev \<noteq> Gap"
    and "record_event ev (config_replay_retention options) (sy_shared s) = Inr (recorded, cached, sh)"
  shows "phase_ok gone options
     (s\<lparr>sy_shared := sh, sy_cached := cached, sy_phase := Sending ev recorded False, sy_log := sy_log s @ [ev]\<rparr>)"
proof -
  let ?r = "config_replay_retention options" and ?st = "sh_state (sy_shared s)"
  have ok: "ss_ok ?st" using assms(2) by (simp add: shared_ok_def Let_def)
  have sh: "recorded = records ?st ?r ev" "cached = active_tx (sy_shared s)" "sh_state sh = ss_pushed ?st ev ?r"
    "active_tx sh = active_tx (sy_shared s)" "sh_chans sh = sh_chans (sy_shared s)"
    using assms(7) record_event_ok [OF ok config_ok_retention [OF assms(3)], of ev] by (auto simp: Let_def)
  have "\<not> recorded \<Longrightarrow> \<not> is_terminal ev \<and> (ss_replay_sealed ?st \<or> ?r = None)"
    using sh(1) assms(6) by (cases ev) (auto simp: records_def)
  then show ?thesis
    using assms(1,4,5) sh by (auto simp: phase_ok_def unrecorded_ok_def intro: upto_record)
qed

lemma phase_ok_sent:
  assumes "phase_ok gone options s"
    and "sy_phase s = Sending ev recorded retried" "sy_cached s = Some sid" "\<not> gone (sy_chan s sid)"
    and "\<And>a. a \<noteq> sid \<Longrightarrow> gone (sy_chan s a) \<Longrightarrow> gone (ch' a)"
  shows "sent_upto (s\<lparr>sy_shared := sh, sy_phase := Idle, sy_sent := (sy_sent s)(sid := sy_sent s sid @ [ev])\<rparr>) sid (length (sy_log s))"
    and "active_tx (sy_shared s) = Some a \<Longrightarrow> a \<noteq> sid \<Longrightarrow> gone (sy_chan s a) \<or>
      sent_upto (s\<lparr>sy_shared := sh, sy_phase := Idle, sy_sent := (sy_sent s)(sid := sy_sent s sid @ [ev])\<rparr>) a (length (sy_log s))"
proof -
  let ?s = "s\<lparr>sy_shared := sh, sy_phase := Idle, sy_sent := (sy_sent s)(sid := sy_sent s sid @ [ev])\<rparr>"
  have p: "sy_log s \<noteq> []" "ev = last (sy_log s)" "retried \<longrightarrow> \<not> recorded"
    "if retried then newcomer s recorded sid else sent_upto s sid (length (sy_log s) - 1)"
    "\<And>a. active_tx (sy_shared s) = Some a \<Longrightarrow> a \<noteq> sid \<Longrightarrow> active_newcomer gone s recorded a"
    using assms by (auto simp: phase_ok_def)
  show "sent_upto ?s sid (length (sy_log s))"
  proof (cases retried)
    case True
    then show ?thesis using newcomer_sent [of s sid ?s] p by simp
  next
    case False
    then show ?thesis using upto_sent [of s sid ?s] p by simp
  qed
  show "gone (sy_chan s a) \<or> sent_upto ?s a (length (sy_log s))" if "active_tx (sy_shared s) = Some a" "a \<noteq> sid"
  proof -
    have "gone (sy_chan s a) \<or> newcomer ?s recorded a"
      using p(5) [OF that] newcomer_cong [of ?s s a recorded] that(2) by (simp add: active_newcomer_def)
    then show ?thesis using newcomer_upto [of ?s recorded a] by auto
  qed
qed

lemma phase_ok_subscribe:
  assumes "phase_ok gone options s" and "shared_ok options s"
    and "single_try_subscribe ops options name (sy_shared s) = Inr (sub, sh)"
  shows "phase_ok gone options
     (s\<lparr>sy_shared := sh, sy_start := (sy_start s)(ssub_id sub := length (sy_log s)),
        sy_snap := (sy_snap s)(ssub_id sub := ssub_replay sub @ (case ssub_terminal_event sub of None \<Rightarrow> [] | Some t \<Rightarrow> [t])),
        sy_sent := (sy_sent s)(ssub_id sub := []), sy_recd := (sy_recd s)(ssub_id sub := [])\<rparr>)" (is "phase_ok gone options ?s")
proof -
  note sub = subscribe_ok [OF assms(3)]
  let ?new = "ss_next_subscriber_id (sh_state (sy_shared s))"
  have cached: "a \<noteq> ?new" if "sy_cached s = Some a" for a
    using assms(2) that by (auto simp: shared_ok_def Let_def)
  have old: "sent_upto ?s a n = sent_upto s a n" "newcomer ?s b a = newcomer s b a" "sy_chan ?s a = sy_chan s a" if "a \<noteq> ?new" for a n b
    using that sub by (simp_all add: sent_upto_def newcomer_def)
  have new: "newcomer ?s recorded ?new" if "unrecorded_ok options s recorded" for recorded
    using that sub by (auto simp: newcomer_def unrecorded_ok_def)
  have fields: "sy_phase ?s = sy_phase s" "sy_cached ?s = sy_cached s" "sy_log ?s = sy_log s" "active_tx (sy_shared ?s) = Some ?new"
    "unrecorded_ok options ?s b = unrecorded_ok options s b" for b
    using sub by (simp_all add: unrecorded_ok_def)
  show ?thesis
  proof (cases "sy_phase s")
    case Idle
    have "sent_upto ?s ?new (length (sy_log s))" using sub by (auto simp: sent_upto_def)
    then show ?thesis unfolding phase_ok_def fields Idle by simp
  next
    case (Sending ev recorded retried)
    then show ?thesis
      using assms(1) new [of recorded] cached old unfolding phase_ok_def fields active_newcomer_def
      by (auto split: if_splits)
  next
    case (SendRefused ev recorded retried sid)
    then show ?thesis
      using assms(1) new [of recorded] unfolding phase_ok_def fields active_newcomer_def by auto
  next
    case (Unregistered ev recorded retried)
    then show ?thesis
      using assms(1) new [of recorded] unfolding phase_ok_def fields active_newcomer_def by auto
  qed
qed

lemma phase_ok_step:
  assumes "single_step ops options name s s'" and "config_ok options" and "shared_ok options s"
    and "event_chan_ok ops contents gone capacity" and "phase_ok gone options s"
  shows "phase_ok gone options s'"
  using assms(1)
proof cases
  case (s_record ev recorded cached sh)
  then show ?thesis using phase_ok_record [OF assms(5,3,2)] by simp
next
  case (s_no_active ev recorded retried)
  then show ?thesis
    using assms(5) newcomer_upto by (auto simp: phase_ok_def active_newcomer_def sent_upto_def newcomer_def)
next
  case (s_sent ev recorded retried sid ch)
  note g = chan_gone(3) [OF assms(4) s_sent(4)]
  show ?thesis
    unfolding s_sent(1)
    using phase_ok_sent [OF assms(5) s_sent(2,3)] g by (auto simp: phase_ok_def)
next
  case (s_blocked ev recorded retried sid ch)
  show ?thesis
    unfolding s_blocked(1)
    by (rule phase_ok_other [OF assms(5)]) (use chan_gone(5) [OF assms(4) s_blocked(4)] in auto)
next
  case (s_refused ev recorded retried sid ch)
  note g = chan_gone(4) [OF assms(4) s_refused(4)]
  show ?thesis
    unfolding s_refused(1)
    using assms(5) s_refused(2,3) g
    by (auto simp: phase_ok_def unrecorded_ok_def active_newcomer_def newcomer_def)
next
  case (s_unregister ev recorded retried sid)
  then show ?thesis
    using assms(5) by (auto simp: phase_ok_def unrecorded_ok_def active_newcomer_def newcomer_def split: if_splits)
next
  case (s_refresh ev recorded retried)
  have p: "unrecorded_ok options s recorded" "sy_log s \<noteq> []" "ev = last (sy_log s)" "retried \<longrightarrow> \<not> recorded"
    "\<And>a. active_tx (sy_shared s) = Some a \<Longrightarrow> active_newcomer gone s recorded a"
    using assms(5) s_refresh(2) by (auto simp: phase_ok_def)
  show ?thesis
    using p(1-4) p(5) newcomer_upto [of s recorded] unfolding s_refresh(1)
    by (auto simp: phase_ok_def unrecorded_ok_def active_newcomer_def newcomer_def sent_upto_def refresh_cached_active_def)
next
  case s_look
  then show ?thesis using assms(5) by (auto simp: phase_ok_def sent_upto_def)
next
  case (s_ingest n)
  show ?thesis unfolding s_ingest(1) by (rule phase_ok_other [OF assms(5)]) auto
next
  case (s_subscribe sub sh)
  show ?thesis
    unfolding s_subscribe(1) by (rule phase_ok_subscribe [OF assms(5,3) s_subscribe(2)])
next
  case (s_receive sid ev ch)
  show ?thesis
    unfolding s_receive(1)
    by (rule phase_ok_other [OF assms(5)]) (use chan_gone(2) [OF assms(4) s_receive(2)] in auto)
next
  case (s_drop_receiver sid)
  show ?thesis
    unfolding s_drop_receiver(1)
    by (rule phase_ok_other [OF assms(5)]) (use chan_new(3) [OF assms(4)] in auto)
next
  case (s_unsubscribe sid)
  show ?thesis
    unfolding s_unsubscribe(1) by (rule phase_ok_other [OF assms(5)]) (auto split: if_splits)
next
  case (s_seal sh)
  have ok: "ss_ok (sh_state (sy_shared s))" using assms(3) by (simp add: shared_ok_def Let_def)
  have "sh = (sy_shared s)\<lparr>sh_state := (with_window (sh_state (sy_shared s)) [])\<lparr>ss_replay_sealed := True\<rparr>\<rparr>"
    using s_seal(2) ss_seal_ok [OF ok] by (simp add: single_seal_replay_def)
  then show ?thesis
    unfolding s_seal(1) by (intro phase_ok_other [OF assms(5)]) auto
next
  case s_drop
  then show ?thesis by (simp add: phase_ok_def)
qed

lemma blocks_ok_other:
  assumes "blocks_ok s" and "sy_log s' = sy_log s" "sy_start s' = sy_start s" "sy_snap s' = sy_snap s" "sy_sent s' = sy_sent s"
    and "sy_next s' = sy_next s"
  shows "blocks_ok s'"
  using assms by (simp add: blocks_ok_def sent_upto_def)

lemma blocks_ok_step:
  assumes "single_step ops options name s s'" and "config_ok options" and "shared_ok options s"
    and "event_chan_ok ops contents gone capacity" and "phase_ok gone options s" and "blocks_ok s"
  shows "blocks_ok s'"
  using assms(1)
proof cases
  case (s_record ev recorded cached sh)
  have ok: "ss_ok (sh_state (sy_shared s))" using assms(3) by (simp add: shared_ok_def Let_def)
  have n: "ss_next_subscriber_id (sh_state sh) = sy_next s"
    using s_record(5) record_event_ok [OF ok config_ok_retention [OF assms(2)], of ev] by (auto simp: Let_def)
  have "\<exists>n\<le>Suc (length (sy_log s)). sent_upto s' a n" if a: "a < sy_next s" for a
  proof -
    obtain n where "n \<le> length (sy_log s)" "sent_upto s a n" using assms(6) a by (auto simp: blocks_ok_def)
    then show ?thesis using upto_record [of s a n s' ev] s_record(1) by (intro exI [of _ n]) simp
  qed
  then show ?thesis using assms(6) n unfolding s_record(1) by (simp add: blocks_ok_def le_SucI)
next
  case (s_sent ev recorded retried sid ch)
  note g = chan_gone(3) [OF assms(4) s_sent(4)]
  have sid: "sent_upto s' sid (length (sy_log s))"
    using phase_ok_sent(1) [OF assms(5) s_sent(2,3)] g unfolding s_sent(1) by auto
  have other: "sent_upto s' a n = sent_upto s a n" if "a \<noteq> sid" for a n
    using that unfolding s_sent(1) by (simp add: sent_upto_def)
  show ?thesis
    unfolding blocks_ok_def
  proof (intro allI impI conjI)
    fix a
    assume a: "a < sy_next s'"
    then have a': "a < sy_next s" unfolding s_sent(1) by simp
    then show "sy_start s' a \<le> length (sy_log s')" using assms(6) unfolding s_sent(1) by (simp add: blocks_ok_def)
    have l: "sy_log s' = sy_log s" unfolding s_sent(1) by simp
    show "\<exists>n\<le>length (sy_log s'). sent_upto s' a n"
      using assms(6) a' sid other [of a] unfolding l blocks_ok_def by (cases "a = sid") auto
  qed
next
  case (s_subscribe sub sh)
  note sub = subscribe_ok [OF s_subscribe(2)]
  have "sent_upto s' (sy_next s) (length (sy_log s))" unfolding s_subscribe(1) using sub by (auto simp: sent_upto_def)
  moreover have "sent_upto s' a n = sent_upto s a n" if "a \<noteq> sy_next s" for a n
    using that sub unfolding s_subscribe(1) by (simp add: sent_upto_def)
  ultimately show ?thesis
    using assms(6) sub unfolding blocks_ok_def s_subscribe(1) by (auto simp: less_Suc_eq)
next
  case (s_seal sh)
  have ok: "ss_ok (sh_state (sy_shared s))" using assms(3) by (simp add: shared_ok_def Let_def)
  show ?thesis
    unfolding s_seal(1) using s_seal(2) ss_seal_ok [OF ok]
    by (intro blocks_ok_other [OF assms(6)]) (auto simp: single_seal_replay_def)
qed (use assms(6) in \<open>auto intro: blocks_ok_other\<close>)

lemma received_ok_step:
  assumes "single_step ops options name s s'" and "config_ok options" and "shared_ok options s"
    and "event_chan_ok ops contents gone capacity" and "received_ok contents gone s"
  shows "received_ok contents gone s'"
  using assms(1)
proof cases
  case (s_record ev recorded cached sh)
  have ok: "ss_ok (sh_state (sy_shared s))" using assms(3) by (simp add: shared_ok_def Let_def)
  then show ?thesis
    using assms(5) s_record(1,5) record_event_ok [OF ok config_ok_retention [OF assms(2)], of ev]
    by (auto simp: received_ok_def Let_def split: if_splits)
next
  case (s_sent ev recorded retried sid ch)
  then show ?thesis using assms(5) chan_gone(3) [OF assms(4) s_sent(4)] by (auto simp: received_ok_def)
next
  case (s_blocked ev recorded retried sid ch)
  then show ?thesis using assms(5) chan_gone(5) [OF assms(4) s_blocked(4)] by (auto simp: received_ok_def)
next
  case (s_refused ev recorded retried sid ch)
  then show ?thesis using assms(5) chan_gone(4) [OF assms(4) s_refused(4)] by (auto simp: received_ok_def)
next
  case (s_subscribe sub sh)
  note sub = subscribe_ok [OF s_subscribe(2)]
  show ?thesis
    using assms(5) sub chan_new(1) [OF assms(4)] unfolding s_subscribe(1) by (auto simp: received_ok_def less_Suc_eq)
next
  case (s_receive sid ev ch)
  then show ?thesis
    using assms(5) chan_gone(2,6) [OF assms(4) s_receive(2)] by (auto simp: received_ok_def)
next
  case (s_drop_receiver sid)
  then show ?thesis using assms(5) chan_new(3) [OF assms(4)] by (auto simp: received_ok_def)
next
  case (s_seal sh)
  have ok: "ss_ok (sh_state (sy_shared s))" using assms(3) by (simp add: shared_ok_def Let_def)
  show ?thesis
    using assms(5) s_seal(1,2) ss_seal_ok [OF ok] by (auto simp: received_ok_def single_seal_replay_def)
qed (use assms(5) in \<open>auto simp: received_ok_def\<close>)

lemma single_reachable_ok:
  assumes "single_reachable ops options name s" and "config_ok options" and "event_chan_ok ops contents gone capacity"
  shows "shared_ok options s \<and> phase_ok gone options s \<and> blocks_ok s \<and> received_ok contents gone s"
  using assms(1)
proof induction
  case (single_init s)
  then show ?case
    using shared_ok_initial [OF single_init, of options]
    by (simp add: single_initial_def phase_ok_def blocks_ok_def received_ok_def configured_shared_new_def replay_state_new_def)
next
  case (single_next s s')
  then show ?case
    using shared_ok_step [OF single_next(2) assms(2)] phase_ok_step [OF single_next(2) assms(2) _ assms(3)]
      blocks_ok_step [OF single_next(2) assms(2) _ assms(3)] received_ok_step [OF single_next(2) assms(2) _ assms(3)] by blast
qed

section \<open>The reader loop takes these steps\<close>

lemma single_steps_reachable:
  "(single_step ops options name)\<^sup>*\<^sup>* s s' \<Longrightarrow> single_reachable ops options name s \<Longrightarrow> single_reachable ops options name s'"
  by (induction rule: rtranclp_induct) (auto intro: single_next)

text \<open>What a run of the reader alone keeps: who is subscribed, and what they received.\<close>

definition same_subscribers :: "'ch single_sys \<Rightarrow> 'ch single_sys \<Rightarrow> bool" where
  "same_subscribers s s' \<longleftrightarrow>
     sy_next s' = sy_next s \<and> sy_start s' = sy_start s \<and> sy_snap s' = sy_snap s \<and> sy_recd s' = sy_recd s"

lemma same_subscribers_trans: "same_subscribers s1 s2 \<Longrightarrow> same_subscribers s2 s3 \<Longrightarrow> same_subscribers s1 s3"
  by (simp add: same_subscribers_def)

lemma three_steps: "r x y \<Longrightarrow> r y z \<Longrightarrow> r z u \<Longrightarrow> r\<^sup>*\<^sup>* x u"
  by (rule rtranclp.rtrancl_into_rtrancl, rule rtranclp.rtrancl_into_rtrancl, rule r_into_rtranclp)

lemma deliver_refused:
  assumes "sy_phase s = Sending ev recorded retried" and "sy_cached s = Some sid"
    and "ev_send ops (sy_chan s sid) ev = (Ready False, ch)"
  shows "\<exists>s'. (single_step ops options name)\<^sup>*\<^sup>* s s' \<and> sy_log s' = sy_log s \<and> same_subscribers s s' \<and>
     sy_phase s' = (if recorded \<or> retried then Idle else Sending ev recorded True) \<and>
     deliver_reliable_loop ops ev recorded retried (sy_cached s) (sy_shared s) =
       (if recorded \<or> retried then (Ready (), sy_cached s', sy_shared s')
        else deliver_reliable_loop ops ev recorded True (sy_cached s') (sy_shared s'))"
proof -
  let ?sh = "clear_active_if_current (put_chan (sy_shared s) sid ch) sid"
  let ?s1 = "s\<lparr>sy_shared := put_chan (sy_shared s) sid ch, sy_phase := SendRefused ev recorded retried sid\<rparr>"
  let ?s2 = "?s1\<lparr>sy_shared := ?sh, sy_phase := Unregistered ev recorded retried\<rparr>"
  let ?s3 = "?s2\<lparr>sy_cached := refresh_cached_active ?sh,
    sy_phase := (if recorded \<or> retried then Idle else Sending ev recorded True)\<rparr>"
  have 12: "single_step ops options name s ?s1" by (rule s_refused [OF assms])
  have 23: "single_step ops options name ?s1 ?s2"
    using s_unregister [of ?s1 ev recorded retried sid ops options name] by simp
  have 34: "single_step ops options name ?s2 ?s3"
    using s_refresh [of ?s2 ev recorded retried ops options name] by simp
  have "deliver_reliable_loop ops ev recorded retried (sy_cached s) (sy_shared s) =
      (if recorded \<or> retried then (Ready (), sy_cached ?s3, sy_shared ?s3)
       else deliver_reliable_loop ops ev recorded True (sy_cached ?s3) (sy_shared ?s3))"
    by (subst deliver_reliable_loop.simps) (simp add: assms send_failed_def Let_def)
  then show ?thesis
    by (intro exI [of _ ?s3] conjI three_steps [of "single_step ops options name", OF 12 23 34])
      (simp_all add: same_subscribers_def)
qed

lemma deliver_round:
  assumes "sy_phase s = Sending ev recorded retried"
  shows "\<exists>s'. (single_step ops options name)\<^sup>*\<^sup>* s s' \<and> sy_log s' = sy_log s \<and> same_subscribers s s' \<and>
     ((\<exists>p. deliver_reliable_loop ops ev recorded retried (sy_cached s) (sy_shared s) = (p, sy_cached s', sy_shared s') \<and>
           (p = Ready () \<longrightarrow> sy_phase s' = Idle)) \<or>
      (\<not> retried \<and> sy_phase s' = Sending ev recorded True \<and>
       deliver_reliable_loop ops ev recorded retried (sy_cached s) (sy_shared s) =
       deliver_reliable_loop ops ev recorded True (sy_cached s') (sy_shared s')))"
proof (cases "sy_cached s")
  case None
  let ?s = "s\<lparr>sy_phase := Idle\<rparr>"
  have "single_step ops options name s ?s" by (rule s_no_active [OF assms None])
  then show ?thesis
    using None by (intro exI [of _ ?s]) (auto simp: same_subscribers_def deliver_reliable_loop.simps)
next
  case (Some sid)
  obtain r ch where send: "ev_send ops (sy_chan s sid) ev = (r, ch)" by fastforce
  consider "r = Pending" | "r = Ready True" | "r = Ready False" by (cases r) auto
  then show ?thesis
  proof cases
    case 1
    let ?s = "s\<lparr>sy_shared := put_chan (sy_shared s) sid ch\<rparr>"
    have "single_step ops options name s ?s" using s_blocked [OF assms Some] send 1 by simp
    then show ?thesis
      using Some send 1 by (intro exI [of _ ?s]) (auto simp: same_subscribers_def deliver_reliable_loop.simps)
  next
    case 2
    let ?s = "s\<lparr>sy_shared := put_chan (sy_shared s) sid ch, sy_phase := Idle, sy_sent := (sy_sent s)(sid := sy_sent s sid @ [ev])\<rparr>"
    have "single_step ops options name s ?s" using s_sent [OF assms Some] send 2 by simp
    then show ?thesis
      using Some send 2 by (intro exI [of _ ?s]) (auto simp: same_subscribers_def deliver_reliable_loop.simps)
  next
    case 3
    with send deliver_refused [OF assms Some, of ops ch options name] show ?thesis by (auto split: if_splits)
  qed
qed

lemma deliver_steps:
  assumes "sy_phase s = Sending ev recorded False"
    and "deliver_reliable_event ops ev recorded (sy_cached s) (sy_shared s) = (p, cached', sh')"
  shows "\<exists>s'. (single_step ops options name)\<^sup>*\<^sup>* s s' \<and> sy_shared s' = sh' \<and> sy_cached s' = cached' \<and> sy_log s' = sy_log s \<and>
     same_subscribers s s' \<and> (p = Ready () \<longrightarrow> sy_phase s' = Idle)"
proof -
  note loop = assms(2) [unfolded deliver_reliable_event_def]
  obtain s1 where s1: "(single_step ops options name)\<^sup>*\<^sup>* s s1" "sy_log s1 = sy_log s" "same_subscribers s s1"
    and or1: "(\<exists>p. deliver_reliable_loop ops ev recorded False (sy_cached s) (sy_shared s) = (p, sy_cached s1, sy_shared s1) \<and>
           (p = Ready () \<longrightarrow> sy_phase s1 = Idle)) \<or>
      (sy_phase s1 = Sending ev recorded True \<and>
       deliver_reliable_loop ops ev recorded False (sy_cached s) (sy_shared s) =
       deliver_reliable_loop ops ev recorded True (sy_cached s1) (sy_shared s1))"
    using deliver_round [OF assms(1), of ops options name] by blast
  from or1 show ?thesis
  proof
    assume "\<exists>p. deliver_reliable_loop ops ev recorded False (sy_cached s) (sy_shared s) = (p, sy_cached s1, sy_shared s1) \<and>
           (p = Ready () \<longrightarrow> sy_phase s1 = Idle)"
    then show ?thesis using s1 loop by (intro exI [of _ s1]) auto
  next
    assume again: "sy_phase s1 = Sending ev recorded True \<and>
       deliver_reliable_loop ops ev recorded False (sy_cached s) (sy_shared s) =
       deliver_reliable_loop ops ev recorded True (sy_cached s1) (sy_shared s1)"
    then obtain s2 where s2: "(single_step ops options name)\<^sup>*\<^sup>* s1 s2" "sy_log s2 = sy_log s1" "same_subscribers s1 s2"
        "sy_cached s2 = cached'" "sy_shared s2 = sh'" "p = Ready () \<longrightarrow> sy_phase s2 = Idle"
      using deliver_round [of s1 ev recorded True ops options name] loop by auto
    then show ?thesis
      using rtranclp_trans [OF s1(1) s2(1)] same_subscribers_trans [OF s1(3) s2(3)] s1(2) by (intro exI [of _ s2]) simp
  qed
qed

text \<open>The reads among what the reader waits for.\<close>

fun reads_of :: "reader_input list \<Rightarrow> read_result list" where
  "reads_of [] = []"
| "reads_of (ActiveChanged # is) = reads_of is"
| "reads_of (ReadReturned r # is) = r # reads_of is"

text \<open>The state of the system seen from a reader that is about to wait.\<close>

definition reader_at :: "stream_config \<Rightarrow> 'ch single_sys \<Rightarrow> u64 option \<Rightarrow> 'ch configured_shared \<Rightarrow> bool" where
  "reader_at options s cached sh \<longleftrightarrow> sy_phase s = Idle \<and> sy_cached s = cached \<and> sy_shared s = sh \<and> shared_ok options s"

definition reader_run ::
  "'ch event_chan_ops \<Rightarrow> stream_config \<Rightarrow> string \<Rightarrow> 'ch single_sys \<Rightarrow> stream_event list \<Rightarrow> 'ch single_sys \<Rightarrow> bool" where
  "reader_run ops options name s evs s' \<longleftrightarrow>
     (single_step ops options name)\<^sup>*\<^sup>* s s' \<and> sy_log s' = sy_log s @ evs \<and> same_subscribers s s'"

lemma reader_run_trans:
  "reader_run ops options name s evs s' \<Longrightarrow> reader_run ops options name s' evs' s'' \<Longrightarrow> reader_run ops options name s (evs @ evs') s''"
  unfolding reader_run_def by (auto intro: rtranclp_trans same_subscribers_trans)

lemma shared_ok_steps:
  assumes "(single_step ops options name)\<^sup>*\<^sup>* s s'" and "config_ok options" and "shared_ok options s"
  shows "shared_ok options s'"
  using assms(1,3) by (induction rule: rtranclp_induct) (auto intro: shared_ok_step [OF _ assms(2)])

lemma send_reliable_steps:
  assumes "config_ok options" and "reader_at options s cached sh" and "log_terminal (sy_log s) = None" and "ev \<noteq> Gap"
    and "send_reliable_event ops ev (config_replay_retention options) sh = Inr (Ready u, cached', sh')"
  shows "\<exists>s'. reader_run ops options name s [ev] s' \<and> reader_at options s' cached' sh'"
proof -
  let ?r = "config_replay_retention options"
  have at: "sy_phase s = Idle" "sy_shared s = sh" "shared_ok options s" using assms(2) by (auto simp: reader_at_def)
  have ok: "ss_ok (sh_state sh)" and t: "ss_terminal_event (sh_state (sy_shared s)) = None"
    using at assms(3) by (auto simp: shared_ok_def Let_def)
  obtain recorded cached1 sh1 where rec: "record_event ev ?r sh = Inr (recorded, cached1, sh1)"
      "deliver_reliable_event ops ev recorded cached1 sh1 = (Ready u, cached', sh')"
    using assms(5) by (auto simp: send_reliable_event_def split: sum.splits)
  let ?s1 = "s\<lparr>sy_shared := sh1, sy_cached := cached1, sy_phase := Sending ev recorded False, sy_log := sy_log s @ [ev]\<rparr>"
  have step: "single_step ops options name s ?s1"
    using s_record [OF at(1) t assms(4)] rec(1) at(2) by simp
  have same: "same_subscribers s ?s1"
    using rec(1) record_event_ok [OF ok config_ok_retention [OF assms(1)], of ev] at(2)
    by (auto simp: same_subscribers_def Let_def split: if_splits)
  obtain s2 where s2: "(single_step ops options name)\<^sup>*\<^sup>* ?s1 s2" "sy_shared s2 = sh'" "sy_cached s2 = cached'"
      "sy_log s2 = sy_log s @ [ev]" "same_subscribers ?s1 s2" "sy_phase s2 = Idle"
    using deliver_steps [of ?s1 ev recorded ops "Ready u" cached' sh' options name] rec(2) by auto
  have steps: "(single_step ops options name)\<^sup>*\<^sup>* s s2" by (rule converse_rtranclp_into_rtranclp [OF step s2(1)])
  have "reader_run ops options name s [ev] s2"
    using steps s2(4) same_subscribers_trans [OF same s2(5)] by (simp add: reader_run_def)
  moreover have "reader_at options s2 cached' sh'"
    using shared_ok_steps [OF steps assms(1) at(3)] s2 by (simp add: reader_at_def)
  ultimately show ?thesis by blast
qed

lemma log_terminal_chunk [simp]: "log_terminal (es @ [Chunk c]) = None" "log_terminal [] = None"
  by (simp_all add: log_terminal_def)

lemma send_reliable_chunks_steps:
  assumes "config_ok options" and "reader_at options s cached sh" and "log_terminal (sy_log s) = None"
    and "send_reliable_chunks ops (config_replay_retention options) (map Chunk cs) (cached, sh) = Inr (Ready u, cached', sh')"
  shows "\<exists>s'. reader_run ops options name s (map Chunk cs) s' \<and> reader_at options s' cached' sh' \<and> log_terminal (sy_log s') = None"
  using assms(2-4)
proof (induction cs arbitrary: s cached sh)
  case Nil
  then show ?case by (intro exI [of _ s]) (auto simp: reader_run_def same_subscribers_def)
next
  case (Cons c cs)
  obtain cached1 sh1 u1 where sent: "send_reliable_event ops (Chunk c) (config_replay_retention options) sh = Inr (Ready u1, cached1, sh1)"
      "send_reliable_chunks ops (config_replay_retention options) (map Chunk cs) (cached1, sh1) = Inr (Ready u, cached', sh')"
    using Cons.prems(3) by (auto split: sum.splits prod.splits poll_result.splits)
  obtain s1 where s1: "reader_run ops options name s [Chunk c] s1" "reader_at options s1 cached1 sh1"
    using send_reliable_steps [OF assms(1) Cons.prems(1,2) _ sent(1)] by blast
  then have "log_terminal (sy_log s1) = None" by (simp add: reader_run_def)
  from Cons.IH [OF s1(2) this sent(2)] obtain s2 where
    "reader_run ops options name s1 (map Chunk cs) s2" "reader_at options s2 cached' sh'" "log_terminal (sy_log s2) = None" by blast
  then show ?case using reader_run_trans [OF s1(1)] by (intro exI [of _ s2]) auto
qed

lemma reader_look:
  assumes "reader_at options s cached sh" and "config_ok options"
  shows "\<exists>s'. reader_run ops options name s [] s' \<and> sy_log s' = sy_log s \<and>
     reader_at options s' (if cached = None then refresh_cached_active sh else cached) (ss_record_bytes_ingested sh n)"
proof -
  let ?s1 = "if cached = None then s\<lparr>sy_cached := refresh_cached_active (sy_shared s)\<rparr> else s"
  let ?s2 = "?s1\<lparr>sy_shared := ss_record_bytes_ingested (sy_shared ?s1) n\<rparr>"
  have "(single_step ops options name)\<^sup>*\<^sup>* s ?s1"
    using assms(1) s_look [of s ops options name] by (auto simp: reader_at_def)
  then have steps: "(single_step ops options name)\<^sup>*\<^sup>* s ?s2"
    using s_ingest [of ops options name ?s1 n] by (rule rtranclp.rtrancl_into_rtrancl)
  show ?thesis
    using steps shared_ok_steps [OF steps assms(2)] assms(1)
    by (intro exI [of _ ?s2]) (auto simp: reader_run_def reader_at_def same_subscribers_def)
qed

lemma reader_look_only:
  assumes "reader_at options s cached sh" and "config_ok options"
  shows "\<exists>s'. reader_run ops options name s [] s' \<and> sy_log s' = sy_log s \<and>
     reader_at options s' (if cached = None then refresh_cached_active sh else cached) sh"
  using reader_look [OF assms, of ops name 0]
  by (simp add: ss_record_bytes_ingested_def record_bytes_ingested_def)

text \<open>A read that returned data: its bytes are counted, then its chunks are published in order.\<close>

lemma reliable_read_data:
  assumes "config_ok options" and "reader_at options s cached sh" and "log_terminal (sy_log s) = None" and "bs \<noteq> []"
    and "read_chunked_reliable ops (read_chunk_size options) (config_replay_retention options) name
      (ReadReturned (Inr bs) # is) (cached, sh) = Inr (Ready u, cached', sh')"
  shows "\<exists>s2 cs cached1 sh1. split_chunks (bytes (read_chunk_size options)) bs = Inr cs \<and>
     reader_run ops options name s (map Chunk cs) s2 \<and> reader_at options s2 cached1 sh1 \<and> log_terminal (sy_log s2) = None \<and>
     read_chunked_reliable ops (read_chunk_size options) (config_replay_retention options) name is (cached1, sh1)
       = Inr (Ready u, cached', sh')"
proof -
  let ?r = "config_replay_retention options" and ?c = "if cached = None then refresh_cached_active sh else cached"
  obtain s1 where s1: "reader_run ops options name s [] s1" "sy_log s1 = sy_log s"
      "reader_at options s1 ?c (ss_record_bytes_ingested sh (length bs))"
    using reader_look [OF assms(2,1)] by blast
  obtain cs u1 cached1 sh1 where cs: "split_chunks (bytes (read_chunk_size options)) bs = Inr cs"
      "send_reliable_chunks ops ?r (map Chunk cs) (?c, ss_record_bytes_ingested sh (length bs)) = Inr (Ready u1, cached1, sh1)"
      "read_chunked_reliable ops (read_chunk_size options) ?r name is (cached1, sh1) = Inr (Ready u, cached', sh')"
    using assms(4,5) by (auto simp: Let_def split: sum.splits prod.splits poll_result.splits)
  obtain s2 where "reader_run ops options name s1 (map Chunk cs) s2" "reader_at options s2 cached1 sh1"
      "log_terminal (sy_log s2) = None"
    using send_reliable_chunks_steps [OF assms(1) s1(3) _ cs(2)] s1(2) assms(3) by auto
  then show ?thesis using reader_run_trans [OF s1(1)] cs(1,3) by fastforce
qed

text \<open>A reader that ended has published exactly the events of what it read.\<close>

lemma reliable_reader_steps:
  assumes "config_ok options" and "reader_at options s cached sh" and "log_terminal (sy_log s) = None"
    and "read_chunked_reliable ops (read_chunk_size options) (config_replay_retention options) name is (cached, sh) = Inr (Ready u, cached', sh')"
  shows "\<exists>s' evs. reader_events name (read_chunk_size options) (reads_of is) = Inr evs \<and> read_terminal name (reads_of is) \<noteq> None \<and>
     reader_run ops options name s evs s' \<and> reader_at options s' cached' sh'"
  using assms(2-4)
proof (induction "is" arbitrary: s cached sh)
  case (Cons i "is")
  let ?r = "config_replay_retention options" and ?c = "if cached = None then refresh_cached_active sh else cached"
  show ?case
  proof (cases i)
    case ActiveChanged
    obtain s1 where s1: "reader_run ops options name s [] s1" "sy_log s1 = sy_log s" "reader_at options s1 ?c sh"
      using reader_look_only [OF Cons.prems(1) assms(1)] by blast
    have loop: "read_chunked_reliable ops (read_chunk_size options) ?r name is (?c, sh) = Inr (Ready u, cached', sh')"
      using Cons.prems(3) ActiveChanged by simp
    from Cons.IH [OF s1(3) _ loop] Cons.prems(2) s1(2) obtain s' evs where
      "reader_events name (read_chunk_size options) (reads_of is) = Inr evs" "read_terminal name (reads_of is) \<noteq> None"
      "reader_run ops options name s1 evs s'" "reader_at options s' cached' sh'" by auto
    then show ?thesis using reader_run_trans [OF s1(1)] ActiveChanged by fastforce
  next
    case (ReadReturned r)
    show ?thesis
    proof (cases r)
      case (Inl err)
      have "send_reliable_event ops (ReadError (StreamReadError name err)) ?r sh = Inr (Ready u, cached', sh')"
        using Cons.prems(3) ReadReturned Inl by simp
      from send_reliable_steps [OF assms(1) Cons.prems(1,2) _ this] show ?thesis using ReadReturned Inl by auto
    next
      case (Inr bs)
      obtain s1 where s1: "reader_run ops options name s [] s1" "sy_log s1 = sy_log s"
          "reader_at options s1 ?c (ss_record_bytes_ingested sh (length bs))"
        using reader_look [OF Cons.prems(1) assms(1)] by blast
      have t1: "log_terminal (sy_log s1) = None" using s1(2) Cons.prems(2) by simp
      show ?thesis
      proof (cases "bs = []")
        case True
        have "send_reliable_event ops Eof ?r (ss_record_bytes_ingested sh (length bs)) = Inr (Ready u, cached', sh')"
          using Cons.prems(3) ReadReturned Inr True by simp
        from send_reliable_steps [OF assms(1) s1(3) t1 _ this, of name] obtain s' where
          "reader_run ops options name s1 [Eof] s'" "reader_at options s' cached' sh'" by auto
        then show ?thesis using reader_run_trans [OF s1(1)] ReadReturned Inr True by fastforce
      next
        case False
        obtain s2 cs cached1 sh1 where cs: "split_chunks (bytes (read_chunk_size options)) bs = Inr cs"
            and s2: "reader_run ops options name s (map Chunk cs) s2" "reader_at options s2 cached1 sh1"
              "log_terminal (sy_log s2) = None"
            and loop: "read_chunked_reliable ops (read_chunk_size options) ?r name is (cached1, sh1) = Inr (Ready u, cached', sh')"
          using reliable_read_data [OF assms(1) Cons.prems(1,2) False] Cons.prems(3) ReadReturned Inr by blast
        from Cons.IH [OF s2(2,3) loop] obtain s' evs where s':
          "reader_events name (read_chunk_size options) (reads_of is) = Inr evs" "read_terminal name (reads_of is) \<noteq> None"
          "reader_run ops options name s2 evs s'" "reader_at options s' cached' sh'" by blast
        then show ?thesis using reader_run_trans [OF s2(1) s'(3)] ReadReturned Inr False cs by auto
      qed
    qed
  qed
qed simp

section \<open>A concrete channel\<close>

definition example_event_chan :: "(stream_event list \<times> nat \<times> bool) event_chan_ops" where
  "example_event_chan =
     \<lparr>ev_channel = (\<lambda>n. ([], n, False)),
      ev_send = (\<lambda>(es, n, g) e. if g then (Ready False, (es, n, g))
                   else if n \<le> length es then (Pending, (es, n, g)) else (Ready True, (es @ [e], n, g))),
      ev_try_send = (\<lambda>(es, n, g) e. if g then (SendClosed, (es, n, g))
                   else if n \<le> length es then (SendFull, (es, n, g)) else (SendOk, (es @ [e], n, g))),
      ev_recv = (\<lambda>(es, n, g). case es of [] \<Rightarrow> (Pending, (es, n, g)) | e # es' \<Rightarrow> (Ready (Some e), (es', n, g))),
      ev_drop_rx = (\<lambda>(es, n, g). (es, n, True))\<rparr>"

lemma example_event_chan_ok: "event_chan_ok example_event_chan fst (snd \<circ> snd) (fst \<circ> snd)"
  by (auto simp: event_chan_ok_def example_event_chan_def split: if_splits list.splits)

definition example_single_config :: "delivery \<Rightarrow> stream_config" where
  "example_single_config d =
     \<lparr>read_chunk_size = NumBytes 4, max_buffered_chunks = 3, config_delivery = d, config_replay = ReplayEnabled RetainAll\<rparr>"

definition example_single :: "(stream_event list \<times> nat \<times> bool) single_sys" where
  "example_single =
     \<lparr>sy_shared = configured_shared_new example_event_chan, sy_cached = None, sy_phase = Idle, sy_log = [],
      sy_start = (\<lambda>_. 0), sy_snap = (\<lambda>_. []), sy_sent = (\<lambda>_. []), sy_recd = (\<lambda>_. [])\<rparr>"

lemma example_single_config_ok: "config_ok (example_single_config d)"
  by (simp add: config_ok_def example_single_config_def config_replay_retention_def retention_ok_def)

section \<open>Properties of reliable delivery\<close>

text \<open>C11: with reliable delivery to a single subscriber, in every interleaving of reading, subscribing,
  receiving, dropping a subscription, sealing and dropping the stream, a subscriber whose receiver
  exists has received, followed by what is still in its channel, a contiguous block of the recorded
  events: nothing is lost, duplicated or reordered.  The block starts where its replayed events end;
  only a subscriber that had nothing to replay may also get the one event that was being delivered
  when it attached.  While no event is being delivered, the active subscriber has been sent everything
  up to the last event.\<close>

theorem single_reliable_gap_free:
  assumes "event_chan_ok ops contents gone capacity" and "config_ok options" and "single_reachable ops options name s"
    and "a < sy_next s" and "\<not> gone (sy_chan s a)"
  shows "\<exists>k n. k \<le> n \<and> n \<le> length (sy_log s) \<and>
     sy_recd s a @ contents (sy_chan s a) = drop k (take n (sy_log s)) \<and>
     (k = sy_start s a \<or> Suc k = sy_start s a \<and> sy_snap s a = []) \<and>
     (sy_phase s = Idle \<and> active_tx (sy_shared s) = Some a \<longrightarrow> n = length (sy_log s))"
proof -
  have ok: "phase_ok gone options s" "blocks_ok s" "received_ok contents gone s"
    using single_reachable_ok [OF assms(3,2,1)] by auto
  have recd: "sy_recd s a @ contents (sy_chan s a) = sy_sent s a"
    using ok(3) assms(4,5) by (simp add: received_ok_def)
  show ?thesis
  proof (cases "sy_phase s = Idle \<and> active_tx (sy_shared s) = Some a")
    case True
    then have "sent_upto s a (length (sy_log s))" using ok(1) assms(5) by (auto simp: phase_ok_def)
    then show ?thesis using recd unfolding sent_upto_def by (metis order_refl)
  next
    case False
    obtain n where "n \<le> length (sy_log s)" "sent_upto s a n" using ok(2) assms(4) by (auto simp: blocks_ok_def)
    then show ?thesis using recd False unfolding sent_upto_def by metis
  qed
qed

text \<open>A subscriber attaches, then the pipe delivers five bytes and ends.\<close>

lemma example_single_run:
  "\<exists>s. single_reachable example_event_chan (example_single_config ReliableMarker) ''stdout'' s \<and> sy_next s = 1 \<and> sy_start s 0 = 0 \<and>
     sy_log s = [Chunk ''abcd'', Chunk ''e'', Eof] \<and> sy_phase s = Idle \<and> active_tx (sy_shared s) = Some 0 \<and> \<not> snd (snd (sy_chan s 0))"
proof -
  let ?o = "example_single_config ReliableMarker" and ?n = "''stdout''"
  let ?sub = "single_try_subscribe example_event_chan ?o ?n (sy_shared example_single)"
  let ?sh = "snd (projr ?sub)"
  let ?is = "[ReadReturned (Inr ''abcde''), ReadReturned (Inr [])]"
  note defs = example_single_def configured_shared_new_def single_try_subscribe_def attach_subscriber_def snapshot_events_def
    put_chan_def Let_def replay_state_new_def example_single_config_def config_replay_retention_def
  have sub: "?sub = Inr (fst (projr ?sub), ?sh)" "ssub_id (fst (projr ?sub)) = 0" "active_tx ?sh = Some 0"
    "ss_next_subscriber_id (sh_state ?sh) = 1"
    by (simp_all add: defs)
  define s1 where "s1 = example_single\<lparr>sy_shared := ?sh, sy_start := (sy_start example_single)(0 := 0),
     sy_snap := (sy_snap example_single)(0 := ssub_replay (fst (projr ?sub)) @ (case ssub_terminal_event (fst (projr ?sub)) of None \<Rightarrow> [] | Some t \<Rightarrow> [t])),
     sy_sent := (sy_sent example_single)(0 := []), sy_recd := (sy_recd example_single)(0 := [])\<rparr>"
  have init: "single_reachable example_event_chan ?o ?n example_single"
    by (rule single_init) (simp add: single_initial_def example_single_def)
  have r1: "single_reachable example_event_chan ?o ?n s1"
    using single_next [OF init s_subscribe [OF sub(1)]] sub(2) by (simp add: s1_def example_single_def)
  have at1: "reader_at ?o s1 None (sy_shared s1)" "log_terminal (sy_log s1) = None"
    using single_reachable_ok [OF r1 example_single_config_ok example_event_chan_ok]
    by (simp_all add: reader_at_def s1_def example_single_def)
  obtain u cached' sh' where run: "read_chunked_reliable example_event_chan (read_chunk_size ?o) (config_replay_retention ?o) ?n ?is (None, sy_shared s1)
      = Inr (Ready u, cached', sh')" "active_tx sh' = Some 0" "\<not> snd (snd (sh_chans sh' 0))"
    by (simp add: s1_def defs split_chunks.simps send_reliable_event_def record_event_def push_replay_event_def push_retained_event_def
        ss_trim_replay_window_def refresh_cached_active_def deliver_reliable_event_def deliver_reliable_loop.simps
        example_event_chan_def ss_record_bytes_ingested_def)
  obtain s' evs where s': "reader_events ?n (read_chunk_size ?o) (reads_of ?is) = Inr evs"
      "reader_run example_event_chan ?o ?n s1 evs s'" "reader_at ?o s' cached' sh'"
    using reliable_reader_steps [OF example_single_config_ok at1 run(1)] by blast
  have "evs = [Chunk ''abcd'', Chunk ''e'', Eof]"
    using s'(1) by (simp add: example_single_config_def split_chunks.simps)
  then show ?thesis
    using s'(2,3) run(2,3) single_steps_reachable [OF _ r1] sub(4)
    by (intro exI [of _ s']) (auto simp: reader_run_def reader_at_def same_subscribers_def s1_def example_single_def)
qed

theorem single_reliable_gap_free_witness:
  "\<exists>s. single_reachable example_event_chan (example_single_config ReliableMarker) ''stdout'' s \<and>
     sy_recd s 0 @ fst (sy_chan s 0) = [Chunk ''abcd'', Chunk ''e'', Eof]"
proof -
  obtain s where s: "single_reachable example_event_chan (example_single_config ReliableMarker) ''stdout'' s" "sy_next s = 1" "sy_start s 0 = 0"
     "sy_log s = [Chunk ''abcd'', Chunk ''e'', Eof]" "sy_phase s = Idle" "active_tx (sy_shared s) = Some 0" "\<not> snd (snd (sy_chan s 0))"
    using example_single_run by blast
  obtain k n where "sy_recd s 0 @ fst (sy_chan s 0) = drop k (take n (sy_log s))" "k = sy_start s 0 \<or> Suc k = sy_start s 0 \<and> sy_snap s 0 = []"
      "sy_phase s = Idle \<and> active_tx (sy_shared s) = Some 0 \<longrightarrow> n = length (sy_log s)"
    using single_reliable_gap_free [OF example_event_chan_ok example_single_config_ok s(1), of 0] s(2,7) by auto
  then show ?thesis using s by (intro exI [of _ s]) auto
qed

text \<open>C27: at most one subscriber is active, and it starts from the right place: subscribing is refused
  exactly while another subscriber is registered; otherwise the new subscriber is given exactly the
  configured window of the chunks recorded so far (nothing once replay is sealed) and the terminal
  event if the stream has ended, it is registered under the state lock, and from then on every
  further attempt is refused.\<close>

theorem single_subscriber_snapshot:
  assumes "event_chan_ok ops contents gone capacity" and "config_ok options" and "single_reachable ops options name s"
  shows "(single_try_subscribe ops options name (sy_shared s) = Inl (ActiveConsumer name) \<longleftrightarrow> active_tx (sy_shared s) \<noteq> None) \<and>
     (\<forall>sub sh. single_try_subscribe ops options name (sy_shared s) = Inr (sub, sh) \<longrightarrow>
        ssub_replay sub = (if single_is_replay_sealed (sy_shared s) then []
          else map Chunk (window_spec (config_replay_retention options) (event_chunks (sy_log s)))) \<and>
        ssub_terminal_event sub = log_terminal (sy_log s) \<and>
        active_tx sh = Some (ssub_id sub) \<and> ssub_id sub = sy_next s \<and>
        single_try_subscribe ops options name sh = Inl (ActiveConsumer name))"
proof -
  let ?st = "sh_state (sy_shared s)"
  have ok: "ss_ok ?st" "active_id ?st = active_tx (sy_shared s)" "ss_terminal_event ?st = log_terminal (sy_log s)"
    "ss_window ?st = (if ss_replay_sealed ?st then [] else window_spec (config_replay_retention options) (event_chunks (sy_log s)))"
    using single_reachable_ok [OF assms(3,2,1)] by (auto simp: shared_ok_def Let_def)
  have events: "ss_events ?st = map Chunk (ss_window ?st)" using ok(1) chunks_payload [of "ss_events ?st"] by (simp add: ss_ok_def)
  show ?thesis
  proof (intro conjI allI impI)
    show "single_try_subscribe ops options name (sy_shared s) = Inl (ActiveConsumer name) \<longleftrightarrow> active_tx (sy_shared s) \<noteq> None"
      using ok(2) by (auto simp: single_try_subscribe_def Let_def attach_subscriber_def)
    fix sub sh
    assume "single_try_subscribe ops options name (sy_shared s) = Inr (sub, sh)"
    note sub = subscribe_ok [OF this]
    show "ssub_replay sub = (if single_is_replay_sealed (sy_shared s) then []
          else map Chunk (window_spec (config_replay_retention options) (event_chunks (sy_log s))))"
      using sub(3) events ok(4) by (auto simp: single_is_replay_sealed_def)
    show "ssub_terminal_event sub = log_terminal (sy_log s)" "active_tx sh = Some (ssub_id sub)" "ssub_id sub = sy_next s"
      using sub ok(3) by simp_all
    show "single_try_subscribe ops options name sh = Inl (ActiveConsumer name)"
      using sub(5) by (simp add: single_try_subscribe_def Let_def)
  qed
qed

theorem single_subscriber_snapshot_witness:
  "\<exists>s. single_reachable example_event_chan (example_single_config ReliableMarker) ''stdout'' s \<and>
     sy_log s = [Chunk ''abcd'', Chunk ''e'', Eof] \<and>
     single_try_subscribe example_event_chan (example_single_config ReliableMarker) ''stdout'' (sy_shared s) = Inl (ActiveConsumer ''stdout'')"
proof -
  obtain s where s: "single_reachable example_event_chan (example_single_config ReliableMarker) ''stdout'' s"
     "sy_log s = [Chunk ''abcd'', Chunk ''e'', Eof]" "active_tx (sy_shared s) = Some 0"
    using example_single_run by blast
  then show ?thesis
    using single_subscriber_snapshot [OF example_event_chan_ok example_single_config_ok s(1), THEN conjunct1]
    by (intro exI [of _ s]) simp
qed

end
