(* ===== verification/Single_Stream.thy ===== *)
theory Single_Stream
  imports Single_Reliable Wait_Line
begin

text \<open>
  The rest of \<open>single_subscriber/mod.rs\<close>: the accessors of the stream and \<open>wait_for_line\<close>, and what the
  best-effort reader does to replay.
\<close>

definition single_read_chunk_size :: "'ch single_stream \<Rightarrow> num_bytes" where
  "single_read_chunk_size s = read_chunk_size (single_options s)"

definition single_max_buffered_chunks :: "'ch single_stream \<Rightarrow> usize" where
  "single_max_buffered_chunks s = max_buffered_chunks (single_options s)"

definition single_replay_enabled :: "'ch single_stream \<Rightarrow> bool" where
  "single_replay_enabled s = config_replay_enabled (single_options s)"

definition single_replay_retention :: "'ch single_stream \<Rightarrow> replay_retention option" where
  "single_replay_retention s = config_replay_retention (single_options s)"

text \<open>\<open>wait_for_line\<close> first takes the stream's only subscription, or reports the active consumer; \<open>events\<close> is
  what that subscription delivers before the timeout.  The stream returned is the one whose claim the waiter
  holds while its future runs.\<close>

definition single_wait_for_line ::
  "'ch event_chan_ops \<Rightarrow> byte_deps \<Rightarrow> 'ch single_stream \<Rightarrow> (bytes \<Rightarrow> bool) \<Rightarrow> line_parsing_options
   \<Rightarrow> stream_event option list
   \<Rightarrow> stream_consumer_error + (stream_read_error + wait_for_line_result) outcome \<times> 'ch single_stream" where
  "single_wait_for_line ops d s predicate options events =
     (case single_try_subscribe ops (single_options s) (single_name s) (single_shared s) of
        Inl e \<Rightarrow> Inl e
      | Inr (_, sh) \<Rightarrow> Inr (stream_wait_for_line d predicate options events, s\<lparr>single_shared := sh\<rparr>))"

lemma single_wait_for_line_refused:
  "active_id (sh_state (single_shared s)) \<noteq> None \<Longrightarrow>
   single_wait_for_line ops d s predicate options events = Inl (ActiveConsumer (single_name s))"
  by (simp add: single_wait_for_line_def single_try_subscribe_def)

section \<open>What a lossy reader leaves out of replay\<close>

text \<open>A lossy stream with room for one event that retains everything, with a subscriber attached that does
  not receive.\<close>

definition hole_config :: stream_config where
  "hole_config = \<lparr>read_chunk_size = NumBytes 2, max_buffered_chunks = 1, config_delivery = LossyMarker,
     config_replay = ReplayEnabled RetainAll\<rparr>"

definition hole_stream :: "(stream_event list \<times> nat \<times> bool) single_stream" where
  "hole_stream = \<lparr>single_options = hole_config,
     single_shared = snd (projr (single_try_subscribe example_event_chan hole_config ''stdout''
       (configured_shared_new example_event_chan))), single_name = ''stdout''\<rparr>"

lemma gap_refused:
  assumes "gap_pending (observe_active lag (Some sid))" and "ev_try_send ops (sh_chans sh sid) Gap = (SendFull, ch)"
    and "bs \<noteq> []" and "0 < bytes csize"
  shows "\<exists>lag'. best_effort_chunks ops csize retention bs (lag, Some sid, sh) = Inr (lag', Some sid, put_chan sh sid ch) \<and>
    gap_pending (observe_active lag' (Some sid))"
proof -
  have "try_send_best_effort_event ops Gap retention False (Some sid) sh = Inr (ChannelFull, Some sid, put_chan sh sid ch)"
    using assms(2) unfolding try_send_best_effort_event_def by (subst try_send_loop.simps) simp
  moreover define lag' where "lag' = (observe_active lag (Some sid))\<lparr>lagged := lagged (observe_active lag (Some sid)) +
      div_ceil (length bs) (bytes csize)\<rparr>"
  ultimately have "send_pending_gap ops csize retention (length bs) (observe_active lag (Some sid), Some sid, sh)
      = Inr (False, lag', Some sid, put_chan sh sid ch)"
    using assms(1,4) by (simp add: send_pending_gap_def buffered_chunk_count_def)
  then have "best_effort_chunks ops csize retention bs (lag, Some sid, sh) = Inr (lag', Some sid, put_chan sh sid ch)"
    using assms(3) by (subst best_effort_chunks.simps) simp
  moreover have "gap_pending (observe_active lag' (Some sid))"
    using assms(1) unfolding lag'_def by (simp add: observe_active_def split: if_splits)
  ultimately show ?thesis by blast
qed

text \<open>C38: A lossy single-subscriber stream loses bytes from its replay history.  For every channel, every
  configuration, retaining all output included, and every state of the reader in which a gap is to be
  marked for the active subscriber and the marker finds no room: whatever the next read returns is counted as
  ingested, but the replay state is left as it was, the gap stays to be marked, and a subscriber that
  attaches when the active one has gone replays the history without these bytes.\<close>

theorem lossy_replay_hole:
  assumes "config_ok options" and "gap_pending (observe_active lag (Some sid))"
    and "ev_try_send ops (sh_chans sh sid) Gap = (SendFull, ch)" and "bs \<noteq> []" and "active_id (sh_state sh) = Some sid"
  shows "\<exists>lag' sh'. read_chunked_best_effort ops (read_chunk_size options) (config_replay_retention options) name
       [ReadReturned (Inr bs)] (lag, Some sid, sh) = Inr (Pending, lag', Some sid, sh') \<and>
     sh_bytes_ingested sh' = saturating_add (sh_bytes_ingested sh) (length bs) \<and>
     sh_state sh' = sh_state sh \<and> gap_pending (observe_active lag' (Some sid)) \<and>
     (\<exists>sub sh2. single_try_subscribe ops options name (clear_active_if_current sh' sid) = Inr (sub, sh2) \<and>
        ssub_replay sub = (if ss_replay_sealed (sh_state sh) \<or> config_replay_retention options = None then [] else ss_events (sh_state sh)))"
proof -
  let ?sh = "ss_record_bytes_ingested sh (length bs)"
  have "0 < bytes (read_chunk_size options)" using assms(1) by (simp add: config_ok_def)
  moreover have "ev_try_send ops (sh_chans ?sh sid) Gap = (SendFull, ch)" using assms(3) by (simp add: ss_record_bytes_ingested_def)
  ultimately obtain lag' where lag': "best_effort_chunks ops (read_chunk_size options) (config_replay_retention options) bs (lag, Some sid, ?sh)
      = Inr (lag', Some sid, put_chan ?sh sid ch)" "gap_pending (observe_active lag' (Some sid))"
    using gap_refused [OF assms(2), of ops ?sh ch bs "read_chunk_size options" "config_replay_retention options"] assms(4) by blast
  have sh': "sh_state (put_chan ?sh sid ch) = sh_state sh"
    "sh_bytes_ingested (put_chan ?sh sid ch) = saturating_add (sh_bytes_ingested sh) (length bs)"
    using assms(4) by (simp_all add: put_chan_def ss_record_bytes_ingested_def record_bytes_ingested_def)
  have "\<exists>sub sh2. single_try_subscribe ops options name (clear_active_if_current (put_chan ?sh sid ch) sid) = Inr (sub, sh2) \<and>
      ssub_replay sub = (if ss_replay_sealed (sh_state sh) \<or> config_replay_retention options = None then [] else ss_events (sh_state sh))"
    using assms(5) sh'(1) by (simp add: single_try_subscribe_def clear_active_if_current_def snapshot_events_def attach_subscriber_def Let_def)
  then show ?thesis using lag' sh' assms(4) by (intro exI [of _ lag'] exI [of _ "put_chan ?sh sid ch"]) simp
qed

text \<open>A run in which this happens: the stream retains everything and reads ab, cd and ef while its subscriber
  does not receive.  ab fills the channel, cd is lost to the subscriber but recorded, and ef is recorded
  nowhere.\<close>

theorem lossy_replay_hole_witness:
  "config_replay_retention hole_config = Some RetainAll \<and>
   (\<exists>lag sh lag' sh' sub sh2. read_chunked_best_effort example_event_chan (read_chunk_size hole_config) (config_replay_retention hole_config) ''stdout''
        [ReadReturned (Inr ''ab''), ReadReturned (Inr ''cd'')]
        (observe_active best_effort_lag_default (Some 0), Some 0, single_shared hole_stream) = Inr (Pending, lag, Some 0, sh) \<and>
      read_chunked_best_effort example_event_chan (read_chunk_size hole_config) (config_replay_retention hole_config) ''stdout''
        [ReadReturned (Inr ''ef'')] (lag, Some 0, sh) = Inr (Pending, lag', Some 0, sh') \<and>
      sh_bytes_ingested sh' = 6 \<and>
      single_try_subscribe example_event_chan hole_config ''stdout'' (clear_active_if_current sh' 0) = Inr (sub, sh2) \<and>
      ssub_replay sub = [Chunk ''ab'', Chunk ''cd''])"
proof -
  note defs = hole_stream_def hole_config_def single_try_subscribe_def configured_shared_new_def
    attach_subscriber_def replay_state_new_def put_chan_def config_replay_retention_def
    refresh_cached_active_def example_event_chan_def Let_def
  have ok: "config_ok hole_config" "config_replay_retention hole_config = Some RetainAll"
    by (simp_all add: hole_config_def config_ok_def config_replay_retention_def retention_ok_def)
  have "\<exists>lag sh. read_chunked_best_effort example_event_chan (read_chunk_size hole_config) (config_replay_retention hole_config) ''stdout''
        [ReadReturned (Inr ''ab''), ReadReturned (Inr ''cd'')]
        (observe_active best_effort_lag_default (Some 0), Some 0, single_shared hole_stream) = Inr (Pending, lag, Some 0, sh) \<and>
      gap_pending (observe_active lag (Some 0)) \<and> ev_try_send example_event_chan (sh_chans sh 0) Gap = (SendFull, [Chunk ''ab''], 1, False) \<and>
      sh_bytes_ingested sh = 4 \<and> ss_events (sh_state sh) = [Chunk ''ab'', Chunk ''cd''] \<and>
      active_id (sh_state sh) = Some 0 \<and> \<not> ss_replay_sealed (sh_state sh)"
    by (simp add: defs best_effort_chunks.simps try_send_loop.simps send_chunk_def send_pending_gap_def
        try_send_best_effort_event_def record_event_def push_replay_event_def push_retained_event_def
        ss_trim_replay_window_def observe_active_def best_effort_lag_default_def log_if_lagged_def
        ss_record_bytes_ingested_def record_bytes_ingested_def buffered_chunk_count_def
        saturating_add_def usize_max_def)
  then obtain lag sh where sh: "read_chunked_best_effort example_event_chan (read_chunk_size hole_config) (config_replay_retention hole_config) ''stdout''
        [ReadReturned (Inr ''ab''), ReadReturned (Inr ''cd'')]
        (observe_active best_effort_lag_default (Some 0), Some 0, single_shared hole_stream) = Inr (Pending, lag, Some 0, sh)"
      "gap_pending (observe_active lag (Some 0))" "ev_try_send example_event_chan (sh_chans sh 0) Gap = (SendFull, [Chunk ''ab''], 1, False)"
      "sh_bytes_ingested sh = 4" "ss_events (sh_state sh) = [Chunk ''ab'', Chunk ''cd'']"
      "active_id (sh_state sh) = Some 0" "\<not> ss_replay_sealed (sh_state sh)" by blast
  from lossy_replay_hole [OF ok(1) sh(2,3) _ sh(6), of "''ef''" "''stdout''"] obtain lag' sh' sub sh2 where
    "read_chunked_best_effort example_event_chan (read_chunk_size hole_config) (config_replay_retention hole_config) ''stdout''
        [ReadReturned (Inr ''ef'')] (lag, Some 0, sh) = Inr (Pending, lag', Some 0, sh')"
    "sh_bytes_ingested sh' = saturating_add (sh_bytes_ingested sh) (length ''ef'')"
    "single_try_subscribe example_event_chan hole_config ''stdout'' (clear_active_if_current sh' 0) = Inr (sub, sh2)"
    "ssub_replay sub = [Chunk ''ab'', Chunk ''cd'']"
    using ok(2) sh(5,7) by (auto simp del: read_chunked_best_effort.simps)
  then show ?thesis using ok(2) sh(1,4) by (intro conjI exI [of _ lag] exI [of _ sh] exI [of _ lag'] exI [of _ sh'] exI [of _ sub] exI [of _ sh2])
      (simp_all add: saturating_add_def usize_max_def del: read_chunked_best_effort.simps)
qed

end
