(* ===== verification/Single_Best_Effort.thy ===== *)
theory Single_Best_Effort
  imports Single_Reliable
begin

text \<open>
  Best-effort delivery of the single-subscriber backend under concurrency.  As in \<open>Single_Reliable\<close> the
  reader task is taken apart where another task can run; here this is \<open>read_chunked_best_effort\<close>: the
  attempt to send a pending gap marker, recording a chunk under the state lock, each attempt to send it,
  unregistering a subscriber whose receiver is gone and looking up the active one again, and, at the end
  of the stream, the gap marker and the terminal event, for which the reader waits.  \<open>lossy_step\<close>
  interleaves these with subscribing, receiving, dropping a subscription (first its receiver, then its
  registration), sealing and dropping the stream.

  The ghost log lists the pieces the reader took from the pipe, in order, whether or not they reached
  anybody; a buffer that is thrown away is logged as the chunks it would have been cut into.  The
  properties say that a subscriber sees the log from where it attached with every loss marked by a gap.
\<close>

section \<open>Interleavings\<close>

text \<open>What the reader goes on with after a failed send.\<close>

datatype after_refusal =
    AfterGap bytes
  | AfterChunk bytes stream_event bool bool
  | AfterFinalGap stream_event bool
  | AfterFinal stream_event bool bool

text \<open>\<open>Buffered\<close> is the head of the chunk loop with what is left in the buffer; with an empty buffer the
  reader waits for the pipe or for a subscriber.\<close>

datatype lossy_phase =
    Buffered bytes
  | Splitting bytes
  | Trying bytes stream_event bool bool
  | FinalGap stream_event bool
  | Final stream_event bool bool
  | Refused after_refusal u64
  | LookAgain after_refusal
  | Ended

record 'ch lossy_sys =
  ly_shared :: "'ch configured_shared"
  ly_cached :: "u64 option"
  ly_lag :: best_effort_lag
  ly_phase :: lossy_phase
  ly_log :: "stream_event list"
  ly_start :: "u64 \<Rightarrow> nat"
  ly_snap :: "u64 \<Rightarrow> stream_event list"
  ly_term :: "u64 \<Rightarrow> stream_event option"
  ly_sent :: "u64 \<Rightarrow> stream_event list"
  ly_recd :: "u64 \<Rightarrow> stream_event list"
  ly_rx_dropped :: "u64 set"
  ly_stream_dropped :: bool

abbreviation ly_chan :: "'ch lossy_sys \<Rightarrow> u64 \<Rightarrow> 'ch" where
  "ly_chan s a \<equiv> sh_chans (ly_shared s) a"

abbreviation ly_next :: "'ch lossy_sys \<Rightarrow> u64" where
  "ly_next s \<equiv> ss_next_subscriber_id (sh_state (ly_shared s))"

abbreviation ly_active :: "'ch lossy_sys \<Rightarrow> u64 option" where
  "ly_active s \<equiv> active_tx (ly_shared s)"

fun resume :: "after_refusal \<Rightarrow> best_effort_lag \<Rightarrow> u64 option \<Rightarrow> best_effort_lag \<times> lossy_phase" where
  "resume (AfterGap buf) lag cached = (observe_active lag cached, Splitting buf)"
| "resume (AfterChunk buf ev recorded retried) lag cached =
     (if recorded \<or> retried then (observe_active lag cached, Buffered buf) else (lag, Trying buf ev recorded True))"
| "resume (AfterFinalGap ev recorded) lag cached = (observe_active lag cached, Final ev recorded False)"
| "resume (AfterFinal ev recorded retried) lag cached =
     (lag, if recorded \<or> retried then Ended else Final ev recorded True)"

inductive lossy_step :: "'ch event_chan_ops \<Rightarrow> stream_config \<Rightarrow> string \<Rightarrow> 'ch lossy_sys \<Rightarrow> 'ch lossy_sys \<Rightarrow> bool"
  for ops options name where
  l_look: "ly_phase s = Buffered [] \<Longrightarrow> ly_cached s = None \<Longrightarrow> cached = refresh_cached_active (ly_shared s) \<Longrightarrow>
     lossy_step ops options name s (s\<lparr>ly_cached := cached, ly_lag := observe_active (ly_lag s) cached\<rparr>)"
| l_read: "ly_phase s = Buffered [] \<Longrightarrow>
     lossy_step ops options name s
       (s\<lparr>ly_shared := ss_record_bytes_ingested (ly_shared s) (length bs), ly_phase := Buffered bs\<rparr>)"
| l_no_gap: "ly_phase s = Buffered buf \<Longrightarrow> buf \<noteq> [] \<Longrightarrow> lag = observe_active (ly_lag s) (ly_cached s) \<Longrightarrow> \<not> gap_pending lag \<Longrightarrow>
     lossy_step ops options name s (s\<lparr>ly_lag := lag, ly_phase := Splitting buf\<rparr>)"
| l_gap_inactive: "ly_phase s = Buffered buf \<Longrightarrow> buf \<noteq> [] \<Longrightarrow> lag = observe_active (ly_lag s) (ly_cached s) \<Longrightarrow> gap_pending lag \<Longrightarrow>
     ly_cached s = None \<Longrightarrow>
     lossy_step ops options name s (s\<lparr>ly_lag := observe_active lag None, ly_phase := Splitting buf\<rparr>)"
| l_gap_sent: "ly_phase s = Buffered buf \<Longrightarrow> buf \<noteq> [] \<Longrightarrow> lag = observe_active (ly_lag s) (ly_cached s) \<Longrightarrow> gap_pending lag \<Longrightarrow>
     ly_cached s = Some sid \<Longrightarrow> ev_try_send ops (ly_chan s sid) Gap = (SendOk, ch) \<Longrightarrow>
     lossy_step ops options name s
       (s\<lparr>ly_shared := put_chan (ly_shared s) sid ch, ly_lag := (log_if_lagged lag)\<lparr>gap_pending := False\<rparr>,
          ly_phase := Splitting buf, ly_sent := (ly_sent s)(sid := ly_sent s sid @ [Gap])\<rparr>)"
| l_gap_full: "ly_phase s = Buffered buf \<Longrightarrow> buf \<noteq> [] \<Longrightarrow> lag = observe_active (ly_lag s) (ly_cached s) \<Longrightarrow> gap_pending lag \<Longrightarrow>
     ly_cached s = Some sid \<Longrightarrow> ev_try_send ops (ly_chan s sid) Gap = (SendFull, ch) \<Longrightarrow>
     buffered_chunk_count (length buf) (read_chunk_size options) = Inr n \<Longrightarrow>
     split_chunks (bytes (read_chunk_size options)) buf = Inr cs \<Longrightarrow>
     lossy_step ops options name s
       (s\<lparr>ly_shared := put_chan (ly_shared s) sid ch, ly_lag := lag\<lparr>lagged := lagged lag + n\<rparr>,
          ly_phase := Buffered [], ly_log := ly_log s @ map Chunk cs\<rparr>)"
| l_gap_closed: "ly_phase s = Buffered buf \<Longrightarrow> buf \<noteq> [] \<Longrightarrow> lag = observe_active (ly_lag s) (ly_cached s) \<Longrightarrow> gap_pending lag \<Longrightarrow>
     ly_cached s = Some sid \<Longrightarrow> ev_try_send ops (ly_chan s sid) Gap = (SendClosed, ch) \<Longrightarrow>
     lossy_step ops options name s
       (s\<lparr>ly_shared := put_chan (ly_shared s) sid ch, ly_lag := lag, ly_phase := Refused (AfterGap buf) sid\<rparr>)"
| l_record: "ly_phase s = Splitting buf \<Longrightarrow> split_to = min (bytes (read_chunk_size options)) (length buf) \<Longrightarrow> split_to \<noteq> 0 \<Longrightarrow>
     ev = Chunk (take split_to buf) \<Longrightarrow>
     record_event ev (config_replay_retention options) (ly_shared s) = Inr (recorded, cached, sh) \<Longrightarrow>
     lossy_step ops options name s
       (s\<lparr>ly_shared := sh, ly_cached := cached, ly_phase := Trying (drop split_to buf) ev recorded False,
          ly_log := ly_log s @ [ev]\<rparr>)"
| l_try_inactive: "ly_phase s = Trying buf ev recorded retried \<Longrightarrow> ly_cached s = None \<Longrightarrow>
     lossy_step ops options name s (s\<lparr>ly_lag := observe_active (ly_lag s) None, ly_phase := Buffered buf\<rparr>)"
| l_try_sent: "ly_phase s = Trying buf ev recorded retried \<Longrightarrow> ly_cached s = Some sid \<Longrightarrow>
     ev_try_send ops (ly_chan s sid) ev = (SendOk, ch) \<Longrightarrow>
     lossy_step ops options name s
       (s\<lparr>ly_shared := put_chan (ly_shared s) sid ch, ly_lag := log_if_lagged (ly_lag s), ly_phase := Buffered buf,
          ly_sent := (ly_sent s)(sid := ly_sent s sid @ [ev])\<rparr>)"
| l_try_full: "ly_phase s = Trying buf ev recorded retried \<Longrightarrow> ly_cached s = Some sid \<Longrightarrow>
     ev_try_send ops (ly_chan s sid) ev = (SendFull, ch) \<Longrightarrow>
     lossy_step ops options name s
       (s\<lparr>ly_shared := put_chan (ly_shared s) sid ch,
          ly_lag := (ly_lag s)\<lparr>lagged := lagged (ly_lag s) + 1, gap_pending := True\<rparr>, ly_phase := Buffered buf\<rparr>)"
| l_try_closed: "ly_phase s = Trying buf ev recorded retried \<Longrightarrow> ly_cached s = Some sid \<Longrightarrow>
     ev_try_send ops (ly_chan s sid) ev = (SendClosed, ch) \<Longrightarrow>
     lossy_step ops options name s
       (s\<lparr>ly_shared := put_chan (ly_shared s) sid ch, ly_phase := Refused (AfterChunk buf ev recorded retried) sid\<rparr>)"
| l_end: "ly_phase s = Buffered [] \<Longrightarrow> is_terminal ev \<Longrightarrow>
     record_event ev (config_replay_retention options) (ly_shared s) = Inr (recorded, cached, sh) \<Longrightarrow>
     lossy_step ops options name s
       (s\<lparr>ly_shared := sh, ly_cached := cached, ly_lag := observe_active (ly_lag s) cached, ly_phase := FinalGap ev recorded,
          ly_log := ly_log s @ [ev]\<rparr>)"
| l_final_no_gap: "ly_phase s = FinalGap ev recorded \<Longrightarrow> \<not> gap_pending (ly_lag s) \<Longrightarrow>
     lossy_step ops options name s (s\<lparr>ly_phase := Final ev recorded False\<rparr>)"
| l_final_gap_inactive: "ly_phase s = FinalGap ev recorded \<Longrightarrow> gap_pending (ly_lag s) \<Longrightarrow> ly_cached s = None \<Longrightarrow>
     lossy_step ops options name s (s\<lparr>ly_lag := observe_active (ly_lag s) None, ly_phase := Final ev recorded False\<rparr>)"
| l_final_gap_sent: "ly_phase s = FinalGap ev recorded \<Longrightarrow> gap_pending (ly_lag s) \<Longrightarrow> ly_cached s = Some sid \<Longrightarrow>
     ev_send ops (ly_chan s sid) Gap = (Ready True, ch) \<Longrightarrow>
     lossy_step ops options name s
       (s\<lparr>ly_shared := put_chan (ly_shared s) sid ch, ly_lag := (log_if_lagged (ly_lag s))\<lparr>gap_pending := False\<rparr>,
          ly_phase := Final ev recorded False, ly_sent := (ly_sent s)(sid := ly_sent s sid @ [Gap])\<rparr>)"
| l_final_gap_blocked: "ly_phase s = FinalGap ev recorded \<Longrightarrow> gap_pending (ly_lag s) \<Longrightarrow> ly_cached s = Some sid \<Longrightarrow>
     ev_send ops (ly_chan s sid) Gap = (Pending, ch) \<Longrightarrow>
     lossy_step ops options name s (s\<lparr>ly_shared := put_chan (ly_shared s) sid ch\<rparr>)"
| l_final_gap_closed: "ly_phase s = FinalGap ev recorded \<Longrightarrow> gap_pending (ly_lag s) \<Longrightarrow> ly_cached s = Some sid \<Longrightarrow>
     ev_send ops (ly_chan s sid) Gap = (Ready False, ch) \<Longrightarrow>
     lossy_step ops options name s
       (s\<lparr>ly_shared := put_chan (ly_shared s) sid ch, ly_phase := Refused (AfterFinalGap ev recorded) sid\<rparr>)"
| l_final_inactive: "ly_phase s = Final ev recorded retried \<Longrightarrow> ly_cached s = None \<Longrightarrow>
     lossy_step ops options name s (s\<lparr>ly_phase := Ended\<rparr>)"
| l_final_sent: "ly_phase s = Final ev recorded retried \<Longrightarrow> ly_cached s = Some sid \<Longrightarrow>
     ev_send ops (ly_chan s sid) ev = (Ready True, ch) \<Longrightarrow>
     lossy_step ops options name s
       (s\<lparr>ly_shared := put_chan (ly_shared s) sid ch, ly_phase := Ended, ly_sent := (ly_sent s)(sid := ly_sent s sid @ [ev])\<rparr>)"
| l_final_blocked: "ly_phase s = Final ev recorded retried \<Longrightarrow> ly_cached s = Some sid \<Longrightarrow>
     ev_send ops (ly_chan s sid) ev = (Pending, ch) \<Longrightarrow>
     lossy_step ops options name s (s\<lparr>ly_shared := put_chan (ly_shared s) sid ch\<rparr>)"
| l_final_closed: "ly_phase s = Final ev recorded retried \<Longrightarrow> ly_cached s = Some sid \<Longrightarrow>
     ev_send ops (ly_chan s sid) ev = (Ready False, ch) \<Longrightarrow>
     lossy_step ops options name s
       (s\<lparr>ly_shared := put_chan (ly_shared s) sid ch, ly_phase := Refused (AfterFinal ev recorded retried) sid\<rparr>)"
| l_unregister: "ly_phase s = Refused k sid \<Longrightarrow>
     lossy_step ops options name s (s\<lparr>ly_shared := clear_active_if_current (ly_shared s) sid, ly_phase := LookAgain k\<rparr>)"
| l_refresh: "ly_phase s = LookAgain k \<Longrightarrow> cached = refresh_cached_active (ly_shared s) \<Longrightarrow>
     resume k (ly_lag s) cached = (lag, phase) \<Longrightarrow>
     lossy_step ops options name s (s\<lparr>ly_cached := cached, ly_lag := lag, ly_phase := phase\<rparr>)"
| l_subscribe: "\<not> ly_stream_dropped s \<Longrightarrow> single_try_subscribe ops options name (ly_shared s) = Inr (sub, sh) \<Longrightarrow>
     lossy_step ops options name s
       (s\<lparr>ly_shared := sh, ly_start := (ly_start s)(ssub_id sub := length (ly_log s)),
          ly_snap := (ly_snap s)(ssub_id sub := ssub_replay sub), ly_term := (ly_term s)(ssub_id sub := ssub_terminal_event sub),
          ly_sent := (ly_sent s)(ssub_id sub := []), ly_recd := (ly_recd s)(ssub_id sub := [])\<rparr>)"
| l_receive: "sid \<notin> ly_rx_dropped s \<Longrightarrow> ly_term s sid = None \<Longrightarrow> ev_recv ops (ly_chan s sid) = (Ready (Some ev), ch) \<Longrightarrow>
     lossy_step ops options name s
       (s\<lparr>ly_shared := put_chan (ly_shared s) sid ch, ly_recd := (ly_recd s)(sid := ly_recd s sid @ [ev])\<rparr>)"
| l_drop_receiver: "sid < ly_next s \<Longrightarrow>
     lossy_step ops options name s
       (s\<lparr>ly_shared := put_chan (ly_shared s) sid (ev_drop_rx ops (ly_chan s sid)), ly_rx_dropped := insert sid (ly_rx_dropped s)\<rparr>)"
| l_unsubscribe: "sid \<in> ly_rx_dropped s \<Longrightarrow>
     lossy_step ops options name s (s\<lparr>ly_shared := clear_active_if_current (ly_shared s) sid\<rparr>)"
| l_seal: "single_seal_replay options (ly_shared s) = Inr sh \<Longrightarrow> lossy_step ops options name s (s\<lparr>ly_shared := sh\<rparr>)"
| l_drop: "lossy_step ops options name s (s\<lparr>ly_shared := single_drop (ly_shared s), ly_stream_dropped := True\<rparr>)"

definition lossy_initial :: "'ch event_chan_ops \<Rightarrow> 'ch lossy_sys \<Rightarrow> bool" where
  "lossy_initial ops s \<longleftrightarrow>
     ly_shared s = configured_shared_new ops \<and> ly_cached s = None \<and> ly_lag s = best_effort_lag_default \<and>
     ly_phase s = Buffered [] \<and> ly_log s = [] \<and> ly_rx_dropped s = {} \<and> \<not> ly_stream_dropped s"

inductive lossy_reachable :: "'ch event_chan_ops \<Rightarrow> stream_config \<Rightarrow> string \<Rightarrow> 'ch lossy_sys \<Rightarrow> bool"
  for ops options name where
  lossy_init: "lossy_initial ops s \<Longrightarrow> lossy_reachable ops options name s"
| lossy_next: "lossy_reachable ops options name s \<Longrightarrow> lossy_step ops options name s s' \<Longrightarrow> lossy_reachable ops options name s'"

section \<open>Marked losses\<close>

text \<open>\<open>gap_marked pending sent pieces\<close>: the pieces were sent in order, runs of lost pieces are followed by a gap
  marker before anything else is sent, and \<open>pending\<close> says whether the last pieces were lost and are not
  marked yet.\<close>

inductive gap_marked :: "bool \<Rightarrow> stream_event list \<Rightarrow> stream_event list \<Rightarrow> bool" where
  marked_Nil: "gap_marked False [] []"
| marked_keep: "gap_marked False r p \<Longrightarrow> gap_marked False (r @ [e]) (p @ [e])"
| marked_lose: "gap_marked b r p \<Longrightarrow> gap_marked True r (p @ [e])"
| marked_gap: "gap_marked True r p \<Longrightarrow> gap_marked False (r @ [Gap]) p"

lemma marked_lose_many: "gap_marked True r p \<Longrightarrow> gap_marked True r (p @ es)"
  by (induction es rule: rev_induct) (auto simp flip: append_assoc intro: marked_lose)

text \<open>What arrives between the markers is untouched: without a marker and without a pending loss nothing
  is missing, and what was kept is in order.\<close>

lemma marked_complete: "gap_marked b r p \<Longrightarrow> \<not> b \<Longrightarrow> Gap \<notin> set r \<Longrightarrow> r = p"
  by (induction rule: gap_marked.induct) auto

lemma marked_subseq: "gap_marked b r p \<Longrightarrow> Gap \<notin> set p \<Longrightarrow> subseq (filter (\<lambda>e. e \<noteq> Gap) r) p"
  by (induction rule: gap_marked.induct) (auto intro: list_emb_append_mono subseq_rev_drop_many)

section \<open>Invariants\<close>

text \<open>\<open>stands s b a n\<close>: subscriber \<open>a\<close> was sent, with marked losses, the pieces up to number \<open>n\<close> from where it
  attached on, or from the piece that was being delivered when it attached, if it had nothing to replay.
  A subscriber that attached to an ended stream has the terminal event and never looks at its channel.\<close>

definition stands :: "'ch lossy_sys \<Rightarrow> bool \<Rightarrow> u64 \<Rightarrow> nat \<Rightarrow> bool" where
  "stands s b a n \<longleftrightarrow>
     (\<exists>k\<le>n. gap_marked b (ly_sent s a) (drop k (take n (ly_log s))) \<and>
        (k = ly_start s a \<or> Suc k = ly_start s a \<and> (ly_snap s a = [] \<or> ly_term s a \<noteq> None)))"

definition gap_due :: "best_effort_lag \<Rightarrow> u64 \<Rightarrow> bool" where
  "gap_due lag a \<longleftrightarrow> lag_subscriber_id lag = Some a \<and> gap_pending lag"

text \<open>Whether later subscribers find the piece being delivered in their replay.\<close>

fun phase_recorded :: "lossy_phase \<Rightarrow> bool" where
  "phase_recorded (Trying buf ev recorded retried) = recorded"
| "phase_recorded (Refused (AfterChunk buf ev recorded retried) sid) = recorded"
| "phase_recorded (LookAgain (AfterChunk buf ev recorded retried)) = recorded"
| "phase_recorded _ = True"

fun phase_event :: "lossy_phase \<Rightarrow> stream_event option" where
  "phase_event (Trying buf ev recorded retried) = Some ev"
| "phase_event (FinalGap ev recorded) = Some ev"
| "phase_event (Final ev recorded retried) = Some ev"
| "phase_event (Refused (AfterChunk buf ev recorded retried) sid) = Some ev"
| "phase_event (Refused (AfterFinalGap ev recorded) sid) = Some ev"
| "phase_event (Refused (AfterFinal ev recorded retried) sid) = Some ev"
| "phase_event (LookAgain (AfterChunk buf ev recorded retried)) = Some ev"
| "phase_event (LookAgain (AfterFinalGap ev recorded)) = Some ev"
| "phase_event (LookAgain (AfterFinal ev recorded retried)) = Some ev"
| "phase_event _ = None"

text \<open>The stream has ended exactly in the phases that deliver the terminal event and after them, and a
  second attempt is made only for pieces that are not in the replay.\<close>

fun refusal_shape :: "after_refusal \<Rightarrow> bool \<Rightarrow> bool" where
  "refusal_shape (AfterGap buf) ended = (\<not> ended)"
| "refusal_shape (AfterChunk buf ev recorded retried) ended = (\<not> ended \<and> (retried \<longrightarrow> \<not> recorded))"
| "refusal_shape (AfterFinalGap ev recorded) ended = (ended \<and> recorded)"
| "refusal_shape (AfterFinal ev recorded retried) ended = (ended \<and> recorded \<and> \<not> retried)"

fun phase_shape :: "lossy_phase \<Rightarrow> bool \<Rightarrow> bool" where
  "phase_shape (Buffered buf) ended = (\<not> ended)"
| "phase_shape (Splitting buf) ended = (\<not> ended)"
| "phase_shape (Trying buf ev recorded retried) ended = (\<not> ended \<and> (retried \<longrightarrow> \<not> recorded))"
| "phase_shape (FinalGap ev recorded) ended = (ended \<and> recorded)"
| "phase_shape (Final ev recorded retried) ended = (ended \<and> recorded \<and> \<not> retried)"
| "phase_shape (Refused k sid) ended = refusal_shape k ended"
| "phase_shape (LookAgain k) ended = refusal_shape k ended"
| "phase_shape Ended ended = ended"

definition lossy_chans_ok :: "('ch \<Rightarrow> bool) \<Rightarrow> ('ch \<Rightarrow> nat) \<Rightarrow> stream_config \<Rightarrow> 'ch lossy_sys \<Rightarrow> bool" where
  "lossy_chans_ok gone capacity options s \<longleftrightarrow>
     (let st = sh_state (ly_shared s) in
      ss_ok st \<and> active_id st = ly_active s \<and> ss_terminal_event st = log_terminal (ly_log s) \<and>
      (\<forall>a<ly_next s. capacity (ly_chan s a) = max_buffered_chunks options) \<and>
      (\<forall>a\<in>ly_rx_dropped s. a < ly_next s \<and> gone (ly_chan s a)) \<and>
      (\<forall>a<ly_next s. gone (ly_chan s a) \<or> ly_active s = Some a \<or> ly_stream_dropped s) \<and>
      (ly_stream_dropped s \<longrightarrow> ly_active s = None))"

definition lossy_ids_ok :: "'ch lossy_sys \<Rightarrow> bool" where
  "lossy_ids_ok s \<longleftrightarrow>
     (\<forall>a. ly_active s = Some a \<or> ly_cached s = Some a \<or> lag_subscriber_id (ly_lag s) = Some a \<longrightarrow> a < ly_next s) \<and>
     (\<forall>k sid. ly_phase s = Refused k sid \<longrightarrow> sid < ly_next s)"

definition lossy_phase_ok :: "stream_config \<Rightarrow> 'ch lossy_sys \<Rightarrow> bool" where
  "lossy_phase_ok options s \<longleftrightarrow>
     phase_shape (ly_phase s) (log_terminal (ly_log s) \<noteq> None) \<and>
     (\<forall>ev. phase_event (ly_phase s) = Some ev \<longrightarrow> ly_log s \<noteq> [] \<and> ev = last (ly_log s)) \<and>
     (\<not> phase_recorded (ly_phase s) \<longrightarrow>
        ss_replay_sealed (sh_state (ly_shared s)) \<or> config_replay_retention options = None)"

definition lossy_shared_ok :: "('ch \<Rightarrow> bool) \<Rightarrow> ('ch \<Rightarrow> nat) \<Rightarrow> stream_config \<Rightarrow> 'ch lossy_sys \<Rightarrow> bool" where
  "lossy_shared_ok gone capacity options s \<longleftrightarrow>
     lossy_chans_ok gone capacity options s \<and> lossy_ids_ok s \<and> lossy_phase_ok options s"

text \<open>An active subscriber the reader has not noticed yet.\<close>

definition unnoticed :: "'ch lossy_sys \<Rightarrow> u64 \<Rightarrow> bool" where
  "unnoticed s a \<longleftrightarrow>
     ly_start s a = length (ly_log s) \<and> ly_sent s a = [] \<and> lag_subscriber_id (ly_lag s) \<noteq> Some a \<and>
     (\<not> phase_recorded (ly_phase s) \<longrightarrow> ly_snap s a = []) \<and> (log_terminal (ly_log s) \<noteq> None \<longrightarrow> ly_term s a \<noteq> None)"

text \<open>Where the subscriber stands that the reader sends to.\<close>

definition noticed :: "'ch lossy_sys \<Rightarrow> u64 \<Rightarrow> bool" where
  "noticed s a \<longleftrightarrow>
     (let n = length (ly_log s); lag = ly_lag s in
      case ly_phase s of
        Buffered buf \<Rightarrow> stands s (gap_due lag a) a n
      | Splitting buf \<Rightarrow> stands s False a n \<and> \<not> gap_due lag a \<and> lag_subscriber_id lag = Some a
      | Trying buf ev recorded retried \<Rightarrow>
          if retried then unnoticed s a
          else stands s False a (n - 1) \<and> \<not> gap_due lag a \<and> (lag_subscriber_id lag = Some a \<or> ly_sent s a = [])
      | FinalGap ev recorded \<Rightarrow> stands s (gap_due lag a) a (n - 1) \<and> lag_subscriber_id lag = Some a
      | Final ev recorded retried \<Rightarrow> stands s False a (n - 1) \<or> ly_start s a = n \<and> ly_sent s a = [] \<and> ly_term s a \<noteq> None
      | Ended \<Rightarrow> stands s False a n
      | _ \<Rightarrow> False)"

fun is_refused :: "lossy_phase \<Rightarrow> bool" where
  "is_refused (Refused k sid) = True"
| "is_refused (LookAgain k) = True"
| "is_refused _ = False"

definition standing_ok :: "('ch \<Rightarrow> bool) \<Rightarrow> 'ch lossy_sys \<Rightarrow> bool" where
  "standing_ok gone s \<longleftrightarrow>
     (\<forall>a. ly_cached s = Some a \<longrightarrow> \<not> is_refused (ly_phase s) \<longrightarrow> gone (ly_chan s a) \<or> noticed s a) \<and>
     (\<forall>a. ly_active s = Some a \<longrightarrow> is_refused (ly_phase s) \<or> ly_cached s \<noteq> Some a \<longrightarrow> gone (ly_chan s a) \<or> unnoticed s a) \<and>
     (\<forall>k sid. ly_phase s = Refused k sid \<longrightarrow> gone (ly_chan s sid))"

definition lossy_blocks_ok :: "'ch lossy_sys \<Rightarrow> bool" where
  "lossy_blocks_ok s \<longleftrightarrow>
     (\<forall>a<ly_next s. ly_start s a \<le> length (ly_log s) \<and> (\<exists>n b. n \<le> length (ly_log s) \<and> stands s b a n))"

definition lossy_received_ok :: "('ch \<Rightarrow> stream_event list) \<Rightarrow> ('ch \<Rightarrow> bool) \<Rightarrow> 'ch lossy_sys \<Rightarrow> bool" where
  "lossy_received_ok contents gone s \<longleftrightarrow>
     (\<forall>a<ly_next s. \<not> gone (ly_chan s a) \<longrightarrow> ly_recd s a @ contents (ly_chan s a) = ly_sent s a) \<and>
     (\<forall>a<ly_next s. ly_term s a \<noteq> None \<longrightarrow> ly_recd s a = [])"

definition lossy_ok ::
  "('ch \<Rightarrow> stream_event list) \<Rightarrow> ('ch \<Rightarrow> bool) \<Rightarrow> ('ch \<Rightarrow> nat) \<Rightarrow> stream_config \<Rightarrow> 'ch lossy_sys \<Rightarrow> bool" where
  "lossy_ok contents gone capacity options s \<longleftrightarrow>
     lossy_shared_ok gone capacity options s \<and> standing_ok gone s \<and> lossy_blocks_ok s \<and> lossy_received_ok contents gone s"

section \<open>The shared state\<close>

text \<open>Channel operations keep the capacity and never bring a receiver back.\<close>

lemma chan_mono:
  assumes "event_chan_ok ops contents gone capacity"
  shows "ev_try_send ops c e = (r, c') \<Longrightarrow> (gone c \<longrightarrow> gone c') \<and> capacity c' = capacity c"
    and "ev_send ops c e = (q, c') \<Longrightarrow> (gone c \<longrightarrow> gone c') \<and> capacity c' = capacity c"
    and "ev_recv ops c = (v, c') \<Longrightarrow> (gone c \<longrightarrow> gone c') \<and> capacity c' = capacity c"
    and "(gone c \<longrightarrow> gone (ev_drop_rx ops c)) \<and> capacity (ev_drop_rx ops c) = capacity c"
  subgoal using chan_try_send [OF assms, of c e r c'] by (cases r) auto
  subgoal using chan_send [OF assms, of c e q c'] by (cases q) (auto split: bool.splits)
  subgoal using chan_recv [OF assms, of c v c'] by blast
  subgoal using chan_new [OF assms] by blast
  done

lemma observe_active_id [simp]: "lag_subscriber_id (observe_active lag c) = c"
  by (simp add: observe_active_def)

lemma observe_active_due [simp]: "gap_due (observe_active lag c) a \<longleftrightarrow> c = Some a \<and> gap_due lag a"
  by (auto simp: observe_active_def gap_due_def)

lemma log_if_lagged_simps [simp]:
  "lag_subscriber_id (log_if_lagged lag) = lag_subscriber_id lag" "gap_pending (log_if_lagged lag) = gap_pending lag"
  by (simp_all add: log_if_lagged_def)

lemma gap_due_simps [simp]:
  "gap_due (log_if_lagged lag) a = gap_due lag a" "\<not> gap_due (lag\<lparr>gap_pending := False\<rparr>) a"
  "gap_due (lag\<lparr>lagged := n\<rparr>) a = gap_due lag a"
  "gap_due (lag\<lparr>lagged := n, gap_pending := True\<rparr>) a \<longleftrightarrow> lag_subscriber_id lag = Some a"
  by (auto simp: gap_due_def)

lemma log_terminal_append [simp]:
  "log_terminal (es @ [ev]) = (if is_terminal ev then Some ev else None)"
  by (simp add: log_terminal_def)

lemma log_terminal_chunks [simp]: "log_terminal (es @ map Chunk cs) = (if cs = [] then log_terminal es else None)"
  by (cases cs rule: rev_cases) (simp_all flip: append_assoc)

text \<open>A lookup again gives the reader the active subscriber and nothing that was not known before.\<close>

lemma resume_ids:
  "resume k lag cached = (lag', phase) \<Longrightarrow> lag_subscriber_id lag' = Some a \<Longrightarrow> lag_subscriber_id lag = Some a \<or> cached = Some a"
  by (cases k) (auto split: if_splits)

lemma resume_phase:
  assumes "resume k lag cached = (lag', phase)"
  shows "refusal_shape k e \<Longrightarrow> phase_shape phase e"
    and "phase_event phase = Some ev \<Longrightarrow> phase_event (LookAgain k) = Some ev"
    and "phase_recorded (LookAgain k) \<Longrightarrow> phase_recorded phase"
    and "phase \<noteq> Refused k' sid"
  using assms by (cases k; auto split: if_splits)+

lemma chans_ok_chan:
  assumes "lossy_chans_ok gone capacity options s" and "(gone (ly_chan s sid) \<longrightarrow> gone ch) \<and> capacity ch = capacity (ly_chan s sid)"
    and "ly_shared s' = put_chan (ly_shared s) sid ch" "ly_log s' = ly_log s" "ly_rx_dropped s' = ly_rx_dropped s"
      "ly_stream_dropped s' = ly_stream_dropped s"
  shows "lossy_chans_ok gone capacity options s'"
  using assms(1,2) by (auto simp: lossy_chans_ok_def Let_def assms(3-6))

lemma chans_ok_cong:
  "ly_shared s' = ly_shared s \<Longrightarrow> ly_log s' = ly_log s \<Longrightarrow> ly_rx_dropped s' = ly_rx_dropped s \<Longrightarrow>
   ly_stream_dropped s' = ly_stream_dropped s \<Longrightarrow>
   lossy_chans_ok gone capacity options s' = lossy_chans_ok gone capacity options s"
  by (simp add: lossy_chans_ok_def)

lemma chans_ok_record:
  assumes "lossy_chans_ok gone capacity options s" and "config_ok options" and "ev \<noteq> Gap" and "log_terminal (ly_log s) = None"
    and "record_event ev (config_replay_retention options) (ly_shared s) = Inr (recorded, cached, sh)"
  shows "cached = ly_active s" and "active_tx sh = ly_active s" and "sh_chans sh = sh_chans (ly_shared s)"
    and "ss_next_subscriber_id (sh_state sh) = ly_next s" and "active_id (sh_state sh) = ly_active s" and "ss_ok (sh_state sh)"
    and "ss_replay_sealed (sh_state sh) = ss_replay_sealed (sh_state (ly_shared s))"
    and "ss_terminal_event (sh_state sh) = log_terminal (ly_log s @ [ev])"
    and "\<not> recorded \<Longrightarrow> \<not> is_terminal ev \<and> (ss_replay_sealed (sh_state (ly_shared s)) \<or> config_replay_retention options = None)"
proof -
  let ?r = "config_replay_retention options" and ?st = "sh_state (ly_shared s)"
  have ok: "ss_ok ?st" "active_id ?st = ly_active s" "ss_terminal_event ?st = None"
    using assms(1,4) by (simp_all add: lossy_chans_ok_def Let_def)
  have sh: "recorded = records ?st ?r ev" "cached = ly_active s" "sh_state sh = ss_pushed ?st ev ?r"
    "active_tx sh = ly_active s" "sh_chans sh = sh_chans (ly_shared s)"
    using assms(5) record_event_ok [OF ok(1) config_ok_retention [OF assms(2)], of ev] by (auto simp: Let_def)
  then show "cached = ly_active s" "active_tx sh = ly_active s" "sh_chans sh = sh_chans (ly_shared s)"
    "ss_next_subscriber_id (sh_state sh) = ly_next s" "active_id (sh_state sh) = ly_active s" "ss_ok (sh_state sh)"
    "ss_replay_sealed (sh_state sh) = ss_replay_sealed (sh_state (ly_shared s))"
    "ss_terminal_event (sh_state sh) = log_terminal (ly_log s @ [ev])"
    using ok push_replay_event_ok(2) [OF ok(1) config_ok_retention [OF assms(2)], of ev] by auto
  show "\<not> recorded \<Longrightarrow> \<not> is_terminal ev \<and> (ss_replay_sealed ?st \<or> ?r = None)"
    using sh(1) assms(3) by (cases ev) (auto simp: records_def)
qed

lemma chans_ok_clear:
  assumes "lossy_chans_ok gone capacity options s" and "gone (ly_chan s sid)"
    and "ly_shared s' = clear_active_if_current (ly_shared s) sid" "ly_log s' = ly_log s" "ly_rx_dropped s' = ly_rx_dropped s"
      "ly_stream_dropped s' = ly_stream_dropped s"
  shows "lossy_chans_ok gone capacity options s'"
  using assms(1,2) by (auto simp: lossy_chans_ok_def Let_def assms(3-6))

lemma chans_ok_subscribe:
  assumes "lossy_chans_ok gone capacity options s" and "event_chan_ok ops contents gone capacity" and "\<not> ly_stream_dropped s"
    and "single_try_subscribe ops options name (ly_shared s) = Inr (sub, sh)"
    and "ly_shared s' = sh" "ly_log s' = ly_log s" "ly_rx_dropped s' = ly_rx_dropped s" "ly_stream_dropped s' = ly_stream_dropped s"
  shows "lossy_chans_ok gone capacity options s'"
proof -
  note sub = subscribe_ok [OF assms(4)]
  have "ss_ok (sh_state sh) = ss_ok (sh_state (ly_shared s))" by (rule ss_ok_cong) (simp_all add: sub)
  then show ?thesis
    using assms(1,3) sub chan_new(2) [OF assms(2)] by (auto simp: lossy_chans_ok_def Let_def assms(5-8) less_Suc_eq)
qed

lemma chans_ok_step:
  assumes "lossy_step ops options name s s'" and "config_ok options" and "event_chan_ok ops contents gone capacity"
    and ok: "lossy_chans_ok gone capacity options s" and "lossy_phase_ok options s" and "standing_ok gone s"
  shows "lossy_chans_ok gone capacity options s'"
  using assms(1)
proof cases
  case (l_gap_full buf lag sid ch n cs)
  have "cs \<noteq> []" using l_gap_full(3,9) by (auto simp: split_chunks.simps [of _ buf] Let_def split: if_splits sum.splits)
  moreover have "log_terminal (ly_log s) = None" using assms(5) l_gap_full(2) by (simp add: lossy_phase_ok_def)
  ultimately show ?thesis
    using chans_ok_chan [OF ok chan_mono(1) [OF assms(3) l_gap_full(7)], of "s\<lparr>ly_shared := put_chan (ly_shared s) sid ch\<rparr>"]
    unfolding l_gap_full(1) by (simp add: lossy_chans_ok_def Let_def)
next
  case (l_record buf split_to ev recorded cached sh)
  have "log_terminal (ly_log s) = None" using assms(5) l_record(2) by (simp add: lossy_phase_ok_def)
  note r = chans_ok_record [OF ok assms(2) _ this l_record(6)]
  show ?thesis
    using ok r l_record(5) unfolding l_record(1) by (simp add: lossy_chans_ok_def Let_def)
next
  case (l_end ev recorded cached sh)
  have t: "log_terminal (ly_log s) = None" "ev \<noteq> Gap" using assms(5) l_end(2,3) by (auto simp: lossy_phase_ok_def)
  note r = chans_ok_record [OF ok assms(2) t(2,1) l_end(4)]
  show ?thesis
    using ok r unfolding l_end(1) by (simp add: lossy_chans_ok_def Let_def)
next
  case (l_unregister k sid)
  then have "gone (ly_chan s sid)" using assms(6) by (simp add: standing_ok_def)
  then show ?thesis unfolding l_unregister(1) by (rule chans_ok_clear [OF ok]) simp_all
next
  case (l_subscribe sub sh)
  show ?thesis unfolding l_subscribe(1) by (rule chans_ok_subscribe [OF ok assms(3) l_subscribe(2,3)]) simp_all
next
  case (l_drop_receiver sid)
  show ?thesis using ok chan_new(3,4) [OF assms(3)] l_drop_receiver(2)
    unfolding l_drop_receiver(1) by (auto simp: lossy_chans_ok_def Let_def)
next
  case (l_unsubscribe sid)
  then have "gone (ly_chan s sid)" using ok by (simp add: lossy_chans_ok_def Let_def)
  then show ?thesis unfolding l_unsubscribe(1) by (rule chans_ok_clear [OF ok]) simp_all
next
  case (l_seal sh)
  have okst: "ss_ok (sh_state (ly_shared s))" using ok by (simp add: lossy_chans_ok_def Let_def)
  have "sh = (ly_shared s)\<lparr>sh_state := (with_window (sh_state (ly_shared s)) [])\<lparr>ss_replay_sealed := True\<rparr>\<rparr>"
    using l_seal(2) ss_seal_ok [OF okst] by (simp add: single_seal_replay_def)
  moreover have "ss_ok ((with_window (sh_state (ly_shared s)) [])\<lparr>ss_replay_sealed := True\<rparr>)" by (simp add: ss_ok_def)
  ultimately show ?thesis using ok unfolding l_seal(1) by (simp add: lossy_chans_ok_def Let_def)
next
  case l_drop
  then show ?thesis using ok by (simp add: lossy_chans_ok_def Let_def)
next
  case (l_read bs)
  then show ?thesis using ok by (simp add: lossy_chans_ok_def Let_def)
qed ((rule chans_ok_cong [THEN iffD2, OF _ _ _ _ ok]; simp; fail)
    | (rule chans_ok_chan [OF ok chan_mono(1) [OF assms(3)]], assumption, simp_all; fail)
    | (rule chans_ok_chan [OF ok chan_mono(2) [OF assms(3)]], assumption, simp_all; fail)
    | (rule chans_ok_chan [OF ok chan_mono(3) [OF assms(3)]], assumption, simp_all; fail))+

lemma ids_ok_step:
  assumes "lossy_step ops options name s s'" and "config_ok options"
    and chans: "lossy_chans_ok gone capacity options s" and ids: "lossy_ids_ok s" and "lossy_phase_ok options s"
  shows "lossy_ids_ok s'"
  using assms(1)
proof cases
  case (l_record buf split_to ev recorded cached sh)
  have "log_terminal (ly_log s) = None" using assms(5) l_record(2) by (simp add: lossy_phase_ok_def)
  note r = chans_ok_record [OF chans assms(2) _ this l_record(6)]
  show ?thesis using ids r(1-4) l_record(5) unfolding l_record(1) by (simp add: lossy_ids_ok_def)
next
  case (l_end ev recorded cached sh)
  have t: "log_terminal (ly_log s) = None" "ev \<noteq> Gap" using assms(5) l_end(2,3) by (auto simp: lossy_phase_ok_def)
  note r = chans_ok_record [OF chans assms(2) t(2,1) l_end(4)]
  show ?thesis using ids r(1-4) unfolding l_end(1) by (simp add: lossy_ids_ok_def)
next
  case (l_refresh k cached lag phase)
  show ?thesis
    using ids resume_ids [OF l_refresh(4)] l_refresh(3) resume_phase(4) [OF l_refresh(4)] unfolding l_refresh(1)
    by (auto simp: lossy_ids_ok_def refresh_cached_active_def)
next
  case (l_subscribe sub sh)
  show ?thesis
    using ids subscribe_ok [OF l_subscribe(3)] unfolding l_subscribe(1) by (auto simp: lossy_ids_ok_def less_Suc_eq)
next
  case (l_seal sh)
  have "ss_ok (sh_state (ly_shared s))" using chans by (simp add: lossy_chans_ok_def Let_def)
  from ss_seal_ok [OF this] show ?thesis
    using ids l_seal(2) unfolding l_seal(1) by (auto simp: lossy_ids_ok_def single_seal_replay_def)
qed (use ids in \<open>auto simp: lossy_ids_ok_def refresh_cached_active_def\<close>)

lemma phase_view_cong:
  "ly_phase s' = ly_phase s \<Longrightarrow> ly_log s' = ly_log s \<Longrightarrow>
   (ss_replay_sealed (sh_state (ly_shared s)) \<Longrightarrow> ss_replay_sealed (sh_state (ly_shared s'))) \<Longrightarrow>
   lossy_phase_ok options s \<Longrightarrow> lossy_phase_ok options s'"
  by (auto simp: lossy_phase_ok_def)

lemma lossy_phase_ok_step:
  assumes "lossy_step ops options name s s'" and "config_ok options"
    and chans: "lossy_chans_ok gone capacity options s" and phase: "lossy_phase_ok options s"
  shows "lossy_phase_ok options s'"
  using assms(1)
proof cases
  case (l_record buf split_to ev recorded cached sh)
  have "log_terminal (ly_log s) = None" using phase l_record(2) by (simp add: lossy_phase_ok_def)
  note r = chans_ok_record [OF chans assms(2) _ this l_record(6)]
  show ?thesis using r(7,9) l_record(5) unfolding l_record(1) by (simp add: lossy_phase_ok_def)
next
  case (l_end ev recorded cached sh)
  have t: "log_terminal (ly_log s) = None" "ev \<noteq> Gap" using phase l_end(2,3) by (auto simp: lossy_phase_ok_def)
  note r = chans_ok_record [OF chans assms(2) t(2,1) l_end(4)]
  show ?thesis using r(9) l_end(3) unfolding l_end(1) by (auto simp: lossy_phase_ok_def)
next
  case (l_refresh k cached lag phase)
  show ?thesis
    using assms(4) resume_phase [OF l_refresh(4)] l_refresh(2) unfolding l_refresh(1) by (auto simp: lossy_phase_ok_def)
next
  case (l_subscribe sub sh)
  show ?thesis
    using phase subscribe_ok [OF l_subscribe(3)] unfolding l_subscribe(1) by (simp add: lossy_phase_ok_def)
next
  case (l_unregister k sid)
  then show ?thesis using phase by (cases k) (simp_all add: lossy_phase_ok_def)
next
  case (l_seal sh)
  have "ss_ok (sh_state (ly_shared s))" using chans by (simp add: lossy_chans_ok_def Let_def)
  from ss_seal_ok [OF this] show ?thesis
    using l_seal(2) unfolding l_seal(1) by (intro phase_view_cong [OF _ _ _ phase]) (auto simp: single_seal_replay_def)
qed (use phase in \<open>auto simp: lossy_phase_ok_def\<close>)

section \<open>Where the subscribers stand\<close>

lemma stands_cong:
  "ly_log s' = ly_log s \<Longrightarrow> ly_sent s' a = ly_sent s a \<Longrightarrow> ly_start s' a = ly_start s a \<Longrightarrow> ly_snap s' a = ly_snap s a \<Longrightarrow>
   ly_term s' a = ly_term s a \<Longrightarrow> stands s' b a n = stands s b a n"
  by (simp add: stands_def)

lemma stands_log:
  "stands s b a n \<Longrightarrow> n \<le> length (ly_log s) \<Longrightarrow> ly_log s' = ly_log s @ es \<Longrightarrow> ly_sent s' a = ly_sent s a \<Longrightarrow>
   ly_start s' a = ly_start s a \<Longrightarrow> ly_snap s' a = ly_snap s a \<Longrightarrow> ly_term s' a = ly_term s a \<Longrightarrow> stands s' b a n"
  by (auto simp: stands_def)

lemma stands_keep:
  assumes "stands s False a (length (ly_log s) - 1)" and "ly_log s \<noteq> []"
    and "ly_log s' = ly_log s" "ly_sent s' a = ly_sent s a @ [last (ly_log s)]" "ly_start s' a = ly_start s a"
      "ly_snap s' a = ly_snap s a" "ly_term s' a = ly_term s a"
  shows "stands s' False a (length (ly_log s))"
proof -
  obtain k where k: "k \<le> length (ly_log s) - 1" "gap_marked False (ly_sent s a) (drop k (take (length (ly_log s) - 1) (ly_log s)))"
      "k = ly_start s a \<or> Suc k = ly_start s a \<and> (ly_snap s a = [] \<or> ly_term s a \<noteq> None)"
    using assms(1) by (auto simp: stands_def)
  from marked_keep [OF k(2), of "last (ly_log s)"] show ?thesis
    using k(1,3) assms(3-7) take_drop_last [OF assms(2) k(1)] by (auto simp: stands_def intro!: exI [of _ k])
qed

lemma stands_lose:
  assumes "stands s b a (length (ly_log s) - 1)" and "ly_log s \<noteq> []"
    and "ly_log s' = ly_log s" "ly_sent s' a = ly_sent s a" "ly_start s' a = ly_start s a"
      "ly_snap s' a = ly_snap s a" "ly_term s' a = ly_term s a"
  shows "stands s' True a (length (ly_log s))"
proof -
  obtain k where k: "k \<le> length (ly_log s) - 1" "gap_marked b (ly_sent s a) (drop k (take (length (ly_log s) - 1) (ly_log s)))"
      "k = ly_start s a \<or> Suc k = ly_start s a \<and> (ly_snap s a = [] \<or> ly_term s a \<noteq> None)"
    using assms(1) by (auto simp: stands_def)
  from marked_lose [OF k(2), of "last (ly_log s)"] show ?thesis
    using k(1,3) assms(3-7) take_drop_last [OF assms(2) k(1)] by (auto simp: stands_def intro!: exI [of _ k])
qed

lemma stands_lose_many:
  assumes "stands s True a (length (ly_log s))" and "ly_log s' = ly_log s @ es" "ly_sent s' a = ly_sent s a"
    "ly_start s' a = ly_start s a" "ly_snap s' a = ly_snap s a" "ly_term s' a = ly_term s a"
  shows "stands s' True a (length (ly_log s'))"
proof -
  obtain k where k: "k \<le> length (ly_log s)" "gap_marked True (ly_sent s a) (drop k (ly_log s))"
      "k = ly_start s a \<or> Suc k = ly_start s a \<and> (ly_snap s a = [] \<or> ly_term s a \<noteq> None)"
    using assms(1) by (auto simp: stands_def)
  from marked_lose_many [OF k(2), of es] show ?thesis
    using k(1,3) assms(2-6) unfolding stands_def by (intro exI [of _ k]) simp
qed

lemma stands_gap:
  "stands s True a n \<Longrightarrow> ly_log s' = ly_log s \<Longrightarrow> ly_sent s' a = ly_sent s a @ [Gap] \<Longrightarrow> ly_start s' a = ly_start s a \<Longrightarrow>
   ly_snap s' a = ly_snap s a \<Longrightarrow> ly_term s' a = ly_term s a \<Longrightarrow> stands s' False a n"
  by (auto simp: stands_def intro: marked_gap)

lemma unnoticed_stands: "unnoticed s a \<Longrightarrow> stands s False a (length (ly_log s))"
  unfolding unnoticed_def stands_def by (intro exI [of _ "length (ly_log s)"]) (simp add: marked_Nil)

lemma newcomer_keep:
  assumes "ly_start s a = length (ly_log s)" "ly_sent s a = []" "ly_snap s a = [] \<or> ly_term s a \<noteq> None" and "ly_log s \<noteq> []"
    and "ly_log s' = ly_log s" "ly_sent s' a = ly_sent s a @ [last (ly_log s)]" "ly_start s' a = ly_start s a"
      "ly_snap s' a = ly_snap s a" "ly_term s' a = ly_term s a"
  shows "stands s' False a (length (ly_log s))"
proof -
  have "drop (length (ly_log s) - 1) (ly_log s) = [last (ly_log s)]"
    using assms(4) by (cases "ly_log s" rule: rev_cases) auto
  moreover have "gap_marked False ([] @ [e]) ([] @ [e])" for e by (intro marked_keep marked_Nil)
  ultimately show ?thesis
    using assms unfolding stands_def by (intro exI [of _ "length (ly_log s) - 1"]) auto
qed

text \<open>Steps of other tasks: who is active can only go away, and so can a receiver.\<close>

lemma standing_ok_other:
  assumes "standing_ok gone s"
    and "ly_phase s' = ly_phase s" "ly_cached s' = ly_cached s" "ly_lag s' = ly_lag s" "ly_log s' = ly_log s" "ly_start s' = ly_start s"
      "ly_snap s' = ly_snap s" "ly_term s' = ly_term s" "ly_sent s' = ly_sent s"
    and "\<And>a. ly_active s' = Some a \<Longrightarrow> ly_active s = Some a"
    and "\<And>a. gone (ly_chan s a) \<Longrightarrow> gone (ly_chan s' a)"
  shows "standing_ok gone s'"
proof -
  have u: "stands s' b a n = stands s b a n" "unnoticed s' a = unnoticed s a" for a n b
    using assms(2-9) by (simp_all add: stands_def unnoticed_def)
  have "noticed s' a = noticed s a" for a unfolding noticed_def u assms(2-9) by (rule refl)
  then show ?thesis
    using assms(1,10,11) unfolding standing_ok_def assms(2-3) u by blast
qed

lemma standing_okI:
  assumes "\<not> is_refused (ly_phase s)"
    and "\<And>a. ly_cached s = Some a \<Longrightarrow> \<not> gone (ly_chan s a) \<Longrightarrow> noticed s a"
    and "\<And>a. ly_active s = Some a \<Longrightarrow> ly_cached s \<noteq> Some a \<Longrightarrow> \<not> gone (ly_chan s a) \<Longrightarrow> unnoticed s a"
  shows "standing_ok gone s"
  using assms by (auto simp: standing_ok_def)

lemma standing_ok_noticed:
  "standing_ok gone s \<Longrightarrow> \<not> is_refused (ly_phase s) \<Longrightarrow> ly_cached s = Some a \<Longrightarrow> \<not> gone (ly_chan s a) \<Longrightarrow> noticed s a"
  by (auto simp: standing_ok_def)

lemma standing_ok_unnoticed:
  "standing_ok gone s \<Longrightarrow> is_refused (ly_phase s) \<or> ly_cached s \<noteq> Some a \<Longrightarrow> ly_active s = Some a \<Longrightarrow> \<not> gone (ly_chan s a) \<Longrightarrow>
   unnoticed s a"
  by (auto simp: standing_ok_def)

text \<open>An unnoticed subscriber stays unnoticed while the reader does something else.\<close>

lemma unnoticed_cong:
  "unnoticed s a \<Longrightarrow> ly_log s' = ly_log s \<Longrightarrow> ly_sent s' a = ly_sent s a \<Longrightarrow> ly_start s' a = ly_start s a \<Longrightarrow> ly_snap s' a = ly_snap s a \<Longrightarrow>
   ly_term s' a = ly_term s a \<Longrightarrow> lag_subscriber_id (ly_lag s') \<noteq> Some a \<Longrightarrow>
   (\<not> phase_recorded (ly_phase s') \<Longrightarrow> \<not> phase_recorded (ly_phase s)) \<Longrightarrow> unnoticed s' a"
  by (auto simp: unnoticed_def)

lemma unnoticed_lag: "unnoticed s a \<Longrightarrow> lag_subscriber_id (ly_lag s) \<noteq> Some a" "unnoticed s a \<Longrightarrow> \<not> gap_due (ly_lag s) a"
  by (auto simp: unnoticed_def gap_due_def)

lemma noticed_simps:
  "ly_phase s = Buffered buf \<Longrightarrow> noticed s a = stands s (gap_due (ly_lag s) a) a (length (ly_log s))"
  "ly_phase s = Splitting buf \<Longrightarrow> noticed s a \<longleftrightarrow>
     stands s False a (length (ly_log s)) \<and> \<not> gap_due (ly_lag s) a \<and> lag_subscriber_id (ly_lag s) = Some a"
  "ly_phase s = Trying buf ev recorded retried \<Longrightarrow> noticed s a \<longleftrightarrow>
     (if retried then unnoticed s a
      else stands s False a (length (ly_log s) - 1) \<and> \<not> gap_due (ly_lag s) a \<and>
        (lag_subscriber_id (ly_lag s) = Some a \<or> ly_sent s a = []))"
  "ly_phase s = FinalGap ev recorded \<Longrightarrow> noticed s a \<longleftrightarrow>
     stands s (gap_due (ly_lag s) a) a (length (ly_log s) - 1) \<and> lag_subscriber_id (ly_lag s) = Some a"
  "ly_phase s = Final ev recorded retried \<Longrightarrow> noticed s a \<longleftrightarrow> stands s False a (length (ly_log s) - 1) \<or>
     ly_start s a = length (ly_log s) \<and> ly_sent s a = [] \<and> ly_term s a \<noteq> None"
  "ly_phase s = Ended \<Longrightarrow> noticed s a = stands s False a (length (ly_log s))"
  by (simp_all add: noticed_def Let_def)

text \<open>The reader is refused: everybody who is active attached behind its back.\<close>

lemma standing_refused:
  assumes "standing_ok gone s" and "\<not> is_refused (ly_phase s)" and "ly_cached s = Some sid" and "gone ch"
    and "\<And>a. gone (ly_chan s a) \<Longrightarrow> a \<noteq> sid \<Longrightarrow> gone (ly_chan s' a)" and "ly_chan s' sid = ch"
    and "ly_phase s' = Refused k sid" "ly_active s' = ly_active s" "ly_log s' = ly_log s" "ly_sent s' = ly_sent s"
      "ly_start s' = ly_start s" "ly_snap s' = ly_snap s" "ly_term s' = ly_term s"
    and "\<And>a. a \<noteq> sid \<Longrightarrow> lag_subscriber_id (ly_lag s) \<noteq> Some a \<Longrightarrow> lag_subscriber_id (ly_lag s') \<noteq> Some a"
    and "\<not> phase_recorded (Refused k sid) \<Longrightarrow> \<not> phase_recorded (ly_phase s)"
    and "\<And>a. a \<noteq> sid \<Longrightarrow> ly_chan s' a = ly_chan s a"
  shows "standing_ok gone s'"
proof -
  have "gone (ly_chan s' a) \<or> unnoticed s' a" if "ly_active s' = Some a" for a
  proof (cases "a = sid \<or> gone (ly_chan s a)")
    case True
    then show ?thesis using assms(4-6) by auto
  next
    case False
    then have "unnoticed s a" using standing_ok_unnoticed [OF assms(1), of a] assms(2,3,8) that by auto
    then have "unnoticed s' a" by (rule unnoticed_cong) (use False assms(7-16) unnoticed_lag(1) [OF \<open>unnoticed s a\<close>] in auto)
    then show ?thesis ..
  qed
  then show ?thesis using assms(4,6,7) by (auto simp: standing_ok_def)
qed

text \<open>The rounds of the chunk loop.\<close>

lemma standing_splitting:
  assumes ok: "standing_ok gone s" and "ly_phase s = Buffered buf" and "lag = observe_active (ly_lag s) (ly_cached s)" and "\<not> gap_pending lag \<or> ly_cached s = None"
  shows "standing_ok gone (s\<lparr>ly_lag := lag, ly_phase := Splitting buf\<rparr>)" (is "standing_ok gone ?s")
proof (rule standing_okI)
  fix a
  assume "ly_cached ?s = Some a" "\<not> gone (ly_chan ?s a)"
  then have "stands s (gap_due (ly_lag s) a) a (length (ly_log s))"
    using standing_ok_noticed [OF ok, of a] assms(2) by (simp add: noticed_simps)
  moreover have "\<not> gap_due (ly_lag s) a"
    using assms(3,4) \<open>ly_cached ?s = Some a\<close> observe_active_due [of "ly_lag s" "ly_cached s" a] by (auto simp: gap_due_def)
  ultimately show "noticed ?s a"
    using assms(3) \<open>ly_cached ?s = Some a\<close> stands_cong [of ?s s a] by (simp add: noticed_simps)
next
  fix a
  assume a: "ly_active ?s = Some a" "ly_cached ?s \<noteq> Some a" "\<not> gone (ly_chan ?s a)"
  then have "unnoticed s a" using standing_ok_unnoticed [OF ok, of a] by simp
  then show "unnoticed ?s a" by (rule unnoticed_cong) (use a(2) assms(3) in simp_all)
qed simp

lemma standing_gap_sent:
  assumes ok: "standing_ok gone s" and "ly_phase s = Buffered buf" and lag: "lag = observe_active (ly_lag s) (ly_cached s)" "gap_pending lag"
    and "ly_cached s = Some sid" and "\<not> gone (ly_chan s sid)"
  shows "standing_ok gone (s\<lparr>ly_shared := put_chan (ly_shared s) sid ch, ly_lag := (log_if_lagged lag)\<lparr>gap_pending := False\<rparr>,
          ly_phase := Splitting buf, ly_sent := (ly_sent s)(sid := ly_sent s sid @ [Gap])\<rparr>)" (is "standing_ok gone ?s")
proof (rule standing_okI)
  fix a
  assume a: "ly_cached ?s = Some a" "\<not> gone (ly_chan ?s a)"
  have "gap_due (ly_lag s) sid"
    using lag assms(5) by (auto simp: gap_due_def observe_active_def split: if_splits)
  then have "stands s True sid (length (ly_log s))"
    using standing_ok_noticed [OF ok, of sid] assms(2,5,6) by (simp add: noticed_simps)
  then have "stands ?s False sid (length (ly_log s))" by (rule stands_gap) simp_all
  then show "noticed ?s a" using a(1) assms(5) lag(1) by (simp add: noticed_simps)
next
  fix a
  assume a: "ly_active ?s = Some a" "ly_cached ?s \<noteq> Some a" "\<not> gone (ly_chan ?s a)"
  then have "unnoticed s a" using standing_ok_unnoticed [OF ok, of a] assms(5) by (auto split: if_splits)
  then show "unnoticed ?s a" by (rule unnoticed_cong) (use a(2) assms(5) lag(1) in auto)
qed simp

lemma standing_gap_full:
  assumes ok: "standing_ok gone s" and "ly_phase s = Buffered buf" and lag: "lag = observe_active (ly_lag s) (ly_cached s)" "gap_pending lag"
    and "ly_cached s = Some sid" and "\<not> gone (ly_chan s sid)" and "ly_active s = None \<or> ly_active s = Some sid"
  shows "standing_ok gone (s\<lparr>ly_shared := put_chan (ly_shared s) sid ch, ly_lag := lag\<lparr>lagged := n\<rparr>,
          ly_phase := Buffered [], ly_log := ly_log s @ es\<rparr>)" (is "standing_ok gone ?s")
proof (rule standing_okI)
  fix a
  assume a: "ly_cached ?s = Some a" "\<not> gone (ly_chan ?s a)"
  have due: "gap_due (ly_lag s) sid"
    using lag assms(5) by (auto simp: gap_due_def observe_active_def split: if_splits)
  then have "stands s True sid (length (ly_log s))"
    using standing_ok_noticed [OF ok, of sid] assms(2,5,6) by (simp add: noticed_simps)
  then have "stands ?s True sid (length (ly_log ?s))" by (rule stands_lose_many) simp_all
  then show "noticed ?s a" using a(1) due assms(5) lag(1) by (simp add: noticed_simps)
qed (use assms(5,7) in auto)

text \<open>Recording a piece makes the active subscriber the one the reader sends to.\<close>

lemma standing_record:
  assumes ok: "standing_ok gone s" and "ly_phase s = Splitting buf" and "sh_chans sh = sh_chans (ly_shared s)" "active_tx sh = ly_active s"
  shows "standing_ok gone (s\<lparr>ly_shared := sh, ly_cached := ly_active s, ly_phase := Trying buf' ev recorded False, ly_log := ly_log s @ [ev]\<rparr>)"
    (is "standing_ok gone ?s")
proof (rule standing_okI)
  fix a
  assume a: "ly_cached ?s = Some a" "\<not> gone (ly_chan ?s a)"
  have old: "stands s False a (length (ly_log s)) \<Longrightarrow> stands ?s False a (length (ly_log s))"
    by (rule stands_log) simp_all
  show "noticed ?s a"
  proof (cases "ly_cached s = Some a")
    case True
    then show ?thesis using standing_ok_noticed [OF ok, of a] a assms(2,3) old by (simp add: noticed_simps)
  next
    case False
    then have "unnoticed s a" using standing_ok_unnoticed [OF ok, of a] a assms(3) by simp
    moreover have "ly_sent s a = []" using calculation by (simp add: unnoticed_def)
    ultimately show ?thesis using unnoticed_stands [of s a] unnoticed_lag [of s a] old by (simp add: noticed_simps)
  qed
qed (use assms(4) in auto)

lemma standing_record_end:
  assumes ok: "standing_ok gone s" and "ly_phase s = Buffered []" and "sh_chans sh = sh_chans (ly_shared s)" "active_tx sh = ly_active s"
  shows "standing_ok gone (s\<lparr>ly_shared := sh, ly_cached := ly_active s, ly_lag := observe_active (ly_lag s) (ly_active s),
      ly_phase := FinalGap ev recorded, ly_log := ly_log s @ [ev]\<rparr>)" (is "standing_ok gone ?s")
proof (rule standing_okI)
  fix a
  assume a: "ly_cached ?s = Some a" "\<not> gone (ly_chan ?s a)"
  have old: "stands s b a (length (ly_log s)) \<Longrightarrow> stands ?s b a (length (ly_log s))" for b
    by (rule stands_log) simp_all
  show "noticed ?s a"
  proof (cases "ly_cached s = Some a")
    case True
    then show ?thesis using standing_ok_noticed [OF ok, of a] a assms(2,3) old by (simp add: noticed_simps)
  next
    case False
    then have "unnoticed s a" using standing_ok_unnoticed [OF ok, of a] a assms(3) by simp
    then show ?thesis using unnoticed_stands [of s a] unnoticed_lag [of s a] old [of False] a by (simp add: noticed_simps)
  qed
qed (use assms(4) in auto)

lemma standing_try_sent:
  assumes ok: "standing_ok gone s" and phase: "lossy_phase_ok options s" and p: "ly_phase s = Trying buf ev recorded retried"
    and "ly_cached s = Some sid" and "\<not> gone (ly_chan s sid)"
  shows "standing_ok gone (s\<lparr>ly_shared := put_chan (ly_shared s) sid ch, ly_lag := log_if_lagged (ly_lag s), ly_phase := Buffered buf,
          ly_sent := (ly_sent s)(sid := ly_sent s sid @ [ev])\<rparr>)" (is "standing_ok gone ?s")
proof (rule standing_okI)
  fix a
  assume a: "ly_cached ?s = Some a" "\<not> gone (ly_chan ?s a)"
  have l: "ly_log s \<noteq> []" "ev = last (ly_log s)" "retried \<longrightarrow> \<not> recorded" using phase p by (auto simp: lossy_phase_ok_def)
  have n: "if retried then unnoticed s sid else stands s False sid (length (ly_log s) - 1) \<and> \<not> gap_due (ly_lag s) sid"
    using standing_ok_noticed [OF ok _ assms(4,5)] p by (simp add: noticed_simps split: if_splits)
  have "stands ?s False sid (length (ly_log s))"
  proof (cases retried)
    case True
    then show ?thesis using newcomer_keep [of s sid ?s] n l p by (simp add: unnoticed_def)
  next
    case False
    then show ?thesis using stands_keep [of s sid ?s] n l by simp
  qed
  moreover have "\<not> gap_due (ly_lag s) sid" using n unnoticed_lag(2) [of s sid] by (auto split: if_splits)
  ultimately show "noticed ?s a" using a(1) assms(4) by (simp add: noticed_simps)
next
  fix a
  assume a: "ly_active ?s = Some a" "ly_cached ?s \<noteq> Some a" "\<not> gone (ly_chan ?s a)"
  then have u: "unnoticed s a" using standing_ok_unnoticed [OF ok, of a] assms(4) by (auto split: if_splits)
  then show "unnoticed ?s a" by (rule unnoticed_cong) (use a(2) assms(4) unnoticed_lag(1) [OF u] in auto)
qed simp

lemma standing_try_full:
  assumes ok: "standing_ok gone s" and phase: "lossy_phase_ok options s" and p: "ly_phase s = Trying buf ev recorded retried"
    and "ly_cached s = Some sid" and "\<not> gone (ly_chan s sid)" and "ly_sent s sid \<noteq> []"
  shows "standing_ok gone (s\<lparr>ly_shared := put_chan (ly_shared s) sid ch, ly_lag := (ly_lag s)\<lparr>lagged := n, gap_pending := True\<rparr>,
          ly_phase := Buffered buf\<rparr>)" (is "standing_ok gone ?s")
proof (rule standing_okI)
  fix a
  assume a: "ly_cached ?s = Some a" "\<not> gone (ly_chan ?s a)"
  have n: "stands s False sid (length (ly_log s) - 1)" "lag_subscriber_id (ly_lag s) = Some sid"
    using standing_ok_noticed [OF ok _ assms(4,5)] p assms(6) by (auto simp: noticed_simps unnoticed_def split: if_splits)
  have "ly_log s \<noteq> []" using phase p by (simp add: lossy_phase_ok_def)
  from stands_lose [OF n(1) this, of ?s] show "noticed ?s a" using a(1) assms(4) n(2) by (simp add: noticed_simps)
next
  fix a
  assume a: "ly_active ?s = Some a" "ly_cached ?s \<noteq> Some a" "\<not> gone (ly_chan ?s a)"
  then have u: "unnoticed s a" using standing_ok_unnoticed [OF ok, of a] assms(4) by (auto split: if_splits)
  then show "unnoticed ?s a" by (rule unnoticed_cong) (use unnoticed_lag(1) [OF u] in auto)
qed simp

lemma standing_final_gap_sent:
  assumes ok: "standing_ok gone s" and p: "ly_phase s = FinalGap ev recorded" and "gap_pending (ly_lag s)"
    and "ly_cached s = Some sid" and "\<not> gone (ly_chan s sid)"
  shows "standing_ok gone (s\<lparr>ly_shared := put_chan (ly_shared s) sid ch, ly_lag := (log_if_lagged (ly_lag s))\<lparr>gap_pending := False\<rparr>,
          ly_phase := Final ev recorded False, ly_sent := (ly_sent s)(sid := ly_sent s sid @ [Gap])\<rparr>)" (is "standing_ok gone ?s")
proof (rule standing_okI)
  fix a
  assume a: "ly_cached ?s = Some a" "\<not> gone (ly_chan ?s a)"
  have "stands s True sid (length (ly_log s) - 1)"
    using standing_ok_noticed [OF ok _ assms(4,5)] p assms(3) by (auto simp: noticed_simps gap_due_def)
  then have "stands ?s False sid (length (ly_log s) - 1)" by (rule stands_gap) simp_all
  then show "noticed ?s a" using a(1) assms(4) noticed_simps(5) [of ?s ev recorded False a] by simp
next
  fix a
  assume a: "ly_active ?s = Some a" "ly_cached ?s \<noteq> Some a" "\<not> gone (ly_chan ?s a)"
  then have u: "unnoticed s a" using standing_ok_unnoticed [OF ok, of a] assms(4) by (auto split: if_splits)
  then show "unnoticed ?s a" by (rule unnoticed_cong) (use a(2) assms(4) unnoticed_lag(1) [OF u] in auto)
qed simp

lemma standing_final_sent:
  assumes ok: "standing_ok gone s" and phase: "lossy_phase_ok options s" and p: "ly_phase s = Final ev recorded retried"
    and "ly_cached s = Some sid" and "\<not> gone (ly_chan s sid)"
  shows "standing_ok gone (s\<lparr>ly_shared := put_chan (ly_shared s) sid ch, ly_phase := Ended,
          ly_sent := (ly_sent s)(sid := ly_sent s sid @ [ev])\<rparr>)" (is "standing_ok gone ?s")
proof (rule standing_okI)
  fix a
  assume a: "ly_cached ?s = Some a" "\<not> gone (ly_chan ?s a)"
  have l: "ly_log s \<noteq> []" "ev = last (ly_log s)" using phase p by (auto simp: lossy_phase_ok_def)
  have "stands s False sid (length (ly_log s) - 1) \<or> ly_start s sid = length (ly_log s) \<and> ly_sent s sid = [] \<and> ly_term s sid \<noteq> None"
    using standing_ok_noticed [OF ok _ assms(4,5)] p by (simp add: noticed_simps)
  then have "stands ?s False sid (length (ly_log s))"
    using stands_keep [of s sid ?s] newcomer_keep [of s sid ?s] l by auto
  then show "noticed ?s a" using a(1) assms(4) by (simp add: noticed_simps)
next
  fix a
  assume a: "ly_active ?s = Some a" "ly_cached ?s \<noteq> Some a" "\<not> gone (ly_chan ?s a)"
  then have u: "unnoticed s a" using standing_ok_unnoticed [OF ok, of a] assms(4) by (auto split: if_splits)
  then show "unnoticed ?s a" by (rule unnoticed_cong) (use a(2) assms(4) unnoticed_lag(1) [OF u] in auto)
qed simp

text \<open>Looking again: the reader goes on with the active subscriber, which attached meanwhile.\<close>

lemma standing_refresh:
  assumes ok: "standing_ok gone s" and p: "ly_phase s = LookAgain k" and r: "resume k (ly_lag s) (ly_active s) = (lag, phase)"
    and "lossy_phase_ok options s"
  shows "standing_ok gone (s\<lparr>ly_cached := ly_active s, ly_lag := lag, ly_phase := phase\<rparr>)" (is "standing_ok gone ?s")
proof (rule standing_okI)
  show "\<not> is_refused (ly_phase ?s)" using r by (cases k) (auto split: if_splits)
next
  fix a
  assume a: "ly_cached ?s = Some a" "\<not> gone (ly_chan ?s a)"
  then have u: "unnoticed s a" using standing_ok_unnoticed [OF ok, of a] p by simp
  then have st: "stands ?s False a (length (ly_log s))"
    using unnoticed_stands [OF u] stands_cong [of ?s s a] by simp
  have lag: "lag_subscriber_id (ly_lag s) \<noteq> Some a" "\<not> gap_due (ly_lag s) a" using unnoticed_lag [OF u] by auto
  have ended: "ly_term s a \<noteq> None" if "refusal_shape k True"
    using u assms(4) p that by (cases k) (auto simp: unnoticed_def lossy_phase_ok_def)
  show "noticed ?s a"
  proof (cases k)
    case (AfterGap buf)
    then show ?thesis using r st lag a(1) by (auto simp: noticed_simps)
  next
    case (AfterChunk buf ev recorded retried)
    then show ?thesis using r st lag u p by (auto simp: noticed_simps unnoticed_def split: if_splits)
  next
    case (AfterFinalGap ev recorded)
    then show ?thesis using r ended u assms(4) p by (auto simp: noticed_simps unnoticed_def lossy_phase_ok_def)
  next
    case (AfterFinal ev recorded retried)
    then show ?thesis
      using r st assms(4) p by (auto simp: noticed_simps lossy_phase_ok_def split: if_splits)
  qed
qed simp

lemma standing_subscribe:
  assumes ok: "standing_ok gone s" and chans: "lossy_chans_ok gone capacity options s" and ids: "lossy_ids_ok s"
    and phase: "lossy_phase_ok options s" and "single_try_subscribe ops options name (ly_shared s) = Inr (sub, sh)"
  shows "standing_ok gone
     (s\<lparr>ly_shared := sh, ly_start := (ly_start s)(ssub_id sub := length (ly_log s)),
        ly_snap := (ly_snap s)(ssub_id sub := ssub_replay sub), ly_term := (ly_term s)(ssub_id sub := ssub_terminal_event sub),
        ly_sent := (ly_sent s)(ssub_id sub := []), ly_recd := (ly_recd s)(ssub_id sub := [])\<rparr>)" (is "standing_ok gone ?s")
proof -
  note sub = subscribe_ok [OF assms(5)]
  have new: "ly_cached s \<noteq> Some (ssub_id sub)" "lag_subscriber_id (ly_lag s) \<noteq> Some (ssub_id sub)"
    using ids sub(2) by (auto simp: lossy_ids_ok_def)
  have "unnoticed ?s (ssub_id sub)"
    using new(2) phase chans sub(3,4) by (auto simp: unnoticed_def lossy_phase_ok_def lossy_chans_ok_def Let_def)
  moreover have "noticed ?s a = noticed s a" "ly_chan ?s a = ly_chan s a" if "ly_cached s = Some a" for a
  proof -
    have a: "a \<noteq> ssub_id sub" using that new(1) by auto
    then have "stands ?s b a n = stands s b a n" "unnoticed ?s a = unnoticed s a" for b n by (simp_all add: stands_def unnoticed_def)
    then show "noticed ?s a = noticed s a" using a by (cases "ly_phase s") (simp_all add: noticed_def Let_def)
    show "ly_chan ?s a = ly_chan s a" using a sub(2,7) by simp
  qed
  moreover have "gone (ly_chan ?s sid)" if "ly_phase s = Refused k sid" for k sid
    using that ok ids sub(7) by (auto simp: standing_ok_def lossy_ids_ok_def)
  ultimately show ?thesis
    using ok sub(2,6) by (auto simp: standing_ok_def)
qed

text \<open>The lookup of the waiting reader, and the rounds that find nobody to send to.\<close>

lemma standing_look:
  assumes ok: "standing_ok gone s" and "ly_phase s = Buffered []" "ly_cached s = None"
  shows "standing_ok gone (s\<lparr>ly_cached := ly_active s, ly_lag := observe_active (ly_lag s) (ly_active s)\<rparr>)" (is "standing_ok gone ?s")
proof (rule standing_okI)
  fix a
  assume a: "ly_cached ?s = Some a" "\<not> gone (ly_chan ?s a)"
  then have u: "unnoticed s a" using standing_ok_unnoticed [OF ok, of a] assms(3) by simp
  then show "noticed ?s a"
    using unnoticed_stands [OF u] unnoticed_lag [OF u] stands_cong [of ?s s a] assms(2) by (simp add: noticed_simps)
qed (use assms(2) in auto)

lemma standing_read:
  assumes ok: "standing_ok gone s" and "ly_phase s = Buffered []"
  shows "standing_ok gone (s\<lparr>ly_shared := ss_record_bytes_ingested (ly_shared s) n, ly_phase := Buffered bs\<rparr>)" (is "standing_ok gone ?s")
proof (rule standing_okI)
  fix a
  assume "ly_cached ?s = Some a" "\<not> gone (ly_chan ?s a)"
  then show "noticed ?s a"
    using standing_ok_noticed [OF ok, of a] assms(2) stands_cong [of ?s s a] by (simp add: noticed_simps)
next
  fix a
  assume a: "ly_active ?s = Some a" "ly_cached ?s \<noteq> Some a" "\<not> gone (ly_chan ?s a)"
  then have u: "unnoticed s a" using standing_ok_unnoticed [OF ok, of a] by simp
  then show "unnoticed ?s a" by (rule unnoticed_cong) (use unnoticed_lag [OF u] in auto)
qed simp

lemma standing_inactive:
  assumes ok: "standing_ok gone s" and "\<not> is_refused (ly_phase s)" "ly_cached s = None"
    and "phase_recorded phase" "\<not> is_refused phase" and "lag = ly_lag s \<or> lag_subscriber_id lag = None"
  shows "standing_ok gone (s\<lparr>ly_lag := lag, ly_phase := phase\<rparr>)" (is "standing_ok gone ?s")
proof (rule standing_okI)
  fix a
  assume a: "ly_active ?s = Some a" "ly_cached ?s \<noteq> Some a" "\<not> gone (ly_chan ?s a)"
  then have u: "unnoticed s a" using standing_ok_unnoticed [OF ok, of a] by simp
  then show "unnoticed ?s a" by (rule unnoticed_cong) (use assms(4,6) unnoticed_lag [OF u] in auto)
qed (use assms(3,5) in auto)

lemma standing_final_no_gap:
  assumes ok: "standing_ok gone s" and "ly_phase s = FinalGap ev recorded" and "\<not> gap_pending (ly_lag s)"
  shows "standing_ok gone (s\<lparr>ly_phase := Final ev recorded False\<rparr>)" (is "standing_ok gone ?s")
proof (rule standing_okI)
  fix a
  assume a: "ly_cached ?s = Some a" "\<not> gone (ly_chan ?s a)"
  then have "stands s False a (length (ly_log s) - 1)"
    using standing_ok_noticed [OF ok, of a] assms(2,3) by (simp add: noticed_simps gap_due_def)
  then show "noticed ?s a" using stands_cong [of ?s s a] noticed_simps(5) [of ?s ev recorded False a] by simp
next
  fix a
  assume a: "ly_active ?s = Some a" "ly_cached ?s \<noteq> Some a" "\<not> gone (ly_chan ?s a)"
  then have u: "unnoticed s a" using standing_ok_unnoticed [OF ok, of a] by simp
  then show "unnoticed ?s a" by (rule unnoticed_cong) (use unnoticed_lag [OF u] in auto)
qed simp

lemma standing_unregister:
  assumes ok: "standing_ok gone s" and "ly_phase s = Refused k sid"
  shows "standing_ok gone (s\<lparr>ly_shared := clear_active_if_current (ly_shared s) sid, ly_phase := LookAgain k\<rparr>)" (is "standing_ok gone ?s")
proof -
  have "gone (ly_chan s a) \<or> unnoticed ?s a" if "ly_active s = Some a" for a
  proof (cases "gone (ly_chan s a)")
    case False
    then have u: "unnoticed s a" using standing_ok_unnoticed [OF ok, of a] assms(2) that by simp
    then show ?thesis using assms(2) by (cases k) (auto simp: unnoticed_def)
  qed simp
  then show ?thesis by (auto simp: standing_ok_def split: if_splits)
qed

text \<open>A full channel holds something, so the reader has sent to its subscriber before.\<close>

lemma full_sent:
  assumes "event_chan_ok ops contents gone capacity" and "config_ok options" and "lossy_chans_ok gone capacity options s"
    and "lossy_received_ok contents gone s" and "ev_try_send ops (ly_chan s sid) ev = (SendFull, ch)" and "sid < ly_next s"
  shows "\<not> gone (ly_chan s sid)" and "ly_sent s sid \<noteq> []"
proof -
  have full: "\<not> gone (ly_chan s sid)" "capacity (ly_chan s sid) \<le> length (contents (ly_chan s sid))"
    using chan_try_send [OF assms(1,5)] by auto
  then show "\<not> gone (ly_chan s sid)" by simp
  have "0 < capacity (ly_chan s sid)"
    using assms(2,3,6) by (simp add: lossy_chans_ok_def Let_def config_ok_def)
  then have "contents (ly_chan s sid) \<noteq> []" using full(2) by auto
  then show "ly_sent s sid \<noteq> []" using assms(4,6) full(1) by (auto simp: lossy_received_ok_def)
qed

lemma chan_refused_ok:
  assumes "event_chan_ok ops contents gone capacity"
  shows "ev_try_send ops c e = (SendClosed, c') \<Longrightarrow> gone c'" "ev_send ops c e = (Ready False, c') \<Longrightarrow> gone c'"
    and "ev_try_send ops c e = (SendOk, c') \<Longrightarrow> \<not> gone c" "ev_send ops c e = (Ready True, c') \<Longrightarrow> \<not> gone c"
  using chan_try_send [OF assms, of c e _ c'] chan_send [OF assms, of c e _ c'] by fastforce+

fun in_chunk_loop :: "lossy_phase \<Rightarrow> bool" where
  "in_chunk_loop (Buffered _) = True"
| "in_chunk_loop (Splitting _) = True"
| "in_chunk_loop (Trying _ _ _ _) = True"
| "in_chunk_loop _ = False"

lemma standing_chunk_step:
  assumes "lossy_step ops options name s s'" and "config_ok options" and ops: "event_chan_ok ops contents gone capacity"
    and ok: "lossy_ok contents gone capacity options s"
    and moved: "ly_phase s' \<noteq> ly_phase s \<or> ly_cached s' \<noteq> ly_cached s \<or> ly_lag s' \<noteq> ly_lag s \<or> ly_log s' \<noteq> ly_log s"
    and loop: "in_chunk_loop (ly_phase s)"
  shows "standing_ok gone s'"
proof -
  have chans: "lossy_chans_ok gone capacity options s" and ids: "lossy_ids_ok s" and phase: "lossy_phase_ok options s"
    and st: "standing_ok gone s" and recd: "lossy_received_ok contents gone s"
    using ok by (auto simp: lossy_ok_def lossy_shared_ok_def)
  note ref = chan_refused_ok [OF ops]
  from assms(1) show ?thesis
  proof cases
    case (l_look cached)
    then show ?thesis using standing_look [OF st l_look(2,3)] by (simp add: refresh_cached_active_def)
  next
    case (l_read bs)
    then show ?thesis using standing_read [OF st] by simp
  next
    case (l_no_gap buf lag)
    then show ?thesis using standing_splitting [OF st] by simp
  next
    case (l_gap_inactive buf lag)
    then show ?thesis using standing_splitting [OF st l_gap_inactive(2,4)] by (simp add: observe_active_def)
  next
    case (l_gap_sent buf lag sid ch)
    show ?thesis
      unfolding l_gap_sent(1) by (rule standing_gap_sent [OF st l_gap_sent(2,4,5,6) ref(3) [OF l_gap_sent(7)]])
  next
    case (l_gap_full buf lag sid ch n cs)
    have sid: "sid < ly_next s" using ids l_gap_full(6) by (simp add: lossy_ids_ok_def)
    note g = full_sent(1) [OF ops assms(2) chans recd l_gap_full(7) sid]
    have "ly_active s = None \<or> ly_active s = Some sid" using chans g sid by (auto simp: lossy_chans_ok_def Let_def)
    then show ?thesis
      unfolding l_gap_full(1) by (rule standing_gap_full [OF st l_gap_full(2,4,5,6) g])
  next
    case (l_gap_closed buf lag sid ch)
    show ?thesis
      unfolding l_gap_closed(1)
      by (rule standing_refused [OF st _ l_gap_closed(6) ref(1) [OF l_gap_closed(7)]])
        (use l_gap_closed(2,4,6) in auto)
  next
    case (l_record buf split_to ev recorded cached sh)
    have "log_terminal (ly_log s) = None" using phase l_record(2) by (simp add: lossy_phase_ok_def)
    note r = chans_ok_record [OF chans assms(2) _ this l_record(6)]
    show ?thesis
      using standing_record [OF st l_record(2) r(3,2)] r(1) l_record(5) unfolding l_record(1) by simp
  next
    case (l_try_inactive buf ev recorded retried)
    then show ?thesis using standing_inactive [OF st, of "Buffered buf"] by simp
  next
    case (l_try_sent buf ev recorded retried sid ch)
    show ?thesis
      unfolding l_try_sent(1) by (rule standing_try_sent [OF st phase l_try_sent(2,3) ref(3) [OF l_try_sent(4)]])
  next
    case (l_try_full buf ev recorded retried sid ch)
    have sid: "sid < ly_next s" using ids l_try_full(3) by (simp add: lossy_ids_ok_def)
    show ?thesis
      unfolding l_try_full(1)
      by (rule standing_try_full [OF st phase l_try_full(2,3) full_sent [OF ops assms(2) chans recd l_try_full(4) sid]])
  next
    case (l_try_closed buf ev recorded retried sid ch)
    show ?thesis
      unfolding l_try_closed(1)
      by (rule standing_refused [OF st _ l_try_closed(3) ref(1) [OF l_try_closed(4)]]) (use l_try_closed(2) in auto)
  next
    case (l_end ev recorded cached sh)
    have t: "log_terminal (ly_log s) = None" "ev \<noteq> Gap" using phase l_end(2,3) by (auto simp: lossy_phase_ok_def)
    note r = chans_ok_record [OF chans assms(2) t(2,1) l_end(4)]
    show ?thesis using standing_record_end [OF st l_end(2) r(3,2)] r(1) unfolding l_end(1) by simp
  qed (use moved loop in auto)
qed

lemma standing_end_step:
  assumes "lossy_step ops options name s s'" and "config_ok options" and ops: "event_chan_ok ops contents gone capacity"
    and ok: "lossy_ok contents gone capacity options s"
    and moved: "ly_phase s' \<noteq> ly_phase s \<or> ly_cached s' \<noteq> ly_cached s \<or> ly_lag s' \<noteq> ly_lag s \<or> ly_log s' \<noteq> ly_log s"
    and loop: "\<not> in_chunk_loop (ly_phase s)"
  shows "standing_ok gone s'"
proof -
  have phase: "lossy_phase_ok options s" and st: "standing_ok gone s"
    using ok by (auto simp: lossy_ok_def lossy_shared_ok_def)
  note ref = chan_refused_ok [OF ops]
  from assms(1) show ?thesis
  proof cases
    case (l_final_no_gap ev recorded)
    then show ?thesis using standing_final_no_gap [OF st] by simp
  next
    case (l_final_gap_inactive ev recorded)
    then show ?thesis using standing_inactive [OF st, of "Final ev recorded False"] by simp
  next
    case (l_final_gap_sent ev recorded sid ch)
    show ?thesis
      unfolding l_final_gap_sent(1)
      by (rule standing_final_gap_sent [OF st l_final_gap_sent(2-4) ref(4) [OF l_final_gap_sent(5)]])
  next
    case (l_final_gap_closed ev recorded sid ch)
    show ?thesis
      unfolding l_final_gap_closed(1)
      by (rule standing_refused [OF st _ l_final_gap_closed(4) ref(2) [OF l_final_gap_closed(5)]]) (use l_final_gap_closed(2) in auto)
  next
    case (l_final_inactive ev recorded retried)
    then show ?thesis using standing_inactive [OF st, of Ended "ly_lag s"] by simp
  next
    case (l_final_sent ev recorded retried sid ch)
    show ?thesis
      unfolding l_final_sent(1) by (rule standing_final_sent [OF st phase l_final_sent(2,3) ref(4) [OF l_final_sent(4)]])
  next
    case (l_final_closed ev recorded retried sid ch)
    show ?thesis
      unfolding l_final_closed(1)
      by (rule standing_refused [OF st _ l_final_closed(3) ref(2) [OF l_final_closed(4)]]) (use l_final_closed(2) in auto)
  next
    case (l_unregister k sid)
    then show ?thesis using standing_unregister [OF st] by simp
  next
    case (l_refresh k cached lag phase')
    then show ?thesis using standing_refresh [OF st _ _ phase] by (simp add: refresh_cached_active_def)
  qed (use moved loop in auto)
qed

text \<open>All steps: those of the other tasks leave the reader alone.\<close>

lemma standing_ok_step:
  assumes "lossy_step ops options name s s'" and "config_ok options" and ops: "event_chan_ok ops contents gone capacity"
    and ok: "lossy_ok contents gone capacity options s"
  shows "standing_ok gone s'"
proof (cases "ly_phase s' \<noteq> ly_phase s \<or> ly_cached s' \<noteq> ly_cached s \<or> ly_lag s' \<noteq> ly_lag s \<or> ly_log s' \<noteq> ly_log s")
  case True
  then show ?thesis using standing_chunk_step [OF assms] standing_end_step [OF assms] by blast
next
  case False
  have chans: "lossy_chans_ok gone capacity options s" and ids: "lossy_ids_ok s" and phase: "lossy_phase_ok options s"
    and st: "standing_ok gone s"
    using ok by (auto simp: lossy_ok_def lossy_shared_ok_def)
  note same = False [simplified]
  from assms(1) show ?thesis
  proof cases
    case (l_subscribe sub sh)
    show ?thesis unfolding l_subscribe(1) by (rule standing_subscribe [OF st chans ids phase l_subscribe(3)])
  next
    case (l_seal sh)
    have "ss_ok (sh_state (ly_shared s))" using chans by (simp add: lossy_chans_ok_def Let_def)
    from ss_seal_ok [OF this] show ?thesis
      using l_seal(2) unfolding l_seal(1) by (intro standing_ok_other [OF st]) (auto simp: single_seal_replay_def)
  next
    case (l_receive sid ev ch)
    show ?thesis
      unfolding l_receive(1) by (rule standing_ok_other [OF st]) (use chan_mono(3) [OF ops l_receive(4)] in auto)
  next
    case (l_drop_receiver sid)
    show ?thesis
      unfolding l_drop_receiver(1) by (rule standing_ok_other [OF st]) (use chan_new(3) [OF ops] in auto)
  next
    case (l_unsubscribe sid)
    show ?thesis unfolding l_unsubscribe(1) by (rule standing_ok_other [OF st]) (auto split: if_splits)
  next
    case l_drop
    show ?thesis unfolding l_drop(1) by (rule standing_ok_other [OF st]) auto
  next
    case (l_final_gap_blocked ev recorded sid ch)
    show ?thesis
      unfolding l_final_gap_blocked(1)
      by (rule standing_ok_other [OF st]) (use chan_mono(2) [OF ops l_final_gap_blocked(5)] in auto)
  next
    case (l_final_blocked ev recorded retried sid ch)
    show ?thesis
      unfolding l_final_blocked(1)
      by (rule standing_ok_other [OF st]) (use chan_mono(2) [OF ops l_final_blocked(4)] in auto)
  next
    case (l_look cached)
    then show ?thesis using standing_look [OF st l_look(2,3)] by (simp add: refresh_cached_active_def)
  next
    case (l_read bs)
    then show ?thesis using standing_read [OF st] by simp
  next
    case (l_gap_full buf lag sid ch n cs)
    then show ?thesis using same by simp
  next
    case (l_refresh k cached lag phase')
    then show ?thesis using standing_refresh [OF st _ _ phase] by (simp add: refresh_cached_active_def)
  qed (use same in simp_all)
qed

section \<open>What every subscriber was sent and received\<close>

lemma newcomer_stands:
  "ly_start s a = length (ly_log s) \<Longrightarrow> ly_sent s a = [] \<Longrightarrow> stands s False a (length (ly_log s))"
  unfolding stands_def by (intro exI [of _ "length (ly_log s)"]) (simp add: marked_Nil)

lemma noticed_stands:
  assumes "noticed s a"
  shows "\<exists>n b. n \<le> length (ly_log s) \<and> stands s b a n"
proof -
  have "\<exists>b. stands s b a (length (ly_log s)) \<or> stands s b a (length (ly_log s) - 1)"
    using assms unnoticed_stands [of s a] newcomer_stands [of s a]
    by (cases "ly_phase s") (auto simp: noticed_def Let_def split: if_splits)
  then show ?thesis by (meson diff_le_self order_refl)
qed

lemma blocks_ok_log:
  assumes "lossy_blocks_ok s" and "ly_log s' = ly_log s @ es" "ly_start s' = ly_start s" "ly_snap s' = ly_snap s" "ly_term s' = ly_term s"
    "ly_sent s' = ly_sent s" "ly_next s' = ly_next s"
  shows "lossy_blocks_ok s'"
  unfolding lossy_blocks_ok_def
proof (intro allI impI conjI)
  fix a
  assume "a < ly_next s'"
  then obtain n b where n: "ly_start s a \<le> length (ly_log s)" "n \<le> length (ly_log s)" "stands s b a n"
    using assms(1,7) by (auto simp: lossy_blocks_ok_def)
  show "ly_start s' a \<le> length (ly_log s')" using n(1) assms(2,3) by simp
  have "stands s' b a n" by (rule stands_log [OF n(3,2)]) (simp_all add: assms)
  then show "\<exists>n b. n \<le> length (ly_log s') \<and> stands s' b a n"
    using n(2) assms(2) by (intro exI [of _ n] exI [of _ b]) simp
qed

lemma blocks_ok_sent:
  assumes "lossy_blocks_ok s" and "ly_log s' = ly_log s" "ly_start s' = ly_start s" "ly_snap s' = ly_snap s" "ly_term s' = ly_term s"
    "ly_sent s' = (ly_sent s)(sid := es)" "ly_next s' = ly_next s"
    and "standing_ok gone s'" "\<not> is_refused (ly_phase s')" "ly_cached s' = Some sid" "\<not> gone (ly_chan s' sid)"
  shows "lossy_blocks_ok s'"
  unfolding lossy_blocks_ok_def
proof (intro allI impI conjI)
  fix a
  assume a: "a < ly_next s'"
  then show "ly_start s' a \<le> length (ly_log s')" using assms(1-7) by (simp add: lossy_blocks_ok_def)
  show "\<exists>n b. n \<le> length (ly_log s') \<and> stands s' b a n"
  proof (cases "a = sid")
    case True
    then show ?thesis using noticed_stands standing_ok_noticed [OF assms(8-11)] by blast
  next
    case False
    then have "stands s' b a n = stands s b a n" for b n using assms(2-6) by (intro stands_cong) simp_all
    then show ?thesis using a assms(1,2,7) by (simp add: lossy_blocks_ok_def)
  qed
qed

lemma blocks_ok_subscribe:
  assumes "lossy_blocks_ok s" and "single_try_subscribe ops options name (ly_shared s) = Inr (sub, sh)"
  shows "lossy_blocks_ok
     (s\<lparr>ly_shared := sh, ly_start := (ly_start s)(ssub_id sub := length (ly_log s)),
        ly_snap := (ly_snap s)(ssub_id sub := ssub_replay sub), ly_term := (ly_term s)(ssub_id sub := ssub_terminal_event sub),
        ly_sent := (ly_sent s)(ssub_id sub := []), ly_recd := (ly_recd s)(ssub_id sub := [])\<rparr>)" (is "lossy_blocks_ok ?s")
proof -
  note sub = subscribe_ok [OF assms(2)]
  have "stands ?s b a n = stands s b a n" if "a \<noteq> ssub_id sub" for a b n using that by (intro stands_cong) simp_all
  moreover have "stands ?s False (ssub_id sub) (length (ly_log ?s))" by (rule newcomer_stands) simp_all
  ultimately show ?thesis
    using assms(1) sub(2,5) unfolding lossy_blocks_ok_def by (auto simp: less_Suc_eq)
qed

lemma lossy_blocks_ok_step:
  assumes "lossy_step ops options name s s'" and "config_ok options" and ops: "event_chan_ok ops contents gone capacity"
    and ok: "lossy_ok contents gone capacity options s" and st: "standing_ok gone s'"
  shows "lossy_blocks_ok s'"
proof -
  have chans: "lossy_chans_ok gone capacity options s" and phase: "lossy_phase_ok options s" and blocks: "lossy_blocks_ok s"
    using ok by (auto simp: lossy_ok_def lossy_shared_ok_def)
  from assms(1) show ?thesis
  proof cases
    case (l_record buf split_to ev recorded cached sh)
    have "log_terminal (ly_log s) = None" using phase l_record(2) by (simp add: lossy_phase_ok_def)
    note r = chans_ok_record(4) [OF chans assms(2) _ this l_record(6)]
    show ?thesis unfolding l_record(1) by (rule blocks_ok_log [OF blocks, of _ "[ev]"]) (use r l_record(5) in auto)
  next
    case (l_end ev recorded cached sh)
    have t: "log_terminal (ly_log s) = None" "ev \<noteq> Gap" using phase l_end(2,3) by (auto simp: lossy_phase_ok_def)
    note r = chans_ok_record(4) [OF chans assms(2) t(2,1) l_end(4)]
    show ?thesis unfolding l_end(1) by (rule blocks_ok_log [OF blocks, of _ "[ev]"]) (use r in auto)
  next
    case (l_gap_full buf lag sid ch n cs)
    show ?thesis unfolding l_gap_full(1) by (rule blocks_ok_log [OF blocks, of _ "map Chunk cs"]) auto
  next
    case (l_gap_sent buf lag sid ch)
    have "\<not> gone ch" using chan_try_send [OF ops l_gap_sent(7)] by simp
    then show ?thesis by (intro blocks_ok_sent [where sid = sid, OF blocks _ _ _ _ _ _ st]) (use l_gap_sent(1,6) in simp_all)
  next
    case (l_try_sent buf ev recorded retried sid ch)
    have "\<not> gone ch" using chan_try_send [OF ops l_try_sent(4)] by simp
    then show ?thesis by (intro blocks_ok_sent [where sid = sid, OF blocks _ _ _ _ _ _ st]) (use l_try_sent(1,3) in simp_all)
  next
    case (l_final_gap_sent ev recorded sid ch)
    have "\<not> gone ch" using chan_send [OF ops l_final_gap_sent(5)] by simp
    then show ?thesis by (intro blocks_ok_sent [where sid = sid, OF blocks _ _ _ _ _ _ st]) (use l_final_gap_sent(1,4) in simp_all)
  next
    case (l_final_sent ev recorded retried sid ch)
    have "\<not> gone ch" using chan_send [OF ops l_final_sent(4)] by simp
    then show ?thesis by (intro blocks_ok_sent [where sid = sid, OF blocks _ _ _ _ _ _ st]) (use l_final_sent(1,3) in simp_all)
  next
    case (l_subscribe sub sh)
    show ?thesis unfolding l_subscribe(1) by (rule blocks_ok_subscribe [OF blocks l_subscribe(3)])
  next
    case (l_seal sh)
    have "ss_ok (sh_state (ly_shared s))" using chans by (simp add: lossy_chans_ok_def Let_def)
    from ss_seal_ok [OF this] show ?thesis
      using l_seal(2) unfolding l_seal(1) by (intro blocks_ok_log [OF blocks, of _ "[]"]) (auto simp: single_seal_replay_def)
  qed ((rule blocks_ok_log [OF blocks, of _ "[]"]; simp; fail)+)
qed

lemma received_ok_chan:
  assumes "lossy_received_ok contents gone s" and "ly_next s' = ly_next s" and "ly_term s' = ly_term s"
    and "\<And>a. ly_term s a \<noteq> None \<Longrightarrow> ly_recd s' a = ly_recd s a"
    and "\<And>a. a \<noteq> sid \<Longrightarrow> ly_chan s' a = ly_chan s a \<and> ly_recd s' a = ly_recd s a \<and> ly_sent s' a = ly_sent s a"
    and "\<not> gone (ly_chan s' sid) \<Longrightarrow> \<not> gone (ly_chan s sid) \<and>
      (ly_recd s sid @ contents (ly_chan s sid) = ly_sent s sid \<longrightarrow> ly_recd s' sid @ contents (ly_chan s' sid) = ly_sent s' sid)"
  shows "lossy_received_ok contents gone s'"
  using assms unfolding lossy_received_ok_def by metis

text \<open>A send appends to what was sent exactly if it appends to the channel.\<close>

lemma received_ok_tried:
  assumes ops: "event_chan_ok ops contents gone capacity" and recd: "lossy_received_ok contents gone s"
    and send: "ev_try_send ops (ly_chan s sid) ev = (r, ch)"
    and "ly_shared s' = put_chan (ly_shared s) sid ch" "ly_term s' = ly_term s" "ly_recd s' = ly_recd s"
      "ly_sent s' = (if r = SendOk then (ly_sent s)(sid := ly_sent s sid @ [ev]) else ly_sent s)"
  shows "lossy_received_ok contents gone s'"
  by (rule received_ok_chan [where sid = sid, OF recd])
    (use chan_try_send [OF ops send] assms(4-7) in \<open>auto split: try_send_result.splits\<close>)

lemma received_ok_awaited:
  assumes ops: "event_chan_ok ops contents gone capacity" and recd: "lossy_received_ok contents gone s"
    and send: "ev_send ops (ly_chan s sid) ev = (r, ch)"
    and "ly_shared s' = put_chan (ly_shared s) sid ch" "ly_term s' = ly_term s" "ly_recd s' = ly_recd s"
      "ly_sent s' = (if r = Ready True then (ly_sent s)(sid := ly_sent s sid @ [ev]) else ly_sent s)"
  shows "lossy_received_ok contents gone s'"
  by (rule received_ok_chan [where sid = sid, OF recd])
    (use chan_send [OF ops send] assms(4-7) in \<open>auto split: poll_result.splits bool.splits if_splits\<close>)

lemma lossy_received_ok_step:
  assumes "lossy_step ops options name s s'" and "config_ok options" and ops: "event_chan_ok ops contents gone capacity"
    and ok: "lossy_ok contents gone capacity options s"
  shows "lossy_received_ok contents gone s'"
proof -
  have chans: "lossy_chans_ok gone capacity options s" and phase: "lossy_phase_ok options s"
    and recd: "lossy_received_ok contents gone s"
    using ok by (auto simp: lossy_ok_def lossy_shared_ok_def)
  from assms(1) show ?thesis
  proof cases
    case (l_record buf split_to ev recorded cached sh)
    have "log_terminal (ly_log s) = None" using phase l_record(2) by (simp add: lossy_phase_ok_def)
    note r = chans_ok_record(3,4) [OF chans assms(2) _ this l_record(6)]
    show ?thesis using recd r l_record(5) unfolding l_record(1) by (simp add: lossy_received_ok_def)
  next
    case (l_end ev recorded cached sh)
    have t: "log_terminal (ly_log s) = None" "ev \<noteq> Gap" using phase l_end(2,3) by (auto simp: lossy_phase_ok_def)
    note r = chans_ok_record(3,4) [OF chans assms(2) t(2,1) l_end(4)]
    show ?thesis using recd r unfolding l_end(1) by (simp add: lossy_received_ok_def)
  next
    case (l_subscribe sub sh)
    note sub = subscribe_ok [OF l_subscribe(3)]
    show ?thesis
      using recd sub(2,5,7) chan_new(1) [OF ops] unfolding l_subscribe(1) by (auto simp: lossy_received_ok_def less_Suc_eq)
  next
    case (l_receive sid ev ch)
    have "gone ch = gone (ly_chan s sid)" "contents (ly_chan s sid) = ev # contents ch"
      using chan_recv [OF ops l_receive(4)] by auto
    then show ?thesis
      unfolding l_receive(1) by (intro received_ok_chan [where sid = sid, OF recd]) (use l_receive(3) in auto)
  next
    case (l_drop_receiver sid)
    show ?thesis
      unfolding l_drop_receiver(1)
      by (rule received_ok_chan [where sid = sid, OF recd]) (use chan_new(3) [OF ops] in auto)
  next
    case (l_seal sh)
    have "ss_ok (sh_state (ly_shared s))" using chans by (simp add: lossy_chans_ok_def Let_def)
    from ss_seal_ok [OF this] show ?thesis
      using recd l_seal(2) unfolding l_seal(1) by (auto simp: lossy_received_ok_def single_seal_replay_def)
  qed ((use recd in \<open>simp add: lossy_received_ok_def; fail\<close>)
      | (rule received_ok_tried [OF ops recd], assumption, simp_all; fail)
      | (rule received_ok_awaited [OF ops recd], assumption, simp_all; fail))+
qed

lemma lossy_ok_reachable:
  assumes "lossy_reachable ops options name s" and "config_ok options" and "event_chan_ok ops contents gone capacity"
  shows "lossy_ok contents gone capacity options s"
  using assms(1)
proof (induction rule: lossy_reachable.induct)
  case (lossy_init s)
  then have "ly_next s = 0" by (simp add: lossy_initial_def configured_shared_new_def replay_state_new_def)
  with lossy_init show ?case
    by (simp add: lossy_initial_def lossy_ok_def lossy_shared_ok_def lossy_chans_ok_def lossy_ids_ok_def lossy_phase_ok_def standing_ok_def
        lossy_blocks_ok_def lossy_received_ok_def Let_def configured_shared_new_def best_effort_lag_default_def)
      (simp add: replay_state_new_def)
next
  case (lossy_next s s')
  note step = lossy_next.hyps(2) and ok = lossy_next.IH
  have parts: "lossy_chans_ok gone capacity options s" "lossy_ids_ok s" "lossy_phase_ok options s" "standing_ok gone s"
    using ok by (auto simp: lossy_ok_def lossy_shared_ok_def)
  have st: "standing_ok gone s'" by (rule standing_ok_step [OF step assms(2,3) ok])
  show ?case
    unfolding lossy_ok_def lossy_shared_ok_def
    using st chans_ok_step [OF step assms(2,3) parts(1,3,4)] ids_ok_step [OF step assms(2) parts(1-3)]
      lossy_phase_ok_step [OF step assms(2) parts(1,3)] lossy_blocks_ok_step [OF step assms(2,3) ok st]
      lossy_received_ok_step [OF step assms(2,3) ok] by blast
qed

end
