(* ===== verification/Best_Effort_Reader.thy ===== *)
theory Best_Effort_Reader
  imports Single_Best_Effort
begin

text \<open>
  The best-effort reader of the single-subscriber backend as the code runs it: \<open>read_chunked_best_effort\<close> is a
  run of the steps of \<open>Single_Best_Effort\<close>, round by round, and it never panics.  With the invariant of these
  steps this gives what a subscriber of a lossy stream sees, in every interleaving and for a run of the
  reader on its own.
\<close>

section \<open>The reader loop takes these steps\<close>

lemma lossy_steps_reachable:
  "(lossy_step ops options name)\<^sup>*\<^sup>* s s' \<Longrightarrow> lossy_reachable ops options name s \<Longrightarrow> lossy_reachable ops options name s'"
  by (induction rule: rtranclp_induct) (auto intro: lossy_next)

text \<open>What a run of the reader alone keeps: who subscribed where, and what they received.\<close>

definition lossy_run ::
  "'ch event_chan_ops \<Rightarrow> stream_config \<Rightarrow> string \<Rightarrow> 'ch lossy_sys \<Rightarrow> stream_event list \<Rightarrow> 'ch lossy_sys \<Rightarrow> bool" where
  "lossy_run ops options name s evs s' \<longleftrightarrow>
     (lossy_step ops options name)\<^sup>*\<^sup>* s s' \<and> ly_log s' = ly_log s @ evs \<and>
     ly_start s' = ly_start s \<and> ly_snap s' = ly_snap s \<and> ly_term s' = ly_term s \<and> ly_recd s' = ly_recd s"

lemma lossy_run_refl: "lossy_run ops options name s [] s"
  by (simp add: lossy_run_def)

lemma lossy_run_trans:
  "lossy_run ops options name s evs s' \<Longrightarrow> lossy_run ops options name s' evs' s'' \<Longrightarrow> lossy_run ops options name s (evs @ evs') s''"
  unfolding lossy_run_def by (auto intro: rtranclp_trans)

lemma lossy_run_step:
  assumes "lossy_step ops options name s s'" and "ly_log s' = ly_log s @ evs"
    and "ly_start s' = ly_start s" "ly_snap s' = ly_snap s" "ly_term s' = ly_term s" "ly_recd s' = ly_recd s"
  shows "lossy_run ops options name s evs s'"
  using assms by (auto simp: lossy_run_def)

definition lossy_at :: "'ch lossy_sys \<Rightarrow> best_effort_lag \<Rightarrow> u64 option \<Rightarrow> 'ch configured_shared \<Rightarrow> lossy_phase \<Rightarrow> bool" where
  "lossy_at s lag cached sh phase \<longleftrightarrow> ly_lag s = lag \<and> ly_cached s = cached \<and> ly_shared s = sh \<and> ly_phase s = phase"

text \<open>After a failed send: unregister, look up, go on.\<close>

lemma refusal_run:
  assumes "lossy_run ops options name s evs s1" and "lossy_at s1 lag cached sh (Refused k sid)"
    and "send_failed sid sh = (cached', sh')" and "resume k lag cached' = (lag', phase)"
  shows "\<exists>s'. lossy_run ops options name s evs s' \<and> lossy_at s' lag' cached' sh' phase"
proof -
  let ?s2 = "s1\<lparr>ly_shared := clear_active_if_current (ly_shared s1) sid, ly_phase := LookAgain k\<rparr>"
  let ?s3 = "?s2\<lparr>ly_cached := cached', ly_lag := lag', ly_phase := phase\<rparr>"
  have "lossy_run ops options name s1 [] ?s2"
    using assms(2) l_unregister [of s1 k sid ops options name] by (intro lossy_run_step) (simp_all add: lossy_at_def)
  moreover have "lossy_run ops options name ?s2 [] ?s3"
    using assms(2-4) l_refresh [of ?s2 k cached' lag' phase ops options name]
    by (intro lossy_run_step) (auto simp: lossy_at_def send_failed_def Let_def)
  ultimately have "lossy_run ops options name s (evs @ [] @ []) ?s3" using assms(1) by (blast intro: lossy_run_trans)
  then show ?thesis using assms(2-4) by (intro exI [of _ ?s3]) (auto simp: lossy_at_def send_failed_def Let_def)
qed

text \<open>The round that sends a pending gap.\<close>

lemma try_send_gap:
  "try_send_best_effort_event ops Gap retention False None sh = Inr (Inactive, None, sh)"
  "ev_try_send ops (sh_chans sh sid) Gap = (SendOk, ch) \<Longrightarrow>
     try_send_best_effort_event ops Gap retention False (Some sid) sh = Inr (Delivered, Some sid, put_chan sh sid ch)"
  "ev_try_send ops (sh_chans sh sid) Gap = (SendFull, ch) \<Longrightarrow>
     try_send_best_effort_event ops Gap retention False (Some sid) sh = Inr (ChannelFull, Some sid, put_chan sh sid ch)"
  "ev_try_send ops (sh_chans sh sid) Gap = (SendClosed, ch) \<Longrightarrow> send_failed sid (put_chan sh sid ch) = (cached', sh') \<Longrightarrow>
     try_send_best_effort_event ops Gap retention False (Some sid) sh = Inr (Inactive, cached', sh')"
  unfolding try_send_best_effort_event_def by (subst try_send_loop.simps, simp)+

lemma gap_round_full:
  assumes "lossy_at s lag (Some sid) sh (Buffered buf)" and "buf \<noteq> []" and "gap_pending (observe_active lag (Some sid))"
    and "ev_try_send ops (sh_chans sh sid) Gap = (SendFull, ch)"
    and "send_pending_gap ops (read_chunk_size options) retention (length buf) (observe_active lag (Some sid), Some sid, sh)
      = Inr (go_on, lag', cached', sh')"
    and "split_chunks (bytes (read_chunk_size options)) buf = Inr cs"
  shows "\<not> go_on \<and> (\<exists>s'. lossy_run ops options name s (map Chunk cs) s' \<and> lossy_at s' lag' cached' sh' (Buffered []))"
proof -
  define upd where "upd n = (observe_active lag (Some sid))\<lparr>lagged := lagged (observe_active lag (Some sid)) + n\<rparr>" for n
  have s: "ly_lag s = lag" "ly_cached s = Some sid" "ly_shared s = sh" "ly_phase s = Buffered buf"
    using assms(1) by (auto simp: lossy_at_def)
  have "(case buffered_chunk_count (length buf) (read_chunk_size options) of Inl e \<Rightarrow> Inl e
      | Inr n \<Rightarrow> Inr (False, upd n, Some sid, put_chan sh sid ch)) = Inr (go_on, lag', cached', sh')"
    using assms(3-5) unfolding upd_def by (simp add: send_pending_gap_def try_send_gap)
  then obtain n where n: "buffered_chunk_count (length buf) (read_chunk_size options) = Inr n"
      "go_on = False" "upd n = lag'" "cached' = Some sid" "sh' = put_chan sh sid ch"
    by (auto split: sum.splits)
  have "lossy_step ops options name s (s\<lparr>ly_shared := put_chan (ly_shared s) sid ch, ly_lag := upd n,
      ly_phase := Buffered [], ly_log := ly_log s @ map Chunk cs\<rparr>)"
    using l_gap_full [OF s(4) assms(2) _ _ s(2) _ n(1) assms(6)] assms(3,4) s unfolding upd_def by simp
  from lossy_run_step [OF this, of "map Chunk cs"] show ?thesis using n(2-5) s by (auto simp: lossy_at_def)
qed

lemma gap_round:
  assumes "lossy_at s lag cached sh (Buffered buf)" and "buf \<noteq> []"
    and "send_pending_gap ops (read_chunk_size options) retention (length buf) (observe_active lag cached, cached, sh)
      = Inr (go_on, lag', cached', sh')"
    and "split_chunks (bytes (read_chunk_size options)) buf = Inr cs"
  shows "\<exists>s'. lossy_run ops options name s (if go_on then [] else map Chunk cs) s' \<and>
     lossy_at s' lag' cached' sh' (if go_on then Splitting buf else Buffered [])"
proof -
  let ?lag = "observe_active lag cached"
  have s: "ly_lag s = lag" "ly_cached s = cached" "ly_shared s = sh" "ly_phase s = Buffered buf"
    using assms(1) by (auto simp: lossy_at_def)
  note run = lossy_run_step [where evs = "[]" and options = options and name = name and s = s]
  have l: "?lag = observe_active (ly_lag s) (ly_cached s)" using s by simp
  obtain r ch where t: "ev_try_send ops (ly_chan s (the cached)) Gap = (r, ch)" by fastforce
  consider "\<not> gap_pending ?lag" | "gap_pending ?lag" "cached = None"
    | (sent) sid ch where "gap_pending ?lag" "cached = Some sid" "ev_try_send ops (ly_chan s sid) Gap = (SendOk, ch)"
    | (full) sid ch where "gap_pending ?lag" "cached = Some sid" "ev_try_send ops (ly_chan s sid) Gap = (SendFull, ch)"
    | (closed) sid ch where "gap_pending ?lag" "cached = Some sid" "ev_try_send ops (ly_chan s sid) Gap = (SendClosed, ch)"
    using t by (cases "gap_pending ?lag"; cases cached; cases r) auto
  then show ?thesis
  proof cases
    case 1
    from run [OF l_no_gap [OF s(4) assms(2) l 1], of ops] show ?thesis
      using 1 assms(3) s by (intro exI) (auto simp: send_pending_gap_def lossy_at_def)
  next
    case 2
    note c = s(2) [unfolded 2(2)]
    from run [OF l_gap_inactive [OF s(4) assms(2) l 2(1) c], of ops] show ?thesis
      using 2 assms(3) s by (intro exI) (auto simp: send_pending_gap_def try_send_gap lossy_at_def)
  next
    case sent
    note c = s(2) [unfolded sent(2)]
    from run [OF l_gap_sent [OF s(4) assms(2) l sent(1) c sent(3)]] show ?thesis
      using sent assms(3) s by (intro exI) (auto simp: send_pending_gap_def try_send_gap lossy_at_def)
  next
    case full
    from gap_round_full [OF assms(1) [unfolded full(2)] assms(2) full(1) [unfolded full(2)]
        full(3) [unfolded s(3)] assms(3) [unfolded full(2)] assms(4)]
    show ?thesis by simp
  next
    case closed
    note c = s(2) [unfolded closed(2)]
    obtain s1 where run1: "lossy_run ops options name s [] s1"
        and at1: "lossy_at s1 ?lag cached (put_chan sh sid ch) (Refused (AfterGap buf) sid)"
      using run [OF l_gap_closed [OF s(4) assms(2) l closed(1) c closed(3)]] s by (fastforce simp: lossy_at_def)
    obtain cached1 sh1 where f: "send_failed sid (put_chan sh sid ch) = (cached1, sh1)" by fastforce
    from refusal_run [OF run1 at1 f resume.simps(1)] show ?thesis
      using closed assms(3) f s(3) by (auto simp: send_pending_gap_def try_send_gap)
  qed
qed

text \<open>What the reader notes after trying to send a chunk.\<close>

fun chunk_lag :: "best_effort_send \<Rightarrow> best_effort_lag \<Rightarrow> u64 option \<Rightarrow> best_effort_lag" where
  "chunk_lag Delivered lag cached = log_if_lagged lag"
| "chunk_lag ChannelFull lag cached = lag\<lparr>lagged := lagged lag + 1, gap_pending := True\<rparr>"
| "chunk_lag Inactive lag cached = observe_active lag cached"

lemma try_send_chunk:
  "try_send_loop ops ev recorded True retried None sh = (Inactive, None, sh)"
  "ev_try_send ops (sh_chans sh sid) ev = (SendOk, ch) \<Longrightarrow>
     try_send_loop ops ev recorded True retried (Some sid) sh = (Delivered, Some sid, put_chan sh sid ch)"
  "ev_try_send ops (sh_chans sh sid) ev = (SendFull, ch) \<Longrightarrow>
     try_send_loop ops ev recorded True retried (Some sid) sh = (ChannelFull, Some sid, put_chan sh sid ch)"
  "ev_try_send ops (sh_chans sh sid) ev = (SendClosed, ch) \<Longrightarrow> send_failed sid (put_chan sh sid ch) = (cached', sh') \<Longrightarrow>
     try_send_loop ops ev recorded True retried (Some sid) sh =
       (if recorded \<or> retried then (Inactive, cached', sh') else try_send_loop ops ev recorded True True cached' sh')"
  by (subst try_send_loop.simps, simp)+

lemma try_round:
  assumes "lossy_at s lag cached sh (Trying buf ev recorded retried)"
    and "try_send_loop ops ev recorded True retried cached sh = (r, cached', sh')"
  shows "\<exists>s'. lossy_run ops options name s [] s' \<and> (lossy_at s' (chunk_lag r lag cached') cached' sh' (Buffered buf) \<or>
      \<not> retried \<and> (\<exists>cached1 sh1. lossy_at s' lag cached1 sh1 (Trying buf ev recorded True) \<and>
        try_send_loop ops ev recorded True True cached1 sh1 = (r, cached', sh')))"
proof -
  have s: "ly_lag s = lag" "ly_cached s = cached" "ly_shared s = sh" "ly_phase s = Trying buf ev recorded retried"
    using assms(1) by (auto simp: lossy_at_def)
  show ?thesis
  proof (cases cached)
    case None
    from lossy_run_step [where evs = "[]" and ops = ops and options = options and name = name, OF l_try_inactive [OF s(4) s(2) [unfolded None]]] show ?thesis
      using assms(2) s None by (intro exI) (auto simp: try_send_chunk lossy_at_def)
  next
    case (Some sid)
    note c = s(2) [unfolded Some]
    obtain res ch where t: "ev_try_send ops (ly_chan s sid) ev = (res, ch)" by fastforce
    show ?thesis
    proof (cases res)
      case SendOk
      from lossy_run_step [where evs = "[]" and options = options and name = name, OF l_try_sent [OF s(4) c t [unfolded SendOk]]] show ?thesis
        using assms(2) s t SendOk Some by (intro exI) (auto simp: try_send_chunk lossy_at_def)
    next
      case SendFull
      from lossy_run_step [where evs = "[]" and options = options and name = name, OF l_try_full [OF s(4) c t [unfolded SendFull]]] show ?thesis
        using assms(2) s t SendFull Some by (intro exI) (auto simp: try_send_chunk lossy_at_def)
    next
      case SendClosed
      let ?k = "AfterChunk buf ev recorded retried"
      obtain cached1 sh1 where f: "send_failed sid (put_chan sh sid ch) = (cached1, sh1)" by fastforce
      obtain s1 where run1: "lossy_run ops options name s [] s1" and at1: "lossy_at s1 lag cached (put_chan sh sid ch) (Refused ?k sid)"
        using lossy_run_step [where evs = "[]" and options = options and name = name, OF l_try_closed [OF s(4) c t [unfolded SendClosed]]] s
        by (fastforce simp: lossy_at_def)
      obtain lag2 phase2 where res: "resume ?k lag cached1 = (lag2, phase2)" by fastforce
      from refusal_run [OF run1 at1 f res]
      obtain s2 where s2: "lossy_run ops options name s [] s2" "lossy_at s2 lag2 cached1 sh1 phase2" by blast
      show ?thesis
        using s2 assms(2) res t SendClosed f s(3) Some
        by (intro exI [of _ s2]) (auto simp: try_send_chunk split: if_splits)
    qed
  qed
qed

lemma chunk_round:
  assumes "lossy_at s lag cached sh (Splitting buf)" and "split_to = min (bytes (read_chunk_size options)) (length buf)" "split_to \<noteq> 0"
    and "send_chunk ops (config_replay_retention options) (take split_to buf) (lag, cached, sh) = Inr (lag', cached', sh')"
  shows "\<exists>s'. lossy_run ops options name s [Chunk (take split_to buf)] s' \<and> lossy_at s' lag' cached' sh' (Buffered (drop split_to buf))"
proof -
  let ?ev = "Chunk (take split_to buf)"
  have s: "ly_lag s = lag" "ly_shared s = sh" "ly_phase s = Splitting buf" using assms(1) by (auto simp: lossy_at_def)
  obtain recorded cached1 sh1 r where rec: "record_event ?ev (config_replay_retention options) sh = Inr (recorded, cached1, sh1)"
      "try_send_loop ops ?ev recorded True False cached1 sh1 = (r, cached', sh')" "lag' = chunk_lag r lag cached'"
    using assms(4) by (auto simp: send_chunk_def try_send_best_effort_event_def split: sum.splits best_effort_send.splits prod.splits)
  let ?s1 = "s\<lparr>ly_shared := sh1, ly_cached := cached1, ly_phase := Trying (drop split_to buf) ?ev recorded False, ly_log := ly_log s @ [?ev]\<rparr>"
  have "lossy_step ops options name s ?s1" using l_record [OF s(3) assms(2,3) refl] rec(1) s(2) by simp
  then have run1: "lossy_run ops options name s [?ev] ?s1" by (rule lossy_run_step) simp_all
  have at1: "lossy_at ?s1 lag cached1 sh1 (Trying (drop split_to buf) ?ev recorded False)" using s by (simp add: lossy_at_def)
  have again: "\<exists>s3. lossy_run ops options name s2 [] s3 \<and> lossy_at s3 lag' cached' sh' (Buffered (drop split_to buf))"
    if "lossy_at s2 lag c2 sh2 (Trying (drop split_to buf) ?ev recorded True)" "try_send_loop ops ?ev recorded True True c2 sh2 = (r, cached', sh')"
    for s2 c2 sh2 using try_round [OF that] rec(3) by blast
  obtain s2 where "lossy_run ops options name ?s1 [] s2" "lossy_at s2 lag' cached' sh' (Buffered (drop split_to buf)) \<or>
      (\<exists>c2 sh2. lossy_at s2 lag c2 sh2 (Trying (drop split_to buf) ?ev recorded True) \<and>
        try_send_loop ops ?ev recorded True True c2 sh2 = (r, cached', sh'))"
    using try_round [OF at1 rec(2), of options name] rec(3) by blast
  then obtain s3 where "lossy_run ops options name ?s1 [] s3" "lossy_at s3 lag' cached' sh' (Buffered (drop split_to buf))"
    using again lossy_run_trans [of ops options name ?s1 "[]" s2 "[]"] by fastforce
  then show ?thesis using lossy_run_trans [OF run1] by fastforce
qed

text \<open>The chunk loop: whatever becomes of its chunks, the buffer is consumed and logged.\<close>

lemma split_chunks_step:
  assumes "buf \<noteq> []" and "split_chunks n buf = Inr cs"
  shows "min n (length buf) \<noteq> 0" and "\<exists>cs'. cs = take (min n (length buf)) buf # cs' \<and> split_chunks n (drop (min n (length buf)) buf) = Inr cs'"
  using assms by (auto simp: split_chunks.simps [of n buf] Let_def split: if_splits sum.splits)

lemma best_effort_chunks_steps:
  assumes "lossy_at s lag cached sh (Buffered buf)"
    and "best_effort_chunks ops (read_chunk_size options) (config_replay_retention options) buf (lag, cached, sh) = Inr (lag', cached', sh')"
    and "split_chunks (bytes (read_chunk_size options)) buf = Inr cs"
  shows "\<exists>s'. lossy_run ops options name s (map Chunk cs) s' \<and> lossy_at s' lag' cached' sh' (Buffered [])"
  using assms
proof (induction "length buf" arbitrary: buf s lag cached sh cs rule: less_induct)
  case less
  let ?c = "read_chunk_size options" and ?r = "config_replay_retention options"
  let ?k = "min (bytes ?c) (length buf)"
  show ?case
  proof (cases "buf = []")
    case True
    then show ?thesis
      using less.prems lossy_run_refl [of ops options name s]
      by (intro exI [of _ s]) (simp add: best_effort_chunks.simps split_chunks.simps)
  next
    case ne: False
    obtain go_on lag1 cached1 sh1 where gap: "send_pending_gap ops ?c ?r (length buf) (observe_active lag cached, cached, sh)
        = Inr (go_on, lag1, cached1, sh1)"
      using less.prems(2) ne by (subst (asm) best_effort_chunks.simps) (auto split: sum.splits)
    obtain s1 where s1: "lossy_run ops options name s (if go_on then [] else map Chunk cs) s1"
        "lossy_at s1 lag1 cached1 sh1 (if go_on then Splitting buf else Buffered [])"
      using gap_round [OF less.prems(1) ne gap less.prems(3)] by blast
    note k = split_chunks_step [OF ne less.prems(3)]
    show ?thesis
    proof (cases go_on)
      case False
      then have "lag' = lag1" "cached' = cached1" "sh' = sh1"
        using less.prems(2) ne gap by (subst (asm) best_effort_chunks.simps, simp)+
      then show ?thesis using s1 False by auto
    next
      case True
      obtain lag2 cached2 sh2 where chunk: "send_chunk ops ?r (take ?k buf) (lag1, cached1, sh1) = Inr (lag2, cached2, sh2)"
          "best_effort_chunks ops ?c ?r (drop ?k buf) (lag2, cached2, sh2) = Inr (lag', cached', sh')"
        using less.prems(2) ne gap True k(1) by (subst (asm) best_effort_chunks.simps) (auto simp: Let_def split: sum.splits)
      obtain cs' where cs: "cs = take ?k buf # cs'" "split_chunks (bytes ?c) (drop ?k buf) = Inr cs'" using k(2) by blast
      obtain s2 where s2: "lossy_run ops options name s1 [Chunk (take ?k buf)] s2" "lossy_at s2 lag2 cached2 sh2 (Buffered (drop ?k buf))"
        using chunk_round [OF _ refl k(1) chunk(1), of s1 name] s1(2) True by auto
      have "length (drop ?k buf) < length buf" using k(1) ne by simp
      from less.hyps [OF this s2(2) chunk(2) cs(2)] obtain s3 where
        s3: "lossy_run ops options name s2 (map Chunk cs') s3" "lossy_at s3 lag' cached' sh' (Buffered [])" by blast
      have "lossy_run ops options name s ([] @ [Chunk (take ?k buf)] @ map Chunk cs') s3"
        using lossy_run_trans [OF s1(1) lossy_run_trans [OF s2(1) s3(1)]] True by simp
      then show ?thesis using s3(2) cs(1) by auto
    qed
  qed
qed

text \<open>The end of the stream.\<close>

lemma final_gap_round:
  assumes "lossy_at s lag cached sh (FinalGap ev recorded)"
    and "send_pending_gap_before_terminal ops lag cached sh = (Ready u, lag', cached', sh')"
  shows "\<exists>s'. lossy_run ops options name s [] s' \<and> lossy_at s' lag' cached' sh' (Final ev recorded False)"
proof -
  have s: "ly_lag s = lag" "ly_cached s = cached" "ly_shared s = sh" "ly_phase s = FinalGap ev recorded"
    using assms(1) by (auto simp: lossy_at_def)
  note run = lossy_run_step [where evs = "[]" and options = options and name = name and s = s]
  show ?thesis
  proof (cases "gap_pending lag")
    case False
    then show ?thesis
      using run [OF l_final_no_gap [OF s(4)], of ops] assms(2) s
      by (intro exI) (auto simp: send_pending_gap_before_terminal_def lossy_at_def)
  next
    case pending: True
    then have p: "gap_pending (ly_lag s)" using s(1) by simp
    show ?thesis
    proof (cases cached)
      case None
      from run [OF l_final_gap_inactive [OF s(4) p s(2) [unfolded None]], of ops] show ?thesis
        using pending assms(2) s None by (intro exI) (auto simp: send_pending_gap_before_terminal_def lossy_at_def)
    next
      case (Some sid)
      note c = s(2) [unfolded Some]
      obtain res ch where t: "ev_send ops (ly_chan s sid) Gap = (res, ch)" by fastforce
      then have "res = Ready True \<or> res = Ready False"
        using assms(2) pending Some s(3) by (cases res) (auto simp: send_pending_gap_before_terminal_def)
      then show ?thesis
      proof
        assume ok: "res = Ready True"
        from run [OF l_final_gap_sent [OF s(4) p c t [unfolded ok]]] show ?thesis
          using pending assms(2) s t ok Some by (intro exI) (auto simp: send_pending_gap_before_terminal_def lossy_at_def)
      next
        assume no: "res = Ready False"
        obtain s1 where run1: "lossy_run ops options name s [] s1"
            and at1: "lossy_at s1 lag cached (put_chan sh sid ch) (Refused (AfterFinalGap ev recorded) sid)"
          using run [OF l_final_gap_closed [OF s(4) p c t [unfolded no]]] s by (fastforce simp: lossy_at_def)
        obtain cached1 sh1 where f: "send_failed sid (put_chan sh sid ch) = (cached1, sh1)" by fastforce
        from refusal_run [OF run1 at1 f resume.simps(3)] show ?thesis
          using pending assms(2) s(3) t no Some f by (auto simp: send_pending_gap_before_terminal_def)
      qed
    qed
  qed
qed

lemma final_round:
  assumes "lossy_at s lag cached sh (Final ev recorded retried)"
    and "deliver_reliable_loop ops ev recorded retried cached sh = (Ready u, cached', sh')"
  shows "\<exists>s'. lossy_run ops options name s [] s' \<and> (lossy_at s' lag cached' sh' Ended \<or>
      \<not> retried \<and> (\<exists>cached1 sh1. lossy_at s' lag cached1 sh1 (Final ev recorded True) \<and>
        deliver_reliable_loop ops ev recorded True cached1 sh1 = (Ready u, cached', sh')))"
proof -
  have s: "ly_lag s = lag" "ly_cached s = cached" "ly_shared s = sh" "ly_phase s = Final ev recorded retried"
    using assms(1) by (auto simp: lossy_at_def)
  note run = lossy_run_step [where evs = "[]" and options = options and name = name and s = s]
  show ?thesis
  proof (cases cached)
    case None
    from run [OF l_final_inactive [OF s(4) s(2) [unfolded None]], of ops] show ?thesis
      using assms(2) s None by (intro exI) (auto simp: deliver_reliable_loop.simps lossy_at_def)
  next
    case (Some sid)
    note c = s(2) [unfolded Some]
    obtain res ch where t: "ev_send ops (ly_chan s sid) ev = (res, ch)" by fastforce
    then have "res = Ready True \<or> res = Ready False"
      using assms(2) Some s(3) by (subst (asm) deliver_reliable_loop.simps, cases res) auto
    then show ?thesis
    proof
      assume ok: "res = Ready True"
      from run [OF l_final_sent [OF s(4) c t [unfolded ok]]] show ?thesis
        using assms(2) s t ok Some by (intro exI) (auto simp: deliver_reliable_loop.simps lossy_at_def)
    next
      assume no: "res = Ready False"
      let ?k = "AfterFinal ev recorded retried"
      obtain s1 where run1: "lossy_run ops options name s [] s1" and at1: "lossy_at s1 lag cached (put_chan sh sid ch) (Refused ?k sid)"
        using run [OF l_final_closed [OF s(4) c t [unfolded no]]] s by (fastforce simp: lossy_at_def)
      obtain cached1 sh1 where f: "send_failed sid (put_chan sh sid ch) = (cached1, sh1)" by fastforce
      obtain lag2 phase2 where res: "resume ?k lag cached1 = (lag2, phase2)" by fastforce
      from refusal_run [OF run1 at1 f res]
      obtain s2 where s2: "lossy_run ops options name s [] s2" "lossy_at s2 lag2 cached1 sh1 phase2" by blast
      have "deliver_reliable_loop ops ev recorded retried cached sh =
          (if recorded \<or> retried then (Ready (), cached1, sh1) else deliver_reliable_loop ops ev recorded True cached1 sh1)"
        using t no s(3) f by (subst deliver_reliable_loop.simps) (simp add: Some)
      then show ?thesis using s2 assms(2) res by (intro exI [of _ s2]) (auto split: if_splits)
    qed
  qed
qed

lemma terminal_steps:
  assumes "lossy_at s lag cached sh (Buffered [])" and "is_terminal ev"
    and "send_terminal_event_best_effort ops ev (config_replay_retention options) lag sh = Inr (Ready u, lag', cached', sh')"
  shows "\<exists>s'. lossy_run ops options name s [ev] s' \<and> lossy_at s' lag' cached' sh' Ended"
proof -
  have s: "ly_lag s = lag" "ly_shared s = sh" "ly_phase s = Buffered []" using assms(1) by (auto simp: lossy_at_def)
  obtain recorded cached1 sh1 u2 lag2 cached2 sh2 where
    rec: "record_event ev (config_replay_retention options) sh = Inr (recorded, cached1, sh1)" and
    gap: "send_pending_gap_before_terminal ops (observe_active lag cached1) cached1 sh1 = (Ready u2, lag2, cached2, sh2)" and
    del: "deliver_reliable_loop ops ev recorded False cached2 sh2 = (Ready u, cached', sh')" "lag' = lag2"
    using assms(3)
    by (auto simp: send_terminal_event_best_effort_def deliver_reliable_event_def split: sum.splits prod.splits poll_result.splits)
  let ?s1 = "s\<lparr>ly_shared := sh1, ly_cached := cached1, ly_lag := observe_active (ly_lag s) cached1, ly_phase := FinalGap ev recorded,
      ly_log := ly_log s @ [ev]\<rparr>"
  have "lossy_step ops options name s ?s1" using l_end [OF s(3) assms(2)] rec s(2) by simp
  then have run1: "lossy_run ops options name s [ev] ?s1" by (rule lossy_run_step) simp_all
  have "lossy_at ?s1 (observe_active lag cached1) cached1 sh1 (FinalGap ev recorded)" using s by (simp add: lossy_at_def)
  from final_gap_round [OF this gap, of options name] obtain s2 where
    s2: "lossy_run ops options name ?s1 [] s2" "lossy_at s2 lag2 cached2 sh2 (Final ev recorded False)" by blast
  have again: "\<exists>s4. lossy_run ops options name s3 [] s4 \<and> lossy_at s4 lag2 cached' sh' Ended"
    if "lossy_at s3 lag2 c3 sh3 (Final ev recorded True)" "deliver_reliable_loop ops ev recorded True c3 sh3 = (Ready u, cached', sh')"
    for s3 c3 sh3 using final_round [OF that] by blast
  obtain s3 where "lossy_run ops options name s2 [] s3" "lossy_at s3 lag2 cached' sh' Ended \<or>
      (\<exists>c3 sh3. lossy_at s3 lag2 c3 sh3 (Final ev recorded True) \<and>
        deliver_reliable_loop ops ev recorded True c3 sh3 = (Ready u, cached', sh'))"
    using final_round [OF s2(2) del(1), of options name] by blast
  then obtain s4 where "lossy_run ops options name s2 [] s4" "lossy_at s4 lag2 cached' sh' Ended"
    using again lossy_run_trans [of ops options name s2 "[]" s3 "[]"] by fastforce
  then show ?thesis using lossy_run_trans [OF run1 lossy_run_trans [OF s2(1)]] del(2) by fastforce
qed

lemma look_run:
  assumes "lossy_at s lag cached sh (Buffered [])"
  shows "\<exists>s'. lossy_run ops options name s [] s' \<and>
     lossy_at s' (if cached = None then observe_active lag (refresh_cached_active sh) else lag)
       (if cached = None then refresh_cached_active sh else cached) sh (Buffered [])"
proof (cases "cached = None")
  case True
  have s: "ly_phase s = Buffered []" "ly_cached s = None" using assms True by (auto simp: lossy_at_def)
  from lossy_run_step [where evs = "[]" and ops = ops and options = options and name = name, OF l_look [OF s refl]] show ?thesis
    using assms True by (intro exI) (auto simp: lossy_at_def)
next
  case False
  then show ?thesis using assms lossy_run_refl [of ops options name s] by auto
qed

lemma read_run:
  assumes "lossy_at s lag cached sh (Buffered [])"
  shows "\<exists>s'. lossy_run ops options name s [] s' \<and>
     lossy_at s' (if cached = None then observe_active lag (refresh_cached_active sh) else lag)
       (if cached = None then refresh_cached_active sh else cached) (ss_record_bytes_ingested sh (length bs)) (Buffered bs)"
proof -
  obtain s1 where s1: "lossy_run ops options name s [] s1"
    "lossy_at s1 (if cached = None then observe_active lag (refresh_cached_active sh) else lag)
       (if cached = None then refresh_cached_active sh else cached) sh (Buffered [])"
    using look_run [OF assms] by blast
  then have "ly_phase s1 = Buffered []" by (simp add: lossy_at_def)
  from lossy_run_step [where evs = "[]" and ops = ops and options = options and name = name, OF l_read [OF this, of _ _ _ bs]]
    lossy_run_trans [OF s1(1)]
  show ?thesis using s1(2) by (intro exI) (auto simp: lossy_at_def)
qed

text \<open>A reader that ended, or that waits for more data, has taken exactly the events of what it read.\<close>

lemma best_effort_reader_steps:
  assumes "config_ok options" and "lossy_at s lag cached sh (Buffered [])"
    and "read_chunked_best_effort ops (read_chunk_size options) (config_replay_retention options) name is (lag, cached, sh)
      = Inr (p, lag', cached', sh')"
    and "read_terminal name (reads_of is) \<noteq> None \<longrightarrow> p = Ready ()"
  shows "\<exists>s' evs. reader_events name (read_chunk_size options) (reads_of is) = Inr evs \<and>
     lossy_run ops options name s evs s' \<and> lossy_at s' lag' cached' sh' (if read_terminal name (reads_of is) = None then Buffered [] else Ended)"
  using assms(2-4)
proof (induction "is" arbitrary: s lag cached sh)
  case Nil
  then show ?case using lossy_run_refl [of ops options name s] by (auto simp: lossy_at_def)
next
  case (Cons i "is")
  let ?r = "config_replay_retention options" and ?cs = "read_chunk_size options"
  let ?c = "if cached = None then refresh_cached_active sh else cached"
  let ?l = "if cached = None then observe_active lag (refresh_cached_active sh) else lag"
  have pos: "0 < bytes ?cs" using assms(1) by (simp add: config_ok_def)
  show ?case
  proof (cases i)
    case ActiveChanged
    obtain s1 where s1: "lossy_run ops options name s [] s1" "lossy_at s1 ?l ?c sh (Buffered [])"
      using look_run [OF Cons.prems(1)] by blast
    have "read_chunked_best_effort ops ?cs ?r name is (?l, ?c, sh) = Inr (p, lag', cached', sh')"
      using Cons.prems(2) ActiveChanged by (auto simp: Let_def split: if_splits)
    from Cons.IH [OF s1(2) this] lossy_run_trans [OF s1(1)] show ?thesis using ActiveChanged Cons.prems(3) by fastforce
  next
    case (ReadReturned res)
    show ?thesis
    proof (cases res)
      case (Inl err)
      obtain s1 where s1: "lossy_run ops options name s [] s1" "lossy_at s1 ?l ?c sh (Buffered [])"
        using look_run [OF Cons.prems(1)] by blast
      have "send_terminal_event_best_effort ops (ReadError (StreamReadError name err)) ?r ?l sh = Inr (Ready (), lag', cached', sh')"
        using Cons.prems(2,3) ReadReturned Inl by (auto simp: Let_def split: sum.splits if_splits)
      from terminal_steps [OF s1(2) _ this, of name] lossy_run_trans [OF s1(1)] show ?thesis
        using ReadReturned Inl by fastforce
    next
      case (Inr bs)
      let ?sh = "ss_record_bytes_ingested sh (length bs)"
      obtain s1 where s1: "lossy_run ops options name s [] s1" "lossy_at s1 ?l ?c ?sh (Buffered bs)"
        using read_run [OF Cons.prems(1)] by blast
      show ?thesis
      proof (cases "bs = []")
        case True
        have "send_terminal_event_best_effort ops Eof ?r ?l ?sh = Inr (Ready (), lag', cached', sh')"
          using Cons.prems(2,3) ReadReturned Inr True by (auto simp: Let_def split: sum.splits if_splits)
        from terminal_steps [OF _ _ this, of s1 ?c name] lossy_run_trans [OF s1(1)] show ?thesis
          using s1(2) ReadReturned Inr True by fastforce
      next
        case False
        obtain lag2 cached2 sh2 where l: "best_effort_chunks ops ?cs ?r bs (?l, ?c, ?sh) = Inr (lag2, cached2, sh2)"
            "read_chunked_best_effort ops ?cs ?r name is (lag2, cached2, sh2) = Inr (p, lag', cached', sh')"
          using Cons.prems(2) ReadReturned Inr False by (auto simp: Let_def split: sum.splits if_splits)
        obtain cs where cs: "split_chunks (bytes ?cs) bs = Inr cs" using split_chunks_ok [OF pos, of bs] by blast
        obtain s2 where s2: "lossy_run ops options name s1 (map Chunk cs) s2" "lossy_at s2 lag2 cached2 sh2 (Buffered [])"
          using best_effort_chunks_steps [OF s1(2) l(1) cs] by blast
        from Cons.IH [OF s2(2) l(2)] obtain s' evs where s': "reader_events name ?cs (reads_of is) = Inr evs"
            "lossy_run ops options name s2 evs s'" "lossy_at s' lag' cached' sh' (if read_terminal name (reads_of is) = None then Buffered [] else Ended)"
          using Cons.prems(3) ReadReturned Inr False by auto
        have "lossy_run ops options name s (map Chunk cs @ evs) s'"
          using lossy_run_trans [OF s1(1) lossy_run_trans [OF s2(1) s'(2)]] by simp
        then show ?thesis using s' ReadReturned Inr False cs by auto
      qed
    qed
  qed
qed

text \<open>The reader never panics: nothing it calls does while the shared state is well-formed.\<close>

lemma send_failed_ok: "send_failed sid sh = (cached', sh') \<Longrightarrow> ss_ok (sh_state sh') = ss_ok (sh_state sh)"
  by (auto simp: send_failed_def Let_def)

lemma try_send_loop_ok:
  "try_send_loop ops ev recorded retry retried cached sh = (r, cached', sh') \<Longrightarrow> ss_ok (sh_state sh') = ss_ok (sh_state sh)"
proof (induction ops ev recorded retry retried cached sh rule: try_send_loop.induct)
  case (1 ops ev recorded retry retried cached sh)
  show ?case
  proof (cases cached)
    case None
    then show ?thesis using "1.prems" by (subst (asm) try_send_loop.simps) simp
  next
    case (Some sid)
    obtain res ch where t: "ev_try_send ops (sh_chans sh sid) ev = (res, ch)" by fastforce
    obtain c1 sh1 where f: "send_failed sid (put_chan sh sid ch) = (c1, sh1)" by fastforce
    show ?thesis
    proof (cases "res = SendClosed \<and> \<not> (recorded \<or> \<not> retry \<or> retried)")
      case True
      then have "try_send_loop ops ev recorded retry True c1 sh1 = (r, cached', sh')"
        using "1.prems" Some t f by (subst (asm) try_send_loop.simps) simp
      then show ?thesis using "1.IH" [OF Some t [symmetric]] True f send_failed_ok [OF f] by fastforce
    next
      case False
      then show ?thesis
        using "1.prems" Some t f send_failed_ok [OF f] by (subst (asm) try_send_loop.simps) (cases res, auto split: if_splits)
    qed
  qed
qed

lemma try_send_best_effort_total:
  assumes "ss_ok (sh_state sh)" and "retention_ok retention" and "\<not> is_terminal ev"
  shows "\<exists>r cached' sh'. try_send_best_effort_event ops ev retention retry cached sh = Inr (r, cached', sh') \<and> ss_ok (sh_state sh')"
proof -
  obtain recorded c1 sh1 where "(case ev of Chunk _ \<Rightarrow> record_event ev retention sh | Gap \<Rightarrow> Inr (False, cached, sh)
      | _ \<Rightarrow> Inl (UnreachableCode ''terminal events are sent with `send_terminal_event_best_effort`'')) = Inr (recorded, c1, sh1)"
      "ss_ok (sh_state sh1)"
    using assms record_event_ok [OF assms(1,2), of ev] push_replay_event_ok(2) [OF assms(1,2), of ev]
    by (cases ev) (auto simp: Let_def)
  then show ?thesis
    using try_send_loop_ok [of ops ev recorded retry False c1 sh1]
    by (cases "try_send_loop ops ev recorded retry False c1 sh1") (auto simp: try_send_best_effort_event_def)
qed

lemma send_pending_gap_total:
  assumes "config_ok options" and "ss_ok (sh_state sh)"
  shows "\<exists>g lag' cached' sh'. send_pending_gap ops (read_chunk_size options) (config_replay_retention options) n (lag, cached, sh)
      = Inr (g, lag', cached', sh') \<and> ss_ok (sh_state sh')"
proof -
  obtain r c1 sh1 where "try_send_best_effort_event ops Gap (config_replay_retention options) False cached sh = Inr (r, c1, sh1)"
      "ss_ok (sh_state sh1)"
    using try_send_best_effort_total [OF assms(2) config_ok_retention [OF assms(1)], of Gap ops False cached] by auto
  moreover have "bytes (read_chunk_size options) \<noteq> 0" using assms(1) by (simp add: config_ok_def)
  ultimately show ?thesis using assms(2) by (cases r) (auto simp: send_pending_gap_def buffered_chunk_count_def)
qed

lemma send_chunk_total:
  assumes "config_ok options" and "ss_ok (sh_state sh)"
  shows "\<exists>lag' cached' sh'. send_chunk ops (config_replay_retention options) c (lag, cached, sh) = Inr (lag', cached', sh') \<and>
      ss_ok (sh_state sh')"
proof -
  obtain r c1 sh1 where "try_send_best_effort_event ops (Chunk c) (config_replay_retention options) True cached sh = Inr (r, c1, sh1)"
      "ss_ok (sh_state sh1)"
    using try_send_best_effort_total [OF assms(2) config_ok_retention [OF assms(1)], of "Chunk c" ops True cached] by auto
  then show ?thesis by (cases r) (auto simp: send_chunk_def)
qed

lemma best_effort_chunks_total:
  assumes "config_ok options" and "ss_ok (sh_state sh)"
  shows "\<exists>lag' cached' sh'. best_effort_chunks ops (read_chunk_size options) (config_replay_retention options) buf (lag, cached, sh)
      = Inr (lag', cached', sh') \<and> ss_ok (sh_state sh')"
  using assms(2)
proof (induction "length buf" arbitrary: buf lag cached sh rule: less_induct)
  case less
  let ?c = "read_chunk_size options" and ?r = "config_replay_retention options"
  let ?k = "min (bytes ?c) (length buf)"
  have pos: "0 < bytes ?c" using assms(1) by (simp add: config_ok_def)
  show ?case
  proof (cases "buf = []")
    case True
    then show ?thesis using less.prems by (simp add: best_effort_chunks.simps)
  next
    case ne: False
    obtain g lag1 cached1 sh1 where gap: "send_pending_gap ops ?c ?r (length buf) (observe_active lag cached, cached, sh) = Inr (g, lag1, cached1, sh1)"
        "ss_ok (sh_state sh1)"
      using send_pending_gap_total [OF assms(1) less.prems] by blast
    obtain lag2 cached2 sh2 where chunk: "send_chunk ops ?r (take ?k buf) (lag1, cached1, sh1) = Inr (lag2, cached2, sh2)" "ss_ok (sh_state sh2)"
      using send_chunk_total [OF assms(1) gap(2)] by blast
    have k: "?k \<noteq> 0" using pos ne by (cases buf) auto
    then have "length (drop ?k buf) < length buf" using ne by simp
    from less.hyps [OF this chunk(2), of lag2 cached2] show ?thesis
      using gap chunk(1) ne pos by (subst best_effort_chunks.simps) (auto simp: Let_def min_def split: bool.splits if_splits)
  qed
qed

lemma deliver_loop_ok:
  "deliver_reliable_loop ops ev recorded retried cached sh = (p, cached', sh') \<Longrightarrow> ss_ok (sh_state sh') = ss_ok (sh_state sh)"
proof (induction ops ev recorded retried cached sh rule: deliver_reliable_loop.induct)
  case (1 ops ev recorded retried cached sh)
  show ?case
  proof (cases cached)
    case None
    then show ?thesis using "1.prems" by (subst (asm) deliver_reliable_loop.simps) simp
  next
    case (Some sid)
    obtain res ch where t: "ev_send ops (sh_chans sh sid) ev = (res, ch)" by fastforce
    obtain c1 sh1 where f: "send_failed sid (put_chan sh sid ch) = (c1, sh1)" by fastforce
    show ?thesis
    proof (cases "res = Ready False \<and> \<not> (recorded \<or> retried)")
      case True
      then have "deliver_reliable_loop ops ev recorded True c1 sh1 = (p, cached', sh')"
        using "1.prems" Some t f by (subst (asm) deliver_reliable_loop.simps) simp
      then show ?thesis using "1.IH" [OF Some t [symmetric]] True f send_failed_ok [OF f] by fastforce
    next
      case False
      then show ?thesis
        using "1.prems" Some t f send_failed_ok [OF f]
        by (subst (asm) deliver_reliable_loop.simps) (auto split: if_splits poll_result.splits bool.splits)
    qed
  qed
qed

lemma send_terminal_total:
  assumes "config_ok options" and "ss_ok (sh_state sh)"
  shows "\<exists>p lag' cached' sh'. send_terminal_event_best_effort ops ev (config_replay_retention options) lag sh = Inr (p, lag', cached', sh')"
  using record_event_ok [OF assms(2) config_ok_retention [OF assms(1)], of ev]
  by (auto simp: send_terminal_event_best_effort_def Let_def split: prod.splits poll_result.splits)

text \<open>While the pipe delivers data, the reader consumes it all and waits for more, whatever its subscriber does.\<close>

lemma best_effort_reader_total:
  assumes "config_ok options"
  shows "ss_ok (sh_state sh) \<Longrightarrow>
    \<exists>p lag' cached' sh'. read_chunked_best_effort ops (read_chunk_size options) (config_replay_retention options) name is (lag, cached, sh)
      = Inr (p, lag', cached', sh') \<and> (read_terminal name (reads_of is) = None \<longrightarrow> p = Pending)"
proof (induction "is" arbitrary: lag cached sh)
  case (Cons i "is")
  let ?c = "if cached = None then refresh_cached_active sh else cached"
  let ?l = "if cached = None then observe_active lag ?c else lag"
  show ?case
  proof (cases i)
    case ActiveChanged
    then show ?thesis using Cons by (auto simp: Let_def)
  next
    case (ReadReturned res)
    show ?thesis
    proof (cases res)
      case (Inl err)
      then show ?thesis
        using ReadReturned send_terminal_total [OF assms Cons.prems, of ops "ReadError (StreamReadError name err)" ?l]
        by (auto simp: Let_def)
    next
      case (Inr bs)
      have ok: "ss_ok (sh_state (ss_record_bytes_ingested sh (length bs)))" using Cons.prems by simp
      show ?thesis
      proof (cases "bs = []")
        case True
        then show ?thesis
          using ReadReturned Inr send_terminal_total [OF assms ok, of ops Eof ?l] by (auto simp: Let_def)
      next
        case False
        obtain lag1 cached1 sh1 where "best_effort_chunks ops (read_chunk_size options) (config_replay_retention options) bs
            (?l, ?c, ss_record_bytes_ingested sh (length bs)) = Inr (lag1, cached1, sh1)" "ss_ok (sh_state sh1)"
          using best_effort_chunks_total [OF assms ok] by blast
        then show ?thesis using Cons.IH [of sh1 lag1 cached1] ReadReturned Inr False by (simp add: Let_def)
      qed
    qed
  qed
qed simp

text \<open>A channel with room for one event, and a subscriber that attached first and does not receive.\<close>

definition example_lossy_config :: stream_config where
  "example_lossy_config = \<lparr>read_chunk_size = NumBytes 2, max_buffered_chunks = 1, config_delivery = LossyMarker,
     config_replay = ReplayEnabled RetainAll\<rparr>"

definition example_lossy_shared :: "(stream_event list \<times> nat \<times> bool) configured_shared" where
  "example_lossy_shared = snd (projr (single_try_subscribe example_event_chan example_lossy_config ''stdout''
     (configured_shared_new example_event_chan)))"

definition example_lossy :: "(stream_event list \<times> nat \<times> bool) lossy_sys" where
  "example_lossy =
     \<lparr>ly_shared = example_lossy_shared, ly_cached = None, ly_lag = best_effort_lag_default, ly_phase = Buffered [], ly_log = [],
      ly_start = (\<lambda>_. 0), ly_snap = (\<lambda>_. []), ly_term = (\<lambda>_. None), ly_sent = (\<lambda>_. []), ly_recd = (\<lambda>_. []),
      ly_rx_dropped = {}, ly_stream_dropped = False\<rparr>"

lemma example_lossy_config_ok: "config_ok example_lossy_config"
  by (simp add: example_lossy_config_def config_ok_def config_replay_retention_def retention_ok_def)

lemma example_lossy_reachable: "lossy_reachable example_event_chan example_lossy_config ''stdout'' example_lossy"
proof -
  let ?s = "example_lossy\<lparr>ly_shared := configured_shared_new example_event_chan\<rparr>"
  have "lossy_initial example_event_chan ?s" by (simp add: lossy_initial_def example_lossy_def)
  then have r: "lossy_reachable example_event_chan example_lossy_config ''stdout'' ?s" by (rule lossy_init)
  obtain sub where sub: "single_try_subscribe example_event_chan example_lossy_config ''stdout'' (ly_shared ?s) = Inr (sub, example_lossy_shared)"
      "ssub_id sub = 0" "ssub_replay sub = []" "ssub_terminal_event sub = None"
    by (simp add: example_lossy_shared_def single_try_subscribe_def configured_shared_new_def attach_subscriber_def
        replay_state_new_def snapshot_events_def Let_def example_lossy_config_def config_replay_retention_def)
  have "\<not> ly_stream_dropped ?s" by (simp add: example_lossy_def)
  from lossy_next [OF r l_subscribe [OF this sub(1)]] show ?thesis using sub(2-4) by (simp add: example_lossy_def fun_upd_def)
qed

text \<open>Of the three reads the first one fills the channel, the second one is lost, and the third one is thrown
  away with the gap marker that finds no room.\<close>

definition example_reads :: "reader_input list" where
  "example_reads = [ReadReturned (Inr ''ab''), ReadReturned (Inr ''cd''), ReadReturned (Inr ''ef'')]"

lemma example_lossy_run:
  "\<exists>lag cached sh. read_chunked_best_effort example_event_chan (read_chunk_size example_lossy_config)
       (config_replay_retention example_lossy_config) ''stdout'' example_reads
       (ly_lag example_lossy, ly_cached example_lossy, ly_shared example_lossy) = Inr (Pending, lag, cached, sh) \<and>
     active_tx sh = Some 0 \<and> sh_chans sh 0 = ([Chunk ''ab''], 1, False) \<and> gap_due lag 0 \<and> ss_next_subscriber_id (sh_state sh) = 1"
  by (simp add: example_lossy_def example_lossy_shared_def example_reads_def example_lossy_config_def single_try_subscribe_def
      configured_shared_new_def attach_subscriber_def replay_state_new_def put_chan_def config_replay_retention_def
      refresh_cached_active_def example_event_chan_def Let_def best_effort_chunks.simps try_send_loop.simps send_chunk_def
      send_pending_gap_def try_send_best_effort_event_def record_event_def push_replay_event_def push_retained_event_def
      ss_trim_replay_window_def observe_active_def best_effort_lag_default_def log_if_lagged_def ss_record_bytes_ingested_def
      record_bytes_ingested_def buffered_chunk_count_def saturating_add_def usize_max_def gap_due_def)

section \<open>Properties of best-effort delivery\<close>

text \<open>An active subscriber at a moment when the reader waits or has ended.\<close>

lemma active_stands:
  assumes "standing_ok gone s" and "ly_active s = Some a" and "\<not> gone (ly_chan s a)" and "ly_phase s = Buffered [] \<or> ly_phase s = Ended"
  shows "stands s (gap_due (ly_lag s) a \<and> ly_phase s \<noteq> Ended) a (length (ly_log s))"
proof (cases "ly_cached s = Some a")
  case True
  then show ?thesis using standing_ok_noticed [OF assms(1), of a] assms(3,4) by (auto simp: noticed_simps)
next
  case False
  then have "unnoticed s a" using standing_ok_unnoticed [OF assms(1), of a] assms(2,3) by simp
  then show ?thesis using unnoticed_stands [of s a] unnoticed_lag(2) [of s a] by simp
qed

lemma active_marked:
  assumes "event_chan_ok ops contents gone capacity" and "config_ok options" and "lossy_reachable ops options name s"
    and "ly_active s = Some a" and "\<not> gone (ly_chan s a)" and "ly_phase s = Buffered []" and "ly_term s a = None"
  shows "\<exists>k. gap_marked (gap_due (ly_lag s) a) (ly_recd s a @ contents (ly_chan s a)) (drop k (ly_log s)) \<and>
     (k = ly_start s a \<or> Suc k = ly_start s a \<and> ly_snap s a = [])"
proof -
  have ok: "standing_ok gone s" "lossy_received_ok contents gone s" "a < ly_next s"
    using lossy_ok_reachable [OF assms(3,2,1)] assms(4) by (auto simp: lossy_ok_def lossy_shared_ok_def lossy_ids_ok_def)
  have "ly_recd s a @ contents (ly_chan s a) = ly_sent s a" using ok(2,3) assms(5) by (auto simp: lossy_received_ok_def)
  then show ?thesis using active_stands [OF ok(1) assms(4,5)] assms(6,7) by (auto simp: stands_def)
qed

text \<open>C14: With best-effort delivery to a single subscriber, in every interleaving of reading, subscribing,
  receiving, dropping a subscription, sealing and dropping the stream, a subscriber whose receiver
  exists has received, followed by what is still in its channel, the pieces of the stream in order with
  every run of lost pieces replaced by a gap marker before anything else follows.  The pieces start
  where its replayed events end; only a subscriber that had nothing to replay may also get the piece
  that was being delivered when it attached.  While the reader waits, the active subscriber misses
  nothing but a last run that is still to be marked, and once the reader has ended, nothing is left
  unmarked.  A subscriber that attached to an ended stream gets the terminal event and nothing live.\<close>

theorem single_best_effort_marked:
  assumes "event_chan_ok ops contents gone capacity" and "config_ok options" and "lossy_reachable ops options name s"
    and "a < ly_next s" and "\<not> gone (ly_chan s a)"
  shows "if ly_term s a \<noteq> None then ly_recd s a = []
     else \<exists>k n pending. k \<le> n \<and> n \<le> length (ly_log s) \<and>
       gap_marked pending (ly_recd s a @ contents (ly_chan s a)) (drop k (take n (ly_log s))) \<and>
       (k = ly_start s a \<or> Suc k = ly_start s a \<and> ly_snap s a = []) \<and>
       (ly_active s = Some a \<and> ly_phase s = Buffered [] \<longrightarrow> n = length (ly_log s) \<and> pending = gap_due (ly_lag s) a) \<and>
       (ly_active s = Some a \<and> ly_phase s = Ended \<longrightarrow> n = length (ly_log s) \<and> \<not> pending)"
proof -
  have ok: "standing_ok gone s" "lossy_blocks_ok s" "lossy_received_ok contents gone s"
    using lossy_ok_reachable [OF assms(3,2,1)] by (auto simp: lossy_ok_def)
  have recd: "ly_recd s a @ contents (ly_chan s a) = ly_sent s a" "ly_term s a \<noteq> None \<longrightarrow> ly_recd s a = []"
    using ok(3) assms(4,5) by (auto simp: lossy_received_ok_def)
  obtain n pending where n: "n \<le> length (ly_log s)" "stands s pending a n"
    "ly_active s = Some a \<and> ly_phase s = Buffered [] \<longrightarrow> n = length (ly_log s) \<and> pending = gap_due (ly_lag s) a"
    "ly_active s = Some a \<and> ly_phase s = Ended \<longrightarrow> n = length (ly_log s) \<and> \<not> pending"
  proof (cases "ly_active s = Some a \<and> (ly_phase s = Buffered [] \<or> ly_phase s = Ended)")
    case True
    then show ?thesis using active_stands [OF ok(1) _ assms(5)] that [of "length (ly_log s)" "gap_due (ly_lag s) a \<and> ly_phase s \<noteq> Ended"] by auto
  next
    case False
    then show ?thesis using ok(2) assms(4) that unfolding lossy_blocks_ok_def by blast
  qed
  show ?thesis
  proof (cases "ly_term s a \<noteq> None")
    case True
    then show ?thesis using recd(2) by simp
  next
    case False
    then show ?thesis using n recd(1) unfolding stands_def by auto
  qed
qed

theorem single_best_effort_marked_witness:
  "\<exists>s k. lossy_reachable example_event_chan example_lossy_config ''stdout'' s \<and> ly_log s = [Chunk ''ab'', Chunk ''cd'', Chunk ''ef''] \<and>
     gap_marked True (ly_recd s 0 @ [Chunk ''ab'']) (drop k (ly_log s))"
proof -
  obtain lag cached sh where run: "read_chunked_best_effort example_event_chan (read_chunk_size example_lossy_config)
       (config_replay_retention example_lossy_config) ''stdout'' example_reads
       (ly_lag example_lossy, ly_cached example_lossy, ly_shared example_lossy) = Inr (Pending, lag, cached, sh)"
     and sh: "active_tx sh = Some 0" "sh_chans sh 0 = ([Chunk ''ab''], 1, False)" "gap_due lag 0" "ss_next_subscriber_id (sh_state sh) = 1"
    using example_lossy_run by blast
  have at: "lossy_at example_lossy (ly_lag example_lossy) (ly_cached example_lossy) (ly_shared example_lossy) (Buffered [])"
    by (simp add: lossy_at_def example_lossy_def)
  from best_effort_reader_steps [OF example_lossy_config_ok at run] obtain s evs where
    s: "reader_events ''stdout'' (read_chunk_size example_lossy_config) (reads_of example_reads) = Inr evs"
      "lossy_run example_event_chan example_lossy_config ''stdout'' example_lossy evs s" "lossy_at s lag cached sh (Buffered [])"
    by (auto simp: example_reads_def)
  have log: "ly_log s = [Chunk ''ab'', Chunk ''cd'', Chunk ''ef'']"
    using s(1,2) by (simp add: example_reads_def example_lossy_config_def split_chunks.simps lossy_run_def) (auto simp: example_lossy_def)
  have reach: "lossy_reachable example_event_chan example_lossy_config ''stdout'' s"
    using s(2) lossy_steps_reachable [OF _ example_lossy_reachable] by (simp add: lossy_run_def)
  have at': "ly_shared s = sh" "ly_lag s = lag" "ly_phase s = Buffered []" "ly_term s 0 = None"
    using s(2,3) by (simp_all add: lossy_at_def lossy_run_def example_lossy_def)
  then have "\<exists>k. gap_marked True (ly_recd s 0 @ [Chunk ''ab'']) (drop k (ly_log s))"
    using single_best_effort_marked [OF example_event_chan_ok example_lossy_config_ok reach, of 0] sh by fastforce
  then show ?thesis using reach log by blast
qed

text \<open>C15: The best-effort reader of a single-subscriber stream.  Whatever data the pipe delivers and however slow
  the subscriber is, the reader neither panics nor blocks: it consumes all of it and waits for more.
  If a subscriber is active at the end, what it received and what is in its channel are exactly
  the pieces of all bytes read since it attached, in order, where every run of lost pieces has been
  replaced by a gap marker, except for a last one the reader still has to mark.\<close>

theorem best_effort_reader_marks:
  assumes "event_chan_ok ops contents gone capacity" and "config_ok options" and "lossy_reachable ops options name s"
    and "ly_phase s = Buffered []" and "read_terminal name (reads_of is) = None" and "ly_term s a = None"
  shows "\<exists>lag cached sh cs.
     read_chunked_best_effort ops (read_chunk_size options) (config_replay_retention options) name is
       (ly_lag s, ly_cached s, ly_shared s) = Inr (Pending, lag, cached, sh) \<and>
     concat cs = read_bytes (reads_of is) \<and> (\<forall>c\<in>set cs. c \<noteq> [] \<and> length c \<le> bytes (read_chunk_size options)) \<and>
     (active_tx sh = Some a \<and> \<not> gone (sh_chans sh a) \<longrightarrow>
       (\<exists>k. gap_marked (gap_due lag a) (ly_recd s a @ contents (sh_chans sh a)) (drop k (ly_log s @ map Chunk cs)) \<and>
          (k = ly_start s a \<or> Suc k = ly_start s a \<and> ly_snap s a = [])))"
proof -
  let ?r = "config_replay_retention options" and ?c = "read_chunk_size options"
  have "ss_ok (sh_state (ly_shared s))"
    using lossy_ok_reachable [OF assms(3,2,1)] by (simp add: lossy_ok_def lossy_shared_ok_def lossy_chans_ok_def Let_def)
  then obtain lag cached sh where run: "read_chunked_best_effort ops ?c ?r name is (ly_lag s, ly_cached s, ly_shared s)
      = Inr (Pending, lag, cached, sh)"
    using best_effort_reader_total [OF assms(2)] assms(5) by blast
  have "lossy_at s (ly_lag s) (ly_cached s) (ly_shared s) (Buffered [])" using assms(4) by (simp add: lossy_at_def)
  from best_effort_reader_steps [OF assms(2) this run] assms(5) obtain s' evs where
    s': "reader_events name ?c (reads_of is) = Inr evs" "lossy_run ops options name s evs s'" "lossy_at s' lag cached sh (Buffered [])"
    by auto
  obtain cs where cs: "evs = map Chunk cs" "concat cs = read_bytes (reads_of is)" "\<forall>c\<in>set cs. c \<noteq> [] \<and> length c \<le> bytes ?c"
    using reader_events_shape [of ?c name "reads_of is"] assms(2,5) s'(1) by (auto simp: config_ok_def)
  have reach: "lossy_reachable ops options name s'"
    using lossy_steps_reachable [OF _ assms(3)] s'(2) by (auto simp: lossy_run_def)
  have "\<exists>k. gap_marked (gap_due lag a) (ly_recd s a @ contents (sh_chans sh a)) (drop k (ly_log s @ map Chunk cs)) \<and>
      (k = ly_start s a \<or> Suc k = ly_start s a \<and> ly_snap s a = [])" if "active_tx sh = Some a" "\<not> gone (sh_chans sh a)"
    using active_marked [OF assms(1,2) reach, of a] that s'(2,3) cs(1) assms(6) by (auto simp: lossy_run_def lossy_at_def)
  then show ?thesis using run cs(2,3) by blast
qed

theorem best_effort_reader_marks_witness:
  "\<exists>lag cached sh. read_chunked_best_effort example_event_chan (read_chunk_size example_lossy_config)
       (config_replay_retention example_lossy_config) ''stdout'' example_reads
       (ly_lag example_lossy, ly_cached example_lossy, ly_shared example_lossy) = Inr (Pending, lag, cached, sh) \<and>
     (\<exists>cs. concat cs = ''abcdef'' \<and> gap_marked True [Chunk ''ab''] (map Chunk cs))"
proof -
  obtain lag cached sh where run: "read_chunked_best_effort example_event_chan (read_chunk_size example_lossy_config)
       (config_replay_retention example_lossy_config) ''stdout'' example_reads
       (ly_lag example_lossy, ly_cached example_lossy, ly_shared example_lossy) = Inr (Pending, lag, cached, sh)"
     and sh: "active_tx sh = Some 0" "sh_chans sh 0 = ([Chunk ''ab''], 1, False)" "gap_due lag 0"
    using example_lossy_run by blast
  have bytes: "read_bytes (reads_of example_reads) = ''abcdef''" "read_terminal ''stdout'' (reads_of example_reads) = None"
    by (simp_all add: example_reads_def)
  have s: "ly_phase example_lossy = Buffered []" "ly_term example_lossy 0 = None" by (simp_all add: example_lossy_def)
  have "\<exists>cs. concat cs = ''abcdef'' \<and> (\<exists>k. gap_marked True (ly_recd example_lossy 0 @ [Chunk ''ab'']) (drop k (ly_log example_lossy @ map Chunk cs)) \<and>
      (k = ly_start example_lossy 0 \<or> Suc k = ly_start example_lossy 0 \<and> ly_snap example_lossy 0 = []))"
    using best_effort_reader_marks [OF example_event_chan_ok example_lossy_config_ok example_lossy_reachable s(1) bytes(2) s(2)]
      run sh bytes(1) by auto
  then show ?thesis using run by (auto simp: example_lossy_def)
qed

end
