(* ===== verification/Pipeline.thy ===== *)
theory Pipeline
  imports Broadcast_Stream Collect
begin

text \<open>
  From the pipe to a consumer of a reliable broadcast stream: the reader loop is a run of the interleaving
  model, and what one subscriber is handed over its whole life (its replay snapshot followed by what it
  received) is the published stream.
\<close>

section \<open>The reader loop as a run of the interleaving model\<close>

text \<open>\<open>fan_extends\<close>: from \<open>s\<close> a state with world \<open>w\<close> is reached by steps that publish \<open>evs\<close> and receive nothing.\<close>

definition fan_extends ::
  "'ch mpsc_ops \<Rightarrow> stream_config \<Rightarrow> 'ch fan_sys \<Rightarrow> stream_event list \<Rightarrow> 'ch fan_world \<Rightarrow> bool" where
  "fan_extends ops options s evs w \<longleftrightarrow>
     (\<exists>s'. fan_reachable ops options s' \<and> fs_world s' = w \<and> fs_inflight s' = None \<and>
        map ie_event (fs_log s') = map ie_event (fs_log s) @ evs \<and> fs_start s' = fs_start s \<and>
        fs_snap s' = fs_snap s \<and> fs_recd s' = fs_recd s)"

lemma deliver_all_run:
  assumes "fan_reachable ops options s" and "fs_inflight s = Some (ie, subs, stale, t)"
    and "deliver_all ops (config_delivery_guarantee options) ie subs stale (fs_world s) = (Ready stale', w)"
  shows "\<exists>s'. fan_reachable ops options s' \<and> fs_world s' = w \<and> fs_inflight s' = Some (ie, [], stale', t) \<and>
     fs_log s' = fs_log s \<and> fs_start s' = fs_start s \<and> fs_snap s' = fs_snap s \<and> fs_recd s' = fs_recd s"
  using assms
proof (induction subs arbitrary: s stale)
  case Nil
  then show ?case by (intro exI [of _ s]) simp
next
  case (Cons x subs)
  obtain sid sender where x: "x = (sid, sender)" by (cases x)
  obtain r w1 where one: "deliver_one ops (config_delivery_guarantee options) ie sender (fs_world s) = (r, w1)"
    by fastforce
  note inflight = Cons.prems(2) [unfolded x]
  show ?case
  proof (cases r)
    case Pending
    then show ?thesis using Cons.prems(3) x one by simp
  next
    case (Ready ok)
    show ?thesis
    proof (cases ok)
      case True
      let ?s = "s\<lparr>fs_world := w1, fs_inflight := Some (ie, subs, stale, t),
        fs_sent := (fs_sent s)(sender_addr sender := fs_sent s (sender_addr sender) @ [ie])\<rparr>"
      have "fan_reachable ops options ?s"
        using fan_next [OF Cons.prems(1) fan_delivered [OF inflight]] one Ready True by simp
      then show ?thesis using Cons.IH [of ?s stale] Cons.prems(3) x one Ready True by simp
    next
      case False
      let ?s = "s\<lparr>fs_world := w1, fs_inflight := Some (ie, subs, stale @ [sid], t)\<rparr>"
      have "fan_reachable ops options ?s"
        using fan_next [OF Cons.prems(1) fan_refused [OF inflight]] one Ready False by simp
      then show ?thesis using Cons.IH [of ?s "stale @ [sid]"] Cons.prems(3) x one Ready False by simp
    qed
  qed
qed

lemma deliver_all_state:
  "deliver_all ops g ie subs stale w = (r, w') \<Longrightarrow> w_state w' = w_state w"
  by (induction ops g ie subs stale w rule: deliver_all.induct)
    (auto split: prod.splits poll_result.splits bool.splits dest: deliver_one_frame)

lemma append_event_run:
  assumes "mpsc_ok ops contents gone" "fan_reachable ops options s" and "fs_inflight s = None"
    and "bs_terminal (fs_state s) = None" "\<not> bs_closed (fs_state s)"
    and "append_event ops options ev (fs_world s) = Inr (Ready (), w)"
  shows "fan_extends ops options s [ev] w \<and> \<not> bs_closed (w_state w) \<and> (is_terminal ev \<or> bs_terminal (w_state w) = None)"
proof -
  have ok: "replay_ok (fs_state s)"
    using fan_reachable_ok [OF assms(1,2)] by (simp add: fan_ok_def log_ok_def)
  obtain ie subs t st where lock: "append_lock (fs_state s) options ev = Inr (Some (ie, subs, t), st)"
    using assms(5,6) push_event_ok [OF ok, of ev options] by (auto simp: append_lock_def Let_def)
  from append_lock_pushed [OF ok lock] have st: "ie_event ie = ev" "bs_closed st = bs_closed (fs_state s)"
      "\<not> is_terminal ev \<Longrightarrow> bs_terminal st = bs_terminal (fs_state s)"
    by (auto simp: pushed_def)
  let ?s = "s\<lparr>fs_world := (fs_world s)\<lparr>w_state := st\<rparr>, fs_inflight := Some (ie, subs, [], t), fs_log := fs_log s @ [ie]\<rparr>"
  have r: "fan_reachable ops options ?s"
    by (rule fan_next [OF assms(2) fan_publish [OF assms(3,4) lock]])
  obtain stale w1 where all: "deliver_all ops (config_delivery_guarantee options) ie subs [] (fs_world ?s) = (Ready stale, w1)"
      "w = w1\<lparr>w_state := append_cleanup t stale (w_state w1)\<rparr>"
    using assms(6) lock by (auto simp: append_event_def split: prod.splits poll_result.splits)
  obtain s2 where s2: "fan_reachable ops options s2" "fs_world s2 = w1" "fs_inflight s2 = Some (ie, [], stale, t)"
      "fs_log s2 = fs_log ?s" "fs_start s2 = fs_start ?s" "fs_snap s2 = fs_snap ?s" "fs_recd s2 = fs_recd ?s"
    using deliver_all_run [OF r _ all(1), of t] by auto
  have "fan_extends ops options s [ev] w"
    unfolding fan_extends_def
    by (intro exI [of _ "s2\<lparr>fs_world := w, fs_inflight := None\<rparr>"])
      (use fan_next [OF s2(1) fan_published [OF s2(3)]] s2 all(2) st(1) in simp)
  moreover have "w_state w1 = st" using deliver_all_state [OF all(1)] by simp
  ultimately show ?thesis using all(2) st(2,3) assms(4,5) by (cases "is_terminal ev") auto
qed

lemma append_events_run:
  assumes "mpsc_ok ops contents gone" "fan_reachable ops options s" and "fs_inflight s = None"
    and "bs_terminal (fs_state s) = None" "\<not> bs_closed (fs_state s)"
    and "append_events ops options (map Chunk cs @ [t]) (fs_world s) = Inr (Ready (), w)"
  shows "fan_extends ops options s (map Chunk cs @ [t]) w"
  using assms(2-)
proof (induction cs arbitrary: s)
  case Nil
  then show ?case
    using append_event_run [OF assms(1) Nil(1-4)] by (simp only: append_events_one list.map append_Nil)
next
  case (Cons c cs)
  obtain w1 where w1: "append_event ops options (Chunk c) (fs_world s) = Inr (Ready (), w1)"
      "append_events ops options (map Chunk cs @ [t]) w1 = Inr (Ready (), w)"
    using Cons.prems(5) by (auto split: sum.splits prod.splits poll_result.splits)
  from append_event_run [OF assms(1) Cons.prems(1-4) w1(1)] obtain s1 where
    s1: "fan_reachable ops options s1" "fs_world s1 = w1" "fs_inflight s1 = None" "bs_terminal (fs_state s1) = None"
      "\<not> bs_closed (fs_state s1)" "map ie_event (fs_log s1) = map ie_event (fs_log s) @ [Chunk c]"
      "fs_start s1 = fs_start s" "fs_snap s1 = fs_snap s" "fs_recd s1 = fs_recd s"
    unfolding fan_extends_def by auto
  show ?case
    using Cons.IH [OF s1(1,3-5)] s1(2,6-) w1(2) by (simp add: fan_extends_def)
qed

text \<open>So the fan-out reader, run to its end over an open stream, is one of the interleavings, and it publishes
  the bytes of the pipe.\<close>

lemma reader_run:
  assumes "mpsc_ok ops contents gone" "fan_reachable ops options s" "fs_inflight s = None"
    and "bs_terminal (fs_state s) = None" "\<not> bs_closed (fs_state s)"
    and "config_ok options" "read_terminal name rs = Some t"
    and "read_chunked_shared ops options name rs (fs_world s, n) = Inr (Ready (), w, n')"
  shows "\<exists>evs. reader_events name (read_chunk_size options) rs = Inr evs \<and> fan_extends ops options s evs w"
proof -
  have "0 < bytes (read_chunk_size options)" using assms(6) by (simp add: config_ok_def)
  from reader_events_shape [OF this, of name rs] obtain cs where
    cs: "reader_events name (read_chunk_size options) rs = Inr (map Chunk cs @ [t])"
    using assms(7) by auto
  have "append_events ops options (map Chunk cs @ [t]) (fs_world s) = Inr (Ready (), w)"
    using read_chunked_shared_events [OF cs, of ops "fs_world s" n] assms(7,8)
    by (cases "append_events ops options (map Chunk cs @ [t]) (fs_world s)") auto
  then show ?thesis using append_events_run [OF assms(1-5)] cs by blast
qed

section \<open>What one subscriber is handed\<close>

text \<open>While a stream that retains everything is not sealed, every snapshot holds all chunks published before
  it was taken.\<close>

definition fan_full_ok :: "stream_config \<Rightarrow> 'ch fan_sys \<Rightarrow> bool" where
  "fan_full_ok options s \<longleftrightarrow>
     (config_replay_retention options = Some RetainAll \<and> \<not> bs_replay_sealed (fs_state s) \<longrightarrow>
        (\<forall>a<fs_addrs s. log_chunks (fs_snap s a) = log_chunks (take (fs_start s a) (fs_log s))))"

lemma fan_full_ok_step:
  assumes "mpsc_ok ops contents gone" and "fan_reachable ops options s" and "fan_full_ok options s"
    and "fan_step ops options s s'"
  shows "fan_full_ok options s'"
  using assms(4)
proof cases
  case (fan_publish ev ie subs terminal st)
  have ok: "fan_ok contents gone options s" by (rule fan_reachable_ok [OF assms(1,2)])
  then have "bs_replay_sealed st = bs_replay_sealed (fs_state s)"
    using append_lock_pushed [OF _ fan_publish(4)] by (auto simp: fan_ok_def log_ok_def pushed_def)
  moreover have "fs_start s a \<le> length (fs_log s)" if "a < fs_addrs s" for a
    using ok that by (simp add: fan_ok_def fan_snap_ok_def)
  ultimately show ?thesis using fan_publish(1) assms(3) by (simp add: fan_full_ok_def)
next
  case (fan_delivered ie sid sender rest stale terminal w)
  then show ?thesis using assms(3) deliver_one_frame [OF fan_delivered(3)] by (simp add: fan_full_ok_def)
next
  case (fan_refused ie sid sender rest stale terminal w)
  then show ?thesis using assms(3) deliver_one_frame [OF fan_refused(3)] by (simp add: fan_full_ok_def)
next
  case (fan_blocked ie sid sender rest stale terminal w)
  then show ?thesis using assms(3) deliver_one_frame [OF fan_blocked(3)] by (simp add: fan_full_ok_def)
next
  case (fan_subscribe sub w a)
  then show ?thesis
    using assms(3) snapshot_contents(1,3) [OF assms(1,2) fan_subscribe(2)] try_subscribe_frame(1,8) [OF fan_subscribe(2)]
    by (auto simp: fan_full_ok_def less_Suc_eq log_chunks_def)
next
  case (fan_receive a ie w)
  then show ?thesis using assms(3) live_receiver_recv_frame [OF fan_receive(3)] by (simp add: fan_full_ok_def)
next
  case fan_drop
  then show ?thesis using assms(3) by (simp add: fan_full_ok_def fanout_drop_def close_for_drop_def)
qed (use assms(3) in \<open>simp_all add: fan_full_ok_def seal_replay_def clear_replay_def Let_def remove_subscriber_def\<close>)

lemma fan_reachable_full:
  assumes "mpsc_ok ops contents gone" and "fan_reachable ops options s"
  shows "fan_full_ok options s"
  using assms(2)
proof induction
  case (fan_init s)
  then show ?case by (simp add: fan_initial_def fan_full_ok_def)
next
  case (fan_next s s')
  then show ?case using fan_full_ok_step [OF assms(1)] by blast
qed

text \<open>A strictly increasing enumeration of positions that is long enough takes them all.\<close>

lemma all_positions:
  assumes "sorted_wrt (<) (map f xs)" and "\<forall>x\<in>set xs. f x < n \<and> n \<le> length lg \<and> lg ! f x = x" and "n \<le> length xs"
  shows "xs = take n lg"
proof -
  have d: "distinct (map f xs)" using assms(1) by (simp add: strict_sorted_iff)
  have sub: "set (map f xs) \<subseteq> {..<n}" using assms(2) by auto
  have "card (set (map f xs)) = length xs" using d by (metis distinct_card length_map)
  moreover have "card (set (map f xs)) \<le> n" using card_mono [OF _ sub] by simp
  ultimately have len: "length xs = n" and "set (map f xs) = {..<n}"
    using assms(3) sub card_subset_eq [of "{..<n}" "set (map f xs)"] by auto
  then have idx: "map f xs = [0..<n]"
    using assms(1) by (intro sorted_distinct_set_unique) (auto simp: strict_sorted_iff)
  show ?thesis
  proof (rule nth_equalityI)
    have n: "n \<le> length lg" if "0 < n" using assms(2) len that by (cases xs) auto
    then show "length xs = length (take n lg)" using len by (cases "n = 0") auto
    fix i assume i: "i < length xs"
    then have "f (xs ! i) = i" using idx len by (metis add_0 nth_map nth_upt)
    then show "xs ! i = take n lg ! i" using assms(2) i len nth_mem [OF i] by fastforce
  qed
qed

text \<open>The events of a stream that ended: chunks, then the terminal event.\<close>

lemma ended_log:
  fixes lg :: "indexed_event list"
  assumes "map ie_event lg = map Chunk cs @ [t]" and "is_terminal t"
  shows "length lg = Suc (length cs)"
    and "i < length cs \<Longrightarrow> is_indexed_chunk (lg ! i) \<and> ie_event (lg ! i) = Chunk (cs ! i)"
    and "n \<le> length cs \<Longrightarrow> filter is_indexed_chunk (take n lg) = take n lg"
    and "length (filter is_indexed_chunk lg) = length cs"
proof -
  show len: "length lg = Suc (length cs)" using arg_cong [OF assms(1), of length] by simp
  have nth: "ie_event (lg ! i) = Chunk (cs ! i)" if "i < length cs" for i
    using assms(1) len that by (metis (no_types, lifting) length_map less_SucI nth_append nth_map)
  then show chunk: "is_indexed_chunk (lg ! i) \<and> ie_event (lg ! i) = Chunk (cs ! i)" if "i < length cs" for i
    using that by (simp add: is_indexed_chunk_def)
  show pre: "filter is_indexed_chunk (take n lg) = take n lg" if "n \<le> length cs" for n
    using that len by (auto simp: filter_id_conv in_set_conv_nth chunk)
  have "ie_event (last lg) = t" using assms(1) len by (metis last_map last_snoc length_0_conv nat.distinct(1))
  then have "\<not> is_indexed_chunk (last lg)" using assms(2) by (cases t) (auto simp: is_indexed_chunk_def)
  moreover have "lg = take (length cs) lg @ [last lg]"
    using len by (metis append_butlast_last_id butlast_conv_take diff_Suc_1 length_0_conv nat.distinct(1))
  ultimately show "length (filter is_indexed_chunk lg) = length cs"
    using pre [of "length cs"] len
    by (metis (no_types, lifting) append_Nil2 filter.simps filter_append le_refl length_take lessI less_imp_le min_absorb2)
qed

lemma snapshot_complete:
  assumes "mpsc_ok ops contents gone" "fan_reachable ops options s"
    and "config_replay_retention options = Some RetainAll" "\<not> bs_replay_sealed (fs_state s)" "a < fs_addrs s"
    and log: "map ie_event (fs_log s) = map Chunk cs @ [t]" "is_terminal t"
    and late: "fs_start s a = length (fs_log s) \<Longrightarrow> t \<in> ie_event ` set (fs_snap s a)"
  shows "fs_snap s a = take (fs_start s a) (fs_log s)"
proof (rule all_positions [where f = seq])
  let ?n = "fs_start s a"
  have snap: "fan_snap_ok s" using fan_reachable_ok [OF assms(1,2)] by (simp add: fan_ok_def)
  then show "sorted_wrt (<) (map seq (fs_snap s a))" using assms(5) by (simp add: fan_snap_ok_def)
  show "\<forall>e\<in>set (fs_snap s a). seq e < ?n \<and> ?n \<le> length (fs_log s) \<and> fs_log s ! seq e = e"
    using snap assms(5) by (simp add: fan_snap_ok_def)
  have n: "?n \<le> length (fs_log s)" using snap assms(5) by (simp add: fan_snap_ok_def)
  have "log_chunks (fs_snap s a) = log_chunks (take ?n (fs_log s))"
    using fan_reachable_full [OF assms(1,2)] assms(3-5) by (simp add: fan_full_ok_def)
  then have count: "length (filter is_indexed_chunk (fs_snap s a)) = length (filter is_indexed_chunk (take ?n (fs_log s)))"
    unfolding log_chunks_def by (metis length_map)
  show "?n \<le> length (fs_snap s a)"
  proof (cases "?n \<le> length cs")
    case True
    then have "length (filter is_indexed_chunk (fs_snap s a)) = ?n" using count ended_log(3) [OF log] n by simp
    then show ?thesis using length_filter_le [of is_indexed_chunk "fs_snap s a"] by linarith
  next
    case False
    then have all: "?n = length (fs_log s)" "?n = Suc (length cs)" using n ended_log(1) [OF log] by simp_all
    from late [OF all(1)] obtain e where e: "e \<in> set (fs_snap s a)" "ie_event e = t" by auto
    then have "\<not> is_indexed_chunk e" using log(2) by (cases t) (auto simp: is_indexed_chunk_def)
    with e(1) have "length (filter is_indexed_chunk (fs_snap s a)) < length (fs_snap s a)"
      by (rule length_filter_less)
    then show ?thesis using count all ended_log(4) [OF log] by simp
  qed
qed

text \<open>A prefix of an ended stream that has the terminal event is the whole stream.\<close>

lemma prefix_with_terminal:
  fixes lg :: "indexed_event list"
  assumes "xs @ ys = take k lg" and "map ie_event lg = map Chunk cs @ [t]" "is_terminal t" and "t \<in> ie_event ` set xs"
  shows "xs = lg"
proof -
  have xs: "xs = take (length xs) lg" "length xs \<le> length lg"
    using assms(1) by (metis append_eq_conv_conj take_take min_def take_all_iff nat_le_linear,
      metis append_eq_conv_conj length_append length_take min.bounded_iff le_add1 le_trans nle_le)
  have "\<not> length xs \<le> length cs"
  proof
    assume short: "length xs \<le> length cs"
    obtain e where "e \<in> set xs" "ie_event e = t" using assms(4) by auto
    then obtain i where "i < length xs" "ie_event (lg ! i) = t" using xs(1) by (metis in_set_conv_nth nth_take)
    then show False using ended_log(2) [OF assms(2,3), of i] short assms(3) by auto
  qed
  then show ?thesis using xs ended_log(1) [OF assms(2,3)] by (metis not_less_eq_eq take_all)
qed

lemma handed_everything:
  assumes "mpsc_ok ops contents gone" "fan_reachable ops options s"
    and reliable: "config_delivery_guarantee options = ReliableWithBackpressure" "\<not> gone (w_chans (fs_world s) a)"
    and full: "config_replay_retention options = Some RetainAll" "\<not> bs_replay_sealed (fs_state s)" and a: "a < fs_addrs s"
    and log: "map ie_event (fs_log s) = map Chunk cs @ [t]" "is_terminal t"
    and seen: "t \<in> ie_event ` set (fs_snap s a @ fs_recd s a)"
  shows "fs_snap s a @ fs_recd s a = fs_log s"
proof -
  let ?n = "fs_start s a"
  have ok: "fan_ok contents gone options s" by (rule fan_reachable_ok [OF assms(1,2)])
  then obtain k where k: "?n \<le> k" "k \<le> length (fs_log s)" "fs_sent s a = slice (fs_log s) ?n k"
    using a unfolding fan_ok_def fan_sent_ok_def sent_ok_def by blast
  have block: "fs_recd s a @ contents (w_chans (fs_world s) a) = slice (fs_log s) ?n k"
    using ok a reliable k(3) by (simp add: fan_ok_def fan_recd_ok_def)
  have "t \<in> ie_event ` set (fs_snap s a)" if "?n = length (fs_log s)"
    using seen block that k(1,2) by (simp add: slice_def)
  then have "fs_snap s a = take ?n (fs_log s)" by (rule snapshot_complete [OF assms(1,2) full a log])
  then have "(fs_snap s a @ fs_recd s a) @ contents (w_chans (fs_world s) a) = take k (fs_log s)"
    using block k(1) by (simp add: slice_def) (metis append_take_drop_id min.absorb1 take_take drop_take)
  then show ?thesis using log seen by (rule prefix_with_terminal)
qed

end
