(* ===== verification/Lossy_Lines.thy ===== *)
theory Lossy_Lines
  imports Best_Effort_Reader Pipeline Collect
begin

text \<open>
  What the gap markers of best-effort delivery are for: with them, a line consumer never sees a line that the
  process did not write.  The line automaton, fed a stream with marked losses, is compared with the same
  automaton fed the whole stream: after a gap both are in the same state from the next newline on.  Both
  backends deliver such streams (\<open>gap_marked\<close>), so the collectors behind them retain lines of the output.
\<close>

section \<open>Parsing a stream with marked losses\<close>

fun event_input :: "stream_event \<Rightarrow> input" where
  "event_input (Chunk c) = InChunk c"
| "event_input _ = InGap"

lemma lstate_ok_start: "lstate_ok options (DiscardUntilNewline, [])" "lstate_ok options (ReadingLine, [])"
  by (auto simp: lstate_ok_def)

text \<open>An automaton that waits for a newline catches up with one that does not.\<close>

lemma resync:
  assumes "lstate_ok options s"
  shows "subseq (fst (run options (DiscardUntilNewline, []) xs)) (fst (run options s xs)) \<and>
     (snd (run options (DiscardUntilNewline, []) xs) = snd (run options s xs) \<or>
      snd (run options (DiscardUntilNewline, []) xs) = (DiscardUntilNewline, []))"
  using assms
proof (induction xs arbitrary: s)
  case (Cons x xs)
  show ?case
  proof (cases "x = newline")
    case True
    then show ?thesis using feed_newline [OF Cons.prems] feed_newline [OF lstate_ok_start(1), of options]
      by (simp add: run_Cons subseq_drop_many) (simp add: feed_def)
  next
    case False
    then have "feed options (DiscardUntilNewline, []) x = ([], (DiscardUntilNewline, []))" by (simp add: feed_def)
    then show ?thesis using Cons.IH [OF feed_lines(1) [OF Cons.prems]] by (simp add: run_Cons subseq_drop_many)
  qed
qed simp

lemma run_inputs_ok: "lstate_ok options s \<Longrightarrow> lstate_ok options (snd (run_inputs options s is))"
  by (induction options s "is" rule: run_inputs.induct) (simp_all add: lstate_ok_start run_lstate_ok)

text \<open>The bytes of a list of chunks.\<close>

abbreviation event_bytes :: "stream_event list \<Rightarrow> bytes" where
  "event_bytes es \<equiv> concat (event_chunks es)"

lemma event_chunks_single [simp]: "event_chunks [Chunk c] = [c]"
  by (simp add: event_chunks_def)

text \<open>The lines of a stream with marked losses are lines of the whole stream, and unless a loss is still to be
  marked, the automaton is where it would be without losses or waits for the next newline.\<close>

lemma marked_lines:
  assumes "gap_marked b r p" and "\<forall>e\<in>set p. is_chunk e"
  shows "subseq (fst (run_inputs options (ReadingLine, []) (map event_input r))) (fst (run options (ReadingLine, []) (event_bytes p))) \<and>
     (b \<or> snd (run_inputs options (ReadingLine, []) (map event_input r)) = snd (run options (ReadingLine, []) (event_bytes p)) \<or>
      snd (run_inputs options (ReadingLine, []) (map event_input r)) = (DiscardUntilNewline, []))"
  using assms
proof (induction rule: gap_marked.induct)
  case (marked_keep r p e)
  let ?r = "run_inputs options (ReadingLine, []) (map event_input r)" and ?p = "run options (ReadingLine, []) (event_bytes p)"
  obtain c where e: "e = Chunk c" using marked_keep.prems by (cases e) auto
  have ok: "lstate_ok options (snd ?p)" by (rule run_lstate_ok [OF lstate_ok_start(2)])
  have IH: "subseq (fst ?r) (fst ?p)" "snd ?r = snd ?p \<or> snd ?r = (DiscardUntilNewline, [])"
    using marked_keep.IH marked_keep.prems by auto
  have "subseq (fst (run options (snd ?r) c)) (fst (run options (snd ?p) c)) \<and>
      (snd (run options (snd ?r) c) = snd (run options (snd ?p) c) \<or> snd (run options (snd ?r) c) = (DiscardUntilNewline, []))"
    using IH(2) resync [OF ok, of c] by auto
  then show ?case using IH(1) by (simp add: e run_append run_inputs_append list_emb_append_mono)
next
  case (marked_lose b r p e)
  then obtain c where e: "e = Chunk c" by (cases e) auto
  have "subseq (fst (run_inputs options (ReadingLine, []) (map event_input r))) (fst (run options (ReadingLine, []) (event_bytes p)))"
    using marked_lose by auto
  then show ?case by (simp add: e run_append subseq_rev_drop_many)
next
  case (marked_gap r p)
  then show ?case by (simp add: run_inputs_append)
qed (simp add: event_chunks_def)

text \<open>At the end of the stream, with the last unterminated line.\<close>

lemma marked_all_lines:
  assumes "gap_marked False r p" and "\<forall>e\<in>set p. is_chunk e"
  shows "subseq (fst (run_inputs options (ReadingLine, []) (map event_input r)) @ flush (snd (run_inputs options (ReadingLine, []) (map event_input r))))
     (spec_lines options (event_bytes p))"
proof -
  let ?r = "run_inputs options (ReadingLine, []) (map event_input r)" and ?p = "run options (ReadingLine, []) (event_bytes p)"
  have m: "subseq (fst ?r) (fst ?p)" "snd ?r = snd ?p \<or> snd ?r = (DiscardUntilNewline, [])"
    using marked_lines [OF assms, of options] by auto
  then have "subseq (flush (snd ?r)) (flush (snd ?p))" by (auto simp: flush_def)
  with m(1) have "subseq (fst ?r @ flush (snd ?r)) (fst ?p @ flush (snd ?p))" by (rule list_emb_append_mono)
  then show ?thesis
    using run_lines_spec [of options "event_bytes p", symmetric] by (simp add: run_lines_def case_prod_beta)
qed

section \<open>What a line collector retains of a lossy stream\<close>

lemma marked_set: "gap_marked b r p \<Longrightarrow> e \<in> set r \<Longrightarrow> e \<noteq> Gap \<Longrightarrow> e \<in> set p"
  by (induction rule: gap_marked.induct) auto

lemma marked_terminal:
  assumes "gap_marked b r (map Chunk cs @ [t])" and "is_terminal t" and "t \<in> set r"
  shows "\<not> b \<and> (\<exists>r'. r = r' @ [t] \<and> gap_marked False r' (map Chunk cs))"
  using assms
proof (induction b r "map Chunk cs @ [t]" rule: gap_marked.induct)
  case (marked_lose b r p e)
  then have "t \<in> set p" using marked_set [of b r p t] by (cases t) auto
  then show ?case using marked_lose by auto
qed auto

lemma marked_inputs:
  assumes "gap_marked b r (map Chunk cs)"
  shows "map (Event \<circ> Some) r = map (Event \<circ> Some \<circ> input_event) (map event_input r)"
proof -
  have "e = Gap \<or> (\<exists>c. e = Chunk c)" if "e \<in> set r" for e using marked_set [OF assms that] by auto
  then have "input_event (event_input e) = e" if "e \<in> set r" for e using that by fastforce
  then show ?thesis by simp
qed

lemma collect_marked:
  assumes "byte_deps_ok d" and "0 < limit parsing" and "gap_marked b r (map Chunk cs @ [Eof])" and "Eof \<in> set r"
  shows "\<exists>v c ls. parse_lines_new parsing collected_lines_new = Inr v \<and>
     consume_sync (parse_lines_visitor d (collect_lines_visitor (line_collector copts))) v (map (Event \<circ> Some) r) = Inr (Finished c) \<and>
     cl_lines c = keep_lines copts ls \<and> subseq ls (map decode_line_lossy (spec_lines parsing (concat cs))) \<and>
     (Gap \<notin> set r \<longrightarrow> ls = map decode_line_lossy (spec_lines parsing (concat cs)))"
proof -
  obtain r' where r': "r = r' @ [Eof]" "gap_marked False r' (map Chunk cs)"
    using marked_terminal [OF assms(3) _ assms(4)] by auto
  let ?R = "run_inputs parsing (ReadingLine, []) (map event_input r')"
  let ?raw = "fst ?R @ flush (snd ?R)"
  have chunks: "event_chunks (map Chunk cs) = cs" by (simp add: event_chunks_def comp_def)
  have sub: "subseq ?raw (spec_lines parsing (concat cs))" using marked_all_lines [OF r'(2), of parsing] chunks by simp
  have whole: "?raw = spec_lines parsing (concat cs)" if "Gap \<notin> set r"
  proof -
    have "r' = map Chunk cs" using marked_complete [OF r'(2)] that r'(1) by simp
    then have "?R = run parsing (ReadingLine, []) (concat cs)" by (simp add: comp_def run_inputs_chunks)
    then show ?thesis using run_lines_spec [of parsing "concat cs", symmetric] by (simp add: run_lines_def case_prod_beta)
  qed
  obtain v c where "parse_lines_new parsing collected_lines_new = Inr v"
      "consume_sync (parse_lines_visitor d (collect_lines_visitor (line_collector copts))) v (map (Event \<circ> Some) r) = Inr (Finished c)"
      "cl_lines c = keep_lines copts (map decode_line_lossy ?raw)"
    using collect_inputs_run [OF assms(1,2) refl, of copts "map event_input r'" "[]"] marked_inputs [OF r'(2)] r'(1) by auto
  moreover have "subseq (map decode_line_lossy ?raw) (map decode_line_lossy (spec_lines parsing (concat cs)))"
    using sub by (rule subseq_map)
  ultimately show ?thesis using whole by (intro exI [of _ v] exI [of _ c] exI [of _ "map decode_line_lossy ?raw"]) simp
qed

section \<open>The broadcast backend\<close>

text \<open>The best-effort queues of the broadcast backend mark their losses the same way.\<close>

lemma lossy_marked: "lossy r p \<Longrightarrow> gap_marked False (map ie_event r) (map ie_event p)"
proof (induction rule: lossy.induct)
  case (lossy_gap r p lost g)
  obtain l e where lost: "lost = l @ [e]" using lossy_gap.hyps(2) by (cases lost rule: rev_cases) auto
  have "gap_marked True (map ie_event r) (map ie_event (p @ lost))"
  proof (cases l)
    case Nil
    then show ?thesis using marked_lose [OF lossy_gap.IH, of "ie_event e"] lost by simp
  next
    case (Cons x xs)
    from marked_lose_many [OF marked_lose [OF lossy_gap.IH, of "ie_event x"], of "map ie_event (xs @ [e])"] show ?thesis
      using lost Cons by simp
  qed
  from marked_gap [OF this] show ?case using lossy_gap.hyps(3) by simp
qed (auto intro: marked_Nil marked_keep)

lemma marked_refl: "gap_marked False p p"
  by (induction p rule: rev_induct) (auto intro: marked_Nil marked_keep)

lemma marked_append: "gap_marked b r2 p2 \<Longrightarrow> gap_marked False r1 p1 \<Longrightarrow> gap_marked b (r1 @ r2) (p1 @ p2)"
  by (induction rule: gap_marked.induct) (auto simp flip: append_assoc intro: marked_keep marked_lose marked_gap)

text \<open>A subscriber of a lossy stream that retains everything is handed the whole published stream with marked
  losses, once it has seen the terminal event.\<close>

lemma handed_marked:
  assumes "mpsc_ok ops contents gone" "fan_reachable ops options s"
    and lossy: "config_delivery_guarantee options = LossyWithoutBackpressure"
    and full: "config_replay_retention options = Some RetainAll" "\<not> bs_replay_sealed (fs_state s)" and a: "a < fs_addrs s"
    and log: "map ie_event (fs_log s) = map Chunk cs @ [t]" "is_terminal t"
    and seen: "t \<in> ie_event ` set (fs_snap s a @ fs_recd s a)"
  shows "gap_marked False (map ie_event (fs_snap s a @ fs_recd s a)) (map Chunk cs @ [t])"
proof -
  let ?n = "fs_start s a"
  obtain k where k: "?n \<le> k" "k \<le> length (fs_log s)"
      "lossy (fs_recd s a @ lq_events (w_queues (fs_world s) a)) (slice (fs_log s) ?n k)"
    using best_effort_block [OF assms(1,2) lossy a] by blast
  obtain p1 p2 where p: "slice (fs_log s) ?n k = p1 @ p2" "lossy (fs_recd s a) p1"
    using lossy_split [OF k(3) refl] by blast
  have recd: "gap_marked False (map ie_event (fs_recd s a)) (map ie_event p1)" by (rule lossy_marked [OF p(2)])
  have snap: "fs_snap s a = take ?n (fs_log s)"
  proof (rule snapshot_complete [OF assms(1,2) full a log])
    assume "?n = length (fs_log s)"
    then have "p1 = []" using p(1) k(2) by (simp add: slice_def)
    then have "\<not> t \<in> ie_event ` set (fs_recd s a)" using marked_set [OF recd, of t] log(2) by (cases t) auto
    then show "t \<in> ie_event ` set (fs_snap s a)" using seen by auto
  qed
  have pre: "(take ?n (fs_log s) @ p1) @ p2 = take k (fs_log s)"
    using take_add [of ?n "k - ?n" "fs_log s"] k(1) by (simp add: slice_def flip: p(1))
  have m: "gap_marked False (map ie_event (fs_snap s a @ fs_recd s a)) (map ie_event (take ?n (fs_log s) @ p1))"
    using marked_append [OF recd marked_refl, of "map ie_event (take ?n (fs_log s))"] snap by simp
  have "t \<in> set (map ie_event (take ?n (fs_log s) @ p1))"
    using marked_set [OF m, of t] seen log(2) by (cases t) auto
  then have "take ?n (fs_log s) @ p1 = fs_log s" using prefix_with_terminal [OF pre log] by auto
  then show ?thesis using m log(1) by simp
qed

section \<open>The single-subscriber backend\<close>

lemma marked_split: "gap_marked b rq p \<Longrightarrow> rq = r @ q \<Longrightarrow> \<exists>b' p1 p2. p = p1 @ p2 \<and> gap_marked b' r p1"
proof (induction arbitrary: r q rule: gap_marked.induct)
  case (marked_keep r0 p e)
  show ?case
  proof (cases q rule: rev_cases)
    case Nil
    then show ?thesis using gap_marked.marked_keep [OF marked_keep.hyps, of e] marked_keep.prems
      by (intro exI [of _ False] exI [of _ "p @ [e]"] exI [of _ "[]"]) auto
  next
    case (snoc q' x)
    then obtain b' p1 p2 where "p = p1 @ p2" "gap_marked b' r p1" using marked_keep.IH [of r q'] marked_keep.prems by auto
    then show ?thesis by (intro exI [of _ b'] exI [of _ p1] exI [of _ "p2 @ [e]"]) simp
  qed
next
  case (marked_lose b r0 p e)
  obtain b' p1 p2 where "p = p1 @ p2" "gap_marked b' r p1" using marked_lose.IH [OF marked_lose.prems] by blast
  then show ?case by (intro exI [of _ b'] exI [of _ p1] exI [of _ "p2 @ [e]"]) simp
next
  case (marked_gap r0 p)
  show ?case
  proof (cases q rule: rev_cases)
    case Nil
    then show ?thesis using gap_marked.marked_gap [OF marked_gap.hyps] marked_gap.prems
      by (intro exI [of _ False] exI [of _ p] exI [of _ "[]"]) auto
  next
    case (snoc q' x)
    then show ?thesis using marked_gap.IH [of r q'] marked_gap.prems by auto
  qed
qed (auto intro: marked_Nil)

text \<open>A subscriber that attached before the first read and has seen the terminal event.\<close>

lemma single_handed_marked:
  assumes "event_chan_ok ops contents gone capacity" "config_ok options" "lossy_reachable ops options name s"
    and "a < ly_next s" "\<not> gone (ly_chan s a)" and start: "ly_start s a = 0"
    and log: "ly_log s = map Chunk cs @ [t]" "is_terminal t" and seen: "t \<in> set (ly_recd s a)"
  shows "\<exists>b. gap_marked b (ly_recd s a) (map Chunk cs @ [t])"
proof -
  obtain n b where n: "stands s b a n" and recd: "ly_recd s a @ contents (ly_chan s a) = ly_sent s a"
    using lossy_ok_reachable [OF assms(3,2,1)] assms(4,5) unfolding lossy_ok_def lossy_blocks_ok_def lossy_received_ok_def by blast
  then have "gap_marked b (ly_recd s a @ contents (ly_chan s a)) (take n (ly_log s))" using start by (auto simp: stands_def)
  from marked_split [OF this refl] obtain b' p1 p2 where p: "take n (ly_log s) = p1 @ p2" "gap_marked b' (ly_recd s a) p1" by blast
  have "t \<in> set p1" using marked_set [OF p(2) seen] log(2) by (cases t) auto
  moreover have "prefix p1 (ly_log s)" using p(1) by (metis append_take_drop_id append_assoc prefixI)
  moreover have "t \<notin> set (map Chunk cs)" using log(2) by (cases t) auto
  ultimately have "p1 = ly_log s" using log(1) set_mono_prefix [of p1 "map Chunk cs"] by (auto simp: prefix_snoc)
  then show ?thesis using p(2) log(1) by auto
qed

text \<open>So the lines of a lossy single-subscriber stream are lines of the output, too.\<close>

theorem single_lossy_lines:
  assumes "event_chan_ok ops contents gone capacity" "config_ok options" "lossy_reachable ops options name s"
    and "a < ly_next s" "\<not> gone (ly_chan s a)" "ly_start s a = 0"
    and "ly_log s = map Chunk cs @ [Eof]" "Eof \<in> set (ly_recd s a)" and "byte_deps_ok d" "0 < limit parsing"
  shows "\<exists>v c ls. parse_lines_new parsing collected_lines_new = Inr v \<and>
     consume_sync (parse_lines_visitor d (collect_lines_visitor (line_collector copts))) v (map (Event \<circ> Some) (ly_recd s a)) = Inr (Finished c) \<and>
     cl_lines c = keep_lines copts ls \<and> subseq ls (map decode_line_lossy (spec_lines parsing (concat cs))) \<and>
     (Gap \<notin> set (ly_recd s a) \<longrightarrow> ls = map decode_line_lossy (spec_lines parsing (concat cs)))"
proof -
  obtain b where "gap_marked b (ly_recd s a) (map Chunk cs @ [Eof])"
    using single_handed_marked [OF assms(1-7) _ assms(8)] by auto
  from collect_marked [OF assms(9,10) this assms(8), of copts] show ?thesis .
qed

end
