(* ===== verification/Spec2Isabelle.thy ===== *)
theory Spec2Isabelle
  imports Wait_Builder Terminate_On_Drop Process_Builder Single_Stream Lossy_Lines
begin

text \<open>
  A verification of tokio-process-tools, a Rust library that spawns child processes, reads their output
  streams, lets consumers collect, inspect, write or search the output, and terminates the children.  File
  names below are relative to \<open>src/src/\<close>.

  \<^bold>\<open>The program and its parts.\<close>  \<open>Process\<close> (\<open>process/builder.rs\<close>, \<open>stream_config.rs\<close>, \<open>name.rs\<close>) collects a
  command, a name and a configuration for each output stream and spawns a \<open>ProcessHandle\<close>
  (\<open>process_handle/spawn.rs\<close>).  The handle owns the child as the leader of a process group
  (\<open>process_handle/group\<close>), its stdin, its two streams and a drop guard.  A stream reads a pipe in a reader
  task and hands events (chunks, gaps, one terminal event) to subscriptions; the broadcast backend serves
  many subscribers, by a fan-out with replay or a fast path on a tokio channel, the single-subscriber
  backend serves one, and the discarded stream none.  A consumer is a task that drives a visitor over a
  subscription; the line adapter feeds a line parser and passes lines to a line visitor.  Waiting for the
  process (\<open>wait_builder.rs\<close>) combines waiting for the child, collecting both streams, a timed drain
  (\<open>output_collection\<close>) and, on request, termination by escalating signals (\<open>termination\<close>).  A handle that
  is dropped while its guard is armed kills the group and panics; \<open>TerminateOnDrop\<close> terminates instead.

  \<^bold>\<open>Conventions.\<close>  A Rust function is one definition with the source's name (prefixed where two files use
  the same one); structs are records, enums are datatypes, marker types and stages of builders are types
  of their own.  A call that can panic returns an \<open>outcome\<close>: \<open>Inl\<close> a panic, \<open>Inr\<close> the result.  A \<open>Result\<close>
  is a sum with the error on the left.  Mutable state is passed and returned.  \<open>usize\<close> and \<open>u64\<close> counters
  are naturals with the checks and saturations of the code written out, a PID is a 32-bit word (the
  process group of \<open>killpg\<close> is its signed reading), durations are nanoseconds.  An asynchronous call that
  would wait is \<open>Pending\<close>, or \<open>None\<close> for one that never returns.  \<open>tracing\<close> output is left out.

  \<^bold>\<open>Parameters.\<close>  Code outside the repository is an argument of the definitions: memchr and the growth of
  \<open>BytesMut\<close> (\<open>byte_deps\<close> with \<open>byte_deps_ok\<close>), tokio's channels (\<open>mpsc_ops\<close> with \<open>mpsc_ok\<close>, \<open>event_chan_ops\<close>
  with \<open>event_chan_ok\<close>, \<open>broadcast_ops\<close>), the child and the operating system (\<open>child_ops\<close>: \<open>Child\<close>, \<open>killpg\<close>
  and the Win32 calls, with \<open>keeps_id\<close> and \<open>killable\<close> where a property needs them), \<open>Command::spawn\<close>
  (\<open>spawner_ok\<close>), the writer of the writing visitors, the state of the thread and its runtime
  (\<open>thread_context\<close>, with the time at which the runtime begins to shut down, if it does), the schedule of the two collector tasks
  during a drain (\<open>collector_schedule\<close>: what they are delivered, which wait of \<open>select!\<close> resolves first), and the
  user's closures.  Each hypothesis is instantiated by a concrete function in a witness.

  \<^bold>\<open>The theories.\<close>
  \<^item> \<open>Prelude\<close>: outcomes, panics, durations, generic lemmas.  \<open>Utf8\<close>: \<open>String::from_utf8_lossy\<close>.
  \<^item> \<open>Stream_Types\<close>: \<open>num_bytes.rs\<close>, \<open>policy.rs\<close>, \<open>config.rs\<close>, \<open>event.rs\<close>, \<open>line/options.rs\<close>.
  \<^item> \<open>Line_Parser\<close>: \<open>line/parser.rs\<close> with its buffers, scan window and compaction, shown to simulate a
    character automaton and to yield the lines of the whole stream whatever its chunking.
  \<^item> \<open>Visitors\<close>: \<open>visitor.rs\<close>, \<open>line/adapter.rs\<close> and the loop of \<open>consumer/driver.rs\<close>.  \<open>Collect\<close>:
    \<open>visitors/collect.rs\<close>.  \<open>Observe\<close>: \<open>visitors/wait.rs\<close>, \<open>inspect.rs\<close>, \<open>write.rs\<close>.  \<open>Consumer\<close>:
    \<open>consumer/mod.rs\<close>, the task handle with waiting, cancelling, aborting and dropping.
  \<^item> \<open>Replay_Window\<close>: what the retention settings promise.  \<open>Live_Queue\<close>, \<open>Broadcast_State\<close>, \<open>Broadcast\<close>:
    \<open>backend/broadcast/state.rs\<close> and \<open>subscription.rs\<close>; every critical section is one definition and the
    relation \<open>fan_step\<close> interleaves them, with the delivery invariants by rule induction.
    \<open>Broadcast_Stream\<close>: \<open>fanout.rs\<close>, \<open>fast.rs\<close>, \<open>mod.rs\<close>, \<open>backend/discard\<close>.  \<open>Wait_Line\<close>: \<open>wait_for_line\<close>.
    \<open>Reader_Loop\<close>: what the reader loops share.
  \<^item> \<open>Single_State\<close>, \<open>Single_Subscriber\<close>, \<open>Single_Reliable\<close>, \<open>Single_Stream\<close>: \<open>backend/single_subscriber\<close>.
    \<open>Single_Best_Effort\<close>: the step relation \<open>lossy_step\<close> of its best-effort reader and the subscriber, with the
    delivery invariants.  \<open>Best_Effort_Reader\<close>: the reader's loop is a run of that relation.
  \<^item> \<open>Pipeline\<close>: the fan-out reader is a run of \<open>fan_step\<close>, and what one subscriber is handed is the whole
    published stream.  \<open>Lossy_Lines\<close>: what a line collector makes of a stream with marked losses, for both
    backends.
  \<^item> \<open>Process_Errors\<close>: \<open>error.rs\<close> and \<open>termination/diagnostics.rs\<close>.  \<open>Shutdown\<close>: \<open>termination/shutdown.rs\<close>.
    \<open>Process_Group\<close>: \<open>group/mod.rs\<close>, \<open>job_object.rs\<close>; the calls to the operating system are logged with the
    time they take, so that signals and time are observations of a run.
  \<^item> \<open>Process_Handle\<close>: \<open>process_handle/mod.rs\<close>, \<open>panic_on_drop.rs\<close>, \<open>drop_guard.rs\<close>, \<open>wait.rs\<close>.  \<open>Termination\<close>:
    \<open>termination/mod.rs\<close>, \<open>signal.rs\<close>; \<open>Termination_Contract\<close> proves its properties over a locale of signal
    hooks that is interpreted for Unix and for Windows.  \<open>Termination_Interrupt\<close>: how far a termination gets
    when the timers of its runtime fail at a given time.  \<open>Terminate_On_Drop\<close>: \<open>terminate_on_drop.rs\<close>,
    \<open>async_drop.rs\<close>.
  \<^item> \<open>Output_Collection\<close>: \<open>output_collection\<close> and the rest of \<open>wait.rs\<close>.  \<open>Wait_Builder\<close>: \<open>wait_builder.rs\<close>.
    \<open>Process_Name\<close>, \<open>Process_Builder\<close>: \<open>process\<close>, \<open>spawn.rs\<close>, \<open>replay.rs\<close>.

  \<^bold>\<open>What the properties show.\<close>  Parsing: the lines depend on the bytes only, are bounded, are never joined
  across a gap, resume exactly behind the next newline, and survive the way through a line-writing consumer
  and back through a parsing one.  Collecting and observing: every sink
  retains exactly what its options say and flags truncation exactly; a consumer that sees a terminal event
  ends.  Delivery: a reliable subscriber gets a gap-free block that starts where its replay ends, a lossy
  one the same with marked gaps, in every interleaving and on both backends; snapshots are the configured
  window.  Termination:
  it always returns, never panics, escalates in order, stays within its time, ends every killable child,
  and keeps the drop guard in step with what was observed; the same for killing, manual signals, drops and
  waiting with termination.  A runtime that shuts down while a dropped wrapper terminates its process
  makes the destructor panic, and the wrapped handle then sends the kill.  Composition: a wait with line output returns the status and the lines of
  both streams, \<open>whole_output_collected\<close> below goes from the pipe to the lines, and \<open>lossy_output_lines\<close> shows that a
  lossy stream can leave lines out but never makes one up.  Four theorems state
  behaviour that differs from what the code or its documentation means: \<open>drain_can_panic\<close>,
  \<open>lossy_replay_hole\<close>, \<open>drop_closes_without_terminal\<close> and \<open>grace_exceeds_total_timeout\<close>.

  \<^bold>\<open>Bounds and fuel.\<close>  No definition runs on fuel.  Loops are structural or have a measure (the rest of the
  chunk, of the buffer or of the queue); a loop of the source that could spin is the panic \<open>Diverges\<close> and is
  shown not to be reached.  A reader runs over a finite list of read results, a consumer over a finite
  list of polls; the list running out is a task that waits.

  \<^bold>\<open>Not modelled.\<close>  The crate root, re-exports and compile-time checks (\<open>lib.rs\<close>, the \<open>mod.rs\<close> files without
  code, \<open>send_sync_proof.rs\<close>), test helpers, \<open>Debug\<close> output and \<open>tracing\<close>, the messages of the errors other than
  termination errors, the allocation behaviour of buffers beyond the parameters above, and the scheduler
  of tokio: tasks are run by step relations or take their outcome as a parameter.  Time passes only in
  the waits of the process group.
\<close>

section \<open>From the pipe to the collected lines\<close>

text \<open>C4: The whole output is collected.  Take a broadcast stream with reliable delivery that retains everything
  and is not sealed, in any interleaving of its reader, its subscribers and their receives, whose reader
  has published what it read from the pipe up to the end of the file.  Whenever a subscriber attached
  (before, between or after the reads), a line collector that consumes what this subscriber was handed,
  its replay and then its live events, up to the end-of-file event ends without a panic and retains
  exactly what its options keep of the decoded lines of the bytes read from the pipe; neither the sizes
  of the reads nor the chunk size nor the schedule matter.\<close>

theorem whole_output_collected:
  assumes "mpsc_ok ops contents gone" "fan_reachable ops options s" and "config_ok options"
    and "config_delivery_guarantee options = ReliableWithBackpressure" "\<not> gone (w_chans (fs_world s) a)"
    and "config_replay_retention options = Some RetainAll" "\<not> bs_replay_sealed (fs_state s)" "a < fs_addrs s"
    and "reader_events name (read_chunk_size options) rs = Inr (map ie_event (fs_log s))"
    and "read_terminal name rs = Some Eof" "Eof \<in> ie_event ` set (fs_snap s a @ fs_recd s a)"
    and "byte_deps_ok d" "0 < limit parsing"
  shows "\<exists>v c. parse_lines_new parsing collected_lines_new = Inr v \<and>
     consume_sync (parse_lines_visitor d (collect_lines_visitor (line_collector copts))) v
       (map (Event \<circ> Some \<circ> ie_event) (fs_snap s a @ fs_recd s a)) = Inr (Finished c) \<and>
     cl_lines c = keep_lines copts (map decode_line_lossy (spec_lines parsing (read_bytes rs))) \<and>
     (cl_truncated c \<longleftrightarrow> cl_lines c \<noteq> map decode_line_lossy (spec_lines parsing (read_bytes rs)))"
proof -
  have "0 < bytes (read_chunk_size options)" using assms(3) by (simp add: config_ok_def)
  from reader_events_shape [OF this, of name rs] obtain cs where
    cs: "map ie_event (fs_log s) = map Chunk cs @ [Eof]" "concat cs = read_bytes rs"
    using assms(9,10) by auto
  have "fs_snap s a @ fs_recd s a = fs_log s"
    using handed_everything [OF assms(1,2,4-8) cs(1)] assms(11) by simp
  then have "map (Event \<circ> Some \<circ> ie_event) (fs_snap s a @ fs_recd s a)
      = map (Event \<circ> Some \<circ> Chunk) cs @ [Event (Some Eof)]"
    using arg_cong [OF cs(1), of "map (Event \<circ> Some)"] by simp
  then show ?thesis using collect_lines_run [OF assms(12,13), of copts cs "[]"] cs(2) by simp
qed

text \<open>A run: the reader publishes a line and the end of the file, then a subscriber attaches.\<close>

definition late_reads :: "read_result list" where
  "late_reads = [Inr ''ab\<newline>'', Inr []]"

definition late_options :: "delivery \<Rightarrow> stream_config" where
  "late_options delivery = example_config delivery"

lemma late_run:
  "\<exists>s. fan_reachable example_mpsc (late_options delivery) s \<and> fs_addrs s = 1 \<and> \<not> bs_replay_sealed (fs_state s) \<and>
     (delivery = ReliableMarker \<longrightarrow> \<not> (snd \<circ> snd) (w_chans (fs_world s) 0)) \<and> Eof \<in> ie_event ` set (fs_snap s 0 @ fs_recd s 0) \<and>
     reader_events ''stdout'' (read_chunk_size (late_options delivery)) late_reads = Inr (map ie_event (fs_log s))"
proof -
  note defs = late_options_def late_reads_def example_config_def config_replay_retention_def config_delivery_guarantee_def
  have start: "fan_reachable example_mpsc (late_options delivery) example_start" "fs_inflight example_start = None"
    "bs_terminal (fs_state example_start) = None" "\<not> bs_closed (fs_state example_start)" "fs_log example_start = []"
    by (auto intro: fan_init simp: fan_initial_def example_start_def broadcast_state_new_def)
  have ok: "config_ok (late_options delivery)" by (simp add: defs config_ok_def retention_ok_def)
  have split: "split_chunks 4 ''ab\<newline>'' = Inr [''ab\<newline>'']" by (simp add: split_chunks.simps)
  obtain w n where w: "read_chunked_shared example_mpsc (late_options delivery) ''stdout'' late_reads (fs_world example_start, 0) = Inr (Ready (), w, n)"
    "bs_replay_sealed (w_state w) = False" "bs_terminal (w_state w) = Some (indexed 1 Eof)" "w_next_addr w = 0"
    by (simp add: defs split Let_def append_event_def append_lock_def push_event_def bs_trim_replay_window_def
        example_start_def broadcast_state_new_def append_cleanup_def)
  obtain evs where evs: "reader_events ''stdout'' (read_chunk_size (late_options delivery)) late_reads = Inr evs"
      "fan_extends example_mpsc (late_options delivery) example_start evs w"
    using reader_run [OF example_mpsc_ok start(1-4) ok _ w(1), of Eof] by (auto simp: late_reads_def)
  from evs(2) obtain s where s: "fan_reachable example_mpsc (late_options delivery) s" "fs_world s = w" "map ie_event (fs_log s) = evs"
    using start(5) by (auto simp: fan_extends_def)
  let ?s = "run_subscribe example_mpsc (late_options delivery) s"
  note sub = run_subscribe_def try_subscribe_fanout_def replay_snapshot_def Let_def s(2) w defs example_mpsc_def
  have "fs_log ?s = fs_log s" by (simp add: run_subscribe_def Let_def split: prod.split)
  then have "reader_events ''stdout'' (read_chunk_size (late_options delivery)) late_reads = Inr (map ie_event (fs_log ?s))"
    using evs(1) s(3) by simp
  moreover have "fs_addrs ?s = 1" by (cases delivery) (simp_all add: sub)
  moreover have "\<not> bs_replay_sealed (fs_state ?s)" by (cases delivery) (simp_all add: sub)
  moreover have "delivery = ReliableMarker \<longrightarrow> \<not> (snd \<circ> snd) (w_chans (fs_world ?s) 0)" by (cases delivery) (simp_all add: sub)
  moreover have "Eof \<in> ie_event ` set (fs_snap ?s 0 @ fs_recd ?s 0)" by (cases delivery) (simp_all add: sub)
  ultimately show ?thesis using run_subscribe_reachable [OF s(1)] by blast
qed

theorem whole_output_collected_witness:
  "\<exists>s c. fan_reachable example_mpsc (late_options ReliableMarker) s \<and>
     (\<exists>v. consume_sync (parse_lines_visitor example_deps (collect_lines_visitor (line_collector LineTrustedUnbounded))) v
        (map (Event \<circ> Some \<circ> ie_event) (fs_snap s 0 @ fs_recd s 0)) = Inr (Finished c)) \<and>
     cl_lines c = keep_lines LineTrustedUnbounded
       (map decode_line_lossy (spec_lines line_parsing_options_default ''ab\<newline>''))"
proof -
  obtain s where s: "fan_reachable example_mpsc (late_options ReliableMarker) s" "fs_addrs s = 1" "\<not> bs_replay_sealed (fs_state s)"
      "\<not> (snd \<circ> snd) (w_chans (fs_world s) 0)" "Eof \<in> ie_event ` set (fs_snap s 0 @ fs_recd s 0)"
      "reader_events ''stdout'' (read_chunk_size (late_options ReliableMarker)) late_reads = Inr (map ie_event (fs_log s))"
    using late_run by blast
  have o: "config_ok (late_options ReliableMarker)" "config_delivery_guarantee (late_options ReliableMarker) = ReliableWithBackpressure"
    "config_replay_retention (late_options ReliableMarker) = Some RetainAll" "read_terminal ''stdout'' late_reads = Some Eof"
    "read_bytes late_reads = ''ab\<newline>''" "0 < limit line_parsing_options_default" "0 < fs_addrs s"
    using s(2)
    by (simp_all add: late_options_def late_reads_def example_config_def config_ok_def retention_ok_def
        config_replay_retention_def config_delivery_guarantee_def line_parsing_options_default_def DEFAULT_MAX_LINE_LENGTH_def)
  show ?thesis
    using whole_output_collected [OF example_mpsc_ok s(1) o(1,2) s(4) o(3) s(3) o(7) s(6) o(4) s(5) example_deps_ok o(6),
        of LineTrustedUnbounded] s(1) o(5) by auto
qed

text \<open>C16: No invented lines.  Take a broadcast stream with lossy delivery that retains everything and is not sealed,
  in any interleaving, whose reader has published what it read from the pipe up to the end of the file.
  Whenever a subscriber attached and however far it fell behind, a line collector that consumes what it
  was handed up to the end-of-file event ends without a panic and retains what its options keep of a
  subsequence of the decoded lines of the bytes read: a loss can only leave lines out, and neither joins
  bytes across it nor cuts a line short.  If it was handed no gap marker, no line is missing.\<close>

theorem lossy_output_lines:
  assumes "mpsc_ok ops contents gone" "fan_reachable ops options s" and "config_ok options"
    and "config_delivery_guarantee options = LossyWithoutBackpressure"
    and "config_replay_retention options = Some RetainAll" "\<not> bs_replay_sealed (fs_state s)" "a < fs_addrs s"
    and "reader_events name (read_chunk_size options) rs = Inr (map ie_event (fs_log s))"
    and "read_terminal name rs = Some Eof" "Eof \<in> ie_event ` set (fs_snap s a @ fs_recd s a)"
    and "byte_deps_ok d" "0 < limit parsing"
  shows "\<exists>v c ls. parse_lines_new parsing collected_lines_new = Inr v \<and>
     consume_sync (parse_lines_visitor d (collect_lines_visitor (line_collector copts))) v
       (map (Event \<circ> Some \<circ> ie_event) (fs_snap s a @ fs_recd s a)) = Inr (Finished c) \<and>
     cl_lines c = keep_lines copts ls \<and>
     subseq ls (map decode_line_lossy (spec_lines parsing (read_bytes rs))) \<and>
     (Gap \<notin> ie_event ` set (fs_snap s a @ fs_recd s a) \<longrightarrow>
        ls = map decode_line_lossy (spec_lines parsing (read_bytes rs)))"
proof -
  have "0 < bytes (read_chunk_size options)" using assms(3) by (simp add: config_ok_def)
  from reader_events_shape [OF this, of name rs] obtain cs where
    cs: "map ie_event (fs_log s) = map Chunk cs @ [Eof]" "concat cs = read_bytes rs"
    using assms(8,9) by auto
  have "gap_marked False (map ie_event (fs_snap s a @ fs_recd s a)) (map Chunk cs @ [Eof])"
    using handed_marked [OF assms(1,2,4-7) cs(1)] assms(10) by simp
  from collect_marked [OF assms(11,12) this, of copts] assms(10) cs(2) show ?thesis
    by (simp add: comp_assoc image_Un)
qed

theorem lossy_output_lines_witness:
  "\<exists>s c ls. fan_reachable example_mpsc (late_options LossyMarker) s \<and>
     (\<exists>v. consume_sync (parse_lines_visitor example_deps (collect_lines_visitor (line_collector LineTrustedUnbounded))) v
        (map (Event \<circ> Some \<circ> ie_event) (fs_snap s 0 @ fs_recd s 0)) = Inr (Finished c)) \<and>
     cl_lines c = keep_lines LineTrustedUnbounded ls \<and>
     subseq ls (map decode_line_lossy (spec_lines line_parsing_options_default ''ab\<newline>''))"
proof -
  obtain s where s: "fan_reachable example_mpsc (late_options LossyMarker) s" "fs_addrs s = 1" "\<not> bs_replay_sealed (fs_state s)"
      "Eof \<in> ie_event ` set (fs_snap s 0 @ fs_recd s 0)"
      "reader_events ''stdout'' (read_chunk_size (late_options LossyMarker)) late_reads = Inr (map ie_event (fs_log s))"
    using late_run [of LossyMarker] by blast
  have o: "config_ok (late_options LossyMarker)" "config_delivery_guarantee (late_options LossyMarker) = LossyWithoutBackpressure"
    "config_replay_retention (late_options LossyMarker) = Some RetainAll" "read_terminal ''stdout'' late_reads = Some Eof"
    "read_bytes late_reads = ''ab\<newline>''" "0 < limit line_parsing_options_default" "0 < fs_addrs s"
    using s(2)
    by (simp_all add: late_options_def late_reads_def example_config_def config_ok_def retention_ok_def
        config_replay_retention_def config_delivery_guarantee_def line_parsing_options_default_def DEFAULT_MAX_LINE_LENGTH_def)
  show ?thesis
    using lossy_output_lines [OF example_mpsc_ok s(1) o(1-3) s(3) o(7) s(5) o(4) s(4) example_deps_ok o(6),
        of LineTrustedUnbounded] s(1) unfolding o(5) by blast
qed

end
